(* ===== verification/Prelude.thy ===== *)
theory Prelude
  imports Main "HOL-Library.Word" "HOL-Library.AList" "HOL-Library.Multiset" "HOL-Library.Sublist"
begin

section \<open>Prelude: machine types, byte tails, association lists\<close>

text \<open>
  What every component of the development shares: the names of Go's machine types, the
  tail of a byte slice, the arithmetic of unsigned 64-bit coordinates (which wrap, so every
  use states where it does not), association lists for Go maps and the collections of
  simplification rules that the component theories extend.
\<close>

subsection \<open>Types\<close>

type_synonym byte = "8 word"
type_synonym u16 = "16 word"
type_synonym u32 = "32 word"
type_synonym u64 = "64 word"

text \<open>Go's \<open>uint64(len(data))\<close>.\<close>

abbreviation len64 :: "'a list \<Rightarrow> u64" where
  "len64 xs \<equiv> of_nat (length xs)"

named_theorems coord_simps \<open>unsigned 64-bit coordinates read as natural numbers\<close>

subsection \<open>Unsigned coordinates\<close>

lemma unat_u64_bound [simp]: "unat (a :: u64) < 18446744073709551616"
  using unsigned_less [of a] by simp

lemma unat_u32_bound [simp]: "unat (a :: u32) < 4294967296"
  using unsigned_less [of a] by simp

lemma unat_u16_bound [simp]: "unat (a :: u16) < 65536"
  using unsigned_less [of a] by simp

lemma unat_of_nat_small [coord_simps]:
  "n < 2 ^ 64 \<Longrightarrow> unat (of_nat n :: u64) = n"
  by (simp add: unat_of_nat take_bit_nat_eq_self)

lemma unat_add_len [coord_simps]:
  fixes a :: u64
  assumes "unat a + length xs < 2 ^ 64"
  shows "unat (a + len64 xs) = unat a + length xs"
proof -
  have "unat (len64 xs :: u64) = length xs"
    using assms by (simp add: unat_of_nat_small)
  with assms show ?thesis by (simp add: unat_word_ariths)
qed

lemma unat_len64 [coord_simps]:
  assumes "length xs < 2 ^ 64"
  shows "unat (len64 xs :: u64) = length xs"
  using assms by (simp add: unat_of_nat_small)

lemma unat_sub_le [coord_simps]:
  fixes a b :: u64
  assumes "b \<le> a"
  shows "unat (a - b) = unat a - unat b"
  using assms by (rule unat_sub)

lemma unat_of_int_nat:
  assumes "0 \<le> k" and "k < 2 ^ 64"
  shows "unat (of_int k :: u64) = nat k"
  using assms by (simp add: unsigned_of_int take_bit_int_eq_self)

lemma len64_drop_coord:
  fixes a f :: u64
  assumes "f \<le> a" and "unat a \<le> unat f + length xs"
  shows "unat a - unat f \<le> length xs"
  using assms by (simp add: word_le_nat_alt)

subsection \<open>The tail of a slice\<close>

text \<open>Go's \<open>data[len(data)-n:]\<close> for \<open>n \<le> len(data)\<close>, and the whole slice otherwise.\<close>

definition tail_of :: "nat \<Rightarrow> 'a list \<Rightarrow> 'a list" where
  "tail_of n xs = drop (length xs - n) xs"

lemma length_tail_of [simp]: "length (tail_of n xs) = min n (length xs)"
  by (simp add: tail_of_def)

lemma tail_of_all [simp]: "length xs \<le> n \<Longrightarrow> tail_of n xs = xs"
  by (simp add: tail_of_def)

lemma tail_of_append_ge:
  "length ys \<le> n \<Longrightarrow> tail_of n (xs @ ys) = tail_of (n - length ys) xs @ ys"
  by (simp add: tail_of_def)

subsection \<open>Association lists as Go maps\<close>

text \<open>
  A Go map is an association list whose order is the order of one iteration over it; lookups
  are \<open>map_of\<close>, stores \<open>AList.update\<close> and deletes \<open>AList.delete\<close>. Go fixes no iteration
  order, so what iterates is shown not to depend on it.
\<close>

lemmas amap_simps = AList.update_conv' AList.delete_conv'

subsection \<open>Writes to a connection\<close>

text \<open>
  What the peer of a connection is given by one \<open>Write\<close>: all of it (\<open>None\<close>), or, when the write
  fails, what went out before it did (\<open>Some n\<close>).
\<close>

definition conn_write :: "nat option \<Rightarrow> byte list \<Rightarrow> byte list" where
  "conn_write fault bs = (case fault of None \<Rightarrow> bs | Some n \<Rightarrow> take n bs)"

lemma conn_write_prefix: "prefix (conn_write fault bs) bs"
  by (simp add: conn_write_def take_is_prefix split: option.split)

lemma conn_write_whole [simp]: "conn_write None bs = bs"
  by (simp add: conn_write_def)

end
