(* ===== verification/Contract.thy ===== *)
theory Contract
  imports Prelude
begin

section \<open>What the sidecar takes from its contract package\<close>

text \<open>
  The numbers and message shapes of the contract package are not part of this repository.
  The numbers are one record that every operation reading them takes as an argument, and what
  the code relies on about them is \<open>contract_ok\<close>. The message shapes carry the fields the
  sidecar's code fills in and reads.
\<close>

record contract =
  HighWatermark :: nat
  LowWatermark :: nat
  LeaseBufferBytes :: nat
  ObserverBufferBytes :: nat
  DeliveryBatchBytes :: nat
  DeliveryMinHoldBytes :: nat

definition contract_ok :: "contract \<Rightarrow> bool" where
  "contract_ok c \<longleftrightarrow> 0 < LowWatermark c \<and> LowWatermark c < HighWatermark c
     \<and> HighWatermark c < 2 ^ 62 \<and> LeaseBufferBytes c < 2 ^ 62
     \<and> 0 < ObserverBufferBytes c \<and> ObserverBufferBytes c < 2 ^ 62
     \<and> DeliveryMinHoldBytes c \<le> DeliveryBatchBytes c \<and> 0 < DeliveryBatchBytes c"

datatype attach_mode = ModeResumed | ModeRestarted

record OutputObservation =
  out_EventSequence :: u64
  out_FromSequence :: u64
  out_ThroughSequence :: u64
  out_Bytes :: "byte list"

record GapObservation =
  gap_FromEventSequence :: u64
  gap_ThroughEventSequence :: u64
  gap_FromSequence :: u64
  gap_ThroughSequence :: u64

record ResizeObservation =
  rsz_EventSequence :: u64
  rsz_Cols :: u16
  rsz_Rows :: u16

record EndObservation =
  end_EventSequence :: u64
  end_ExitCode :: int

record OpenedObservation =
  opn_Session :: u64
  opn_Generation :: u64
  opn_EventSequence :: u64
  opn_OutputSequence :: u64

text \<open>The framing constants of the observation stream, and the layout the code writes into.\<close>

record frame_contract =
  ObservationFrameHeaderBytes :: nat
  ObservationFrameOutput :: byte
  ObservationFrameGap :: byte
  ObservationFrameResize :: byte
  ObservationFrameEnd :: byte
  ObservationFrameOpened :: byte
  ObservationOutputMetadataBytes :: nat
  ObservationGapPayloadBytes :: nat
  ObservationResizePayloadBytes :: nat
  ObservationEndPayloadBytes :: nat
  ObservationOpenedPayloadBytes :: nat

definition frame_kinds :: "frame_contract \<Rightarrow> byte list" where
  "frame_kinds k = [ObservationFrameOutput k, ObservationFrameGap k, ObservationFrameResize k,
     ObservationFrameEnd k, ObservationFrameOpened k]"

definition frame_contract_ok :: "frame_contract \<Rightarrow> bool" where
  "frame_contract_ok k \<longleftrightarrow> distinct (frame_kinds k)
     \<and> ObservationFrameHeaderBytes k = 5 \<and> ObservationOutputMetadataBytes k = 24
     \<and> ObservationGapPayloadBytes k = 32 \<and> ObservationResizePayloadBytes k = 12
     \<and> ObservationEndPayloadBytes k = 12 \<and> ObservationOpenedPayloadBytes k = 32"

definition sample_frames :: frame_contract where
  "sample_frames = \<lparr>ObservationFrameHeaderBytes = 5, ObservationFrameOutput = 1, ObservationFrameGap = 2,
     ObservationFrameResize = 3, ObservationFrameEnd = 4, ObservationFrameOpened = 5,
     ObservationOutputMetadataBytes = 24, ObservationGapPayloadBytes = 32,
     ObservationResizePayloadBytes = 12, ObservationEndPayloadBytes = 12,
     ObservationOpenedPayloadBytes = 32\<rparr>"

lemma sample_frames_ok [simp]: "frame_contract_ok sample_frames"
  by (simp add: frame_contract_ok_def sample_frames_def frame_kinds_def)

text \<open>A small contract for evaluating the model on concrete inputs.\<close>

definition small_contract :: contract where
  "small_contract = \<lparr>HighWatermark = 8, LowWatermark = 4, LeaseBufferBytes = 12,
     ObserverBufferBytes = 6, DeliveryBatchBytes = 4, DeliveryMinHoldBytes = 2\<rparr>"

lemma small_contract_ok [simp]: "contract_ok small_contract"
  by (simp add: contract_ok_def small_contract_def)

end
