(* ===== verification/Log.thy ===== *)
theory Log
  imports Prelude
begin

section \<open>The interface of an output log\<close>

text \<open>
  What a consumer of a session's output relies on, whoever provides it: the output is one
  append-only byte sequence, the provider forgets a prefix of it and never anything else,
  and a read at a coordinate answers the bytes from there (from the forgotten prefix's end,
  if the coordinate lies inside it). The ring provides it (theory Ring); the delivery of an
  attached connection and the start of an observation consume it.
\<close>

text \<open>
  A consumer that started somewhere in the log and pulls at its cursor: between the two lies what
  it has passed. A pull gives it the rest of the output, less what the log has already forgotten,
  and takes the cursor to the end; nothing is skipped unless the cursor lies below the floor.
\<close>

definition passed :: "u64 \<Rightarrow> u64 \<Rightarrow> byte list \<Rightarrow> byte list" where
  "passed start at out = drop (unat start) (take (unat at) out)"

lemma passed_grow: "unat at \<le> length out \<Longrightarrow> passed start at (out @ d) = passed start at out"
  by (simp add: passed_def)

lemma passed_rest:
  assumes "unat start \<le> unat at" and "unat at \<le> length out"
  shows "passed start at out @ drop (unat at) out = drop (unat start) out"
  using assms unfolding passed_def
  by (metis append_take_drop_id drop_append length_take min_absorb2 diff_is_0_eq' drop0)

locale output_log =
  fixes inv :: "'r \<Rightarrow> bool"
    and rep :: "'r \<Rightarrow> byte list \<Rightarrow> bool"
    and low :: "'r \<Rightarrow> u64"
    and app :: "'r \<Rightarrow> byte list \<Rightarrow> 'r"
    and pull :: "'r \<Rightarrow> u64 \<Rightarrow> byte list \<times> u64"
  assumes low_le: "inv r \<Longrightarrow> rep r out \<Longrightarrow> unat (low r) \<le> length out"
    and bounded: "inv r \<Longrightarrow> rep r out \<Longrightarrow> length out < 2 ^ 64"
    and inv_app: "inv r \<Longrightarrow> rep r out \<Longrightarrow> length out + length d < 2 ^ 64 \<Longrightarrow> inv (app r d)"
    and rep_app: "inv r \<Longrightarrow> rep r out \<Longrightarrow> length out + length d < 2 ^ 64 \<Longrightarrow> rep (app r d) (out @ d)"
    and low_app: "inv r \<Longrightarrow> rep r out \<Longrightarrow> length out + length d < 2 ^ 64 \<Longrightarrow> low r \<le> low (app r d)"
    and pull_bytes: "inv r \<Longrightarrow> rep r out \<Longrightarrow> unat at \<le> length out \<Longrightarrow>
          fst (pull r at) = drop (max (unat at) (unat (low r))) out"
    and pull_next: "inv r \<Longrightarrow> rep r out \<Longrightarrow> unat at \<le> length out \<Longrightarrow>
          unat (snd (pull r at)) = length out"
begin

lemma pull_passes:
  assumes "inv r" and "rep r out" and "unat start \<le> unat at" and "unat at \<le> length out"
    and "pull r at = (bs, nxt)"
  shows "passed start nxt out = passed start at out @ drop (unat at) out"
  using passed_rest [OF assms(3,4)] pull_next [OF assms(1,2,4)] assms(5) by (simp add: passed_def)

lemma pull_ordered:
  assumes "inv r" and "rep r out" and "unat at \<le> length out" and "pull r at = (bs, nxt)"
  shows "subseq bs (drop (unat at) out)"
proof -
  have "bs = drop (max (unat at) (unat (low r))) out" using pull_bytes [OF assms(1-3)] assms(4) by simp
  then have "suffix bs (drop (unat at) out)"
    by (metis drop_drop le_add_diff_inverse2 max.cobounded1 suffix_drop)
  then show ?thesis by (rule suffix_imp_subseq)
qed

lemma pull_whole:
  assumes "inv r" and "rep r out" and "unat at \<le> length out" and "pull r at = (bs, nxt)"
    and "low r \<le> at"
  shows "bs = drop (unat at) out"
  using pull_bytes [OF assms(1-3)] assms(4,5) by (simp add: word_le_nat_alt max_def)

end

end
