(* ===== verification/Ring.thy ===== *)
theory Ring
  imports Contract Log
begin

section \<open>The output ring (ring.go)\<close>

text \<open>
  One session's retained output. The record is the Go struct; each method is one critical
  section of the ring's mutex and so one function on the record. \<open>ring_waiters\<close> are the
  channels of parked readers, and an operation that wakes them answers the channels it
  closed. Leases are the Go map as an association list, and \<open>trimLocked\<close> walks it in list
  order; that the order does not matter is proved here.
\<close>

subsection \<open>State and operations\<close>

record ringLease =
  after :: u64
  broken :: bool

record ring =
  ring_bytes :: "byte list"
  ring_floor :: u64
  ring_capacity :: int
  ring_acked :: u64
  ring_waiters :: "nat list"
  ring_ended :: bool
  ring_leases :: "(string \<times> ringLease) list"

datatype ring_error =
    LeaseOutside u64 u64 u64
  | LeaseAbsent string
  | LeaseBroken string

definition newRing :: "contract \<Rightarrow> int \<Rightarrow> ring" where
  "newRing c capacity =
     \<lparr>ring_bytes = [], ring_floor = 0,
      ring_capacity = (if capacity \<le> 0 then int (HighWatermark c) else capacity),
      ring_acked = 0, ring_waiters = [], ring_ended = False, ring_leases = []\<rparr>"

text \<open>The sequence the next byte written will carry.\<close>

definition ring_live :: "ring \<Rightarrow> u64" where
  "ring_live r = ring_floor r + len64 (ring_bytes r)"

text \<open>The lease loop of \<open>trimLocked\<close>: the leases as it leaves them, and the floor it aims at.\<close>

fun trim_leases :: "contract \<Rightarrow> u64 \<Rightarrow> (string \<times> ringLease) list \<Rightarrow> u64
    \<Rightarrow> (string \<times> ringLease) list \<times> u64" where
  "trim_leases c live [] target = ([], target)"
| "trim_leases c live ((token, lease) # rest) target =
     (if broken lease \<or> after lease \<ge> target then
        apfst (Cons (token, lease)) (trim_leases c live rest target)
      else if live - after lease > of_nat (LeaseBufferBytes c) then
        apfst (Cons (token, lease\<lparr>broken := True\<rparr>)) (trim_leases c live rest target)
      else
        apfst (Cons (token, lease)) (trim_leases c live rest (after lease)))"

definition trim_target :: "ring \<Rightarrow> u64" where
  "trim_target r =
     (if ring_live r > of_int (ring_capacity r)
      then ring_live r - of_int (ring_capacity r) else 0)"

definition trimLocked :: "contract \<Rightarrow> ring \<Rightarrow> ring" where
  "trimLocked c r =
     (case trim_leases c (ring_live r) (ring_leases r) (trim_target r) of
        (ls, target) \<Rightarrow>
          if target > ring_floor r then
            r\<lparr>ring_leases := ls,
              ring_bytes := drop (unat (target - ring_floor r)) (ring_bytes r),
              ring_floor := target\<rparr>
          else r\<lparr>ring_leases := ls\<rparr>)"

definition wakeLocked :: "ring \<Rightarrow> ring \<times> nat list" where
  "wakeLocked r = (r\<lparr>ring_waiters := []\<rparr>, ring_waiters r)"

definition ring_restore :: "contract \<Rightarrow> ring \<Rightarrow> byte list \<Rightarrow> u64 \<Rightarrow> ring" where
  "ring_restore c r data through =
     (let through = (if through < len64 data then len64 data else through);
          kept = (if int (length data) > ring_capacity r
                  then tail_of (nat (ring_capacity r)) data else data)
      in trimLocked c (r\<lparr>ring_bytes := kept, ring_floor := through - len64 kept\<rparr>))"

definition ring_write :: "contract \<Rightarrow> ring \<Rightarrow> byte list \<Rightarrow> ring \<times> u64 \<times> nat list" where
  "ring_write c r data =
     (let r1 = trimLocked c (r\<lparr>ring_bytes := ring_bytes r @ data\<rparr>);
          next_seq = ring_live r1;
          (r2, woken) = wakeLocked r1
      in (r2, next_seq, woken))"

definition ring_lease :: "ring \<Rightarrow> string \<Rightarrow> u64 \<Rightarrow> (ring_error + unit) \<times> ring" where
  "ring_lease r token aft =
     (if aft < ring_floor r \<or> aft > ring_live r
      then (Inl (LeaseOutside aft (ring_floor r) (ring_live r)), r)
      else (Inr (), r\<lparr>ring_leases :=
              AList.update token \<lparr>after = aft, broken = False\<rparr> (ring_leases r)\<rparr>))"

definition consumeLease :: "contract \<Rightarrow> ring \<Rightarrow> string \<Rightarrow> (ring_error + u64) \<times> ring" where
  "consumeLease c r token =
     (case map_of (ring_leases r) token of
        None \<Rightarrow> (Inl (LeaseAbsent token), r)
      | Some lease \<Rightarrow>
          (let r1 = r\<lparr>ring_leases := AList.delete token (ring_leases r)\<rparr>
           in if broken lease \<or> after lease < ring_floor r1
              then (Inl (LeaseBroken token), trimLocked c r1)
              else (Inr (after lease), trimLocked c r1)))"

definition expireLease :: "contract \<Rightarrow> ring \<Rightarrow> string \<Rightarrow> ring" where
  "expireLease c r token =
     trimLocked c (r\<lparr>ring_leases := AList.delete token (ring_leases r)\<rparr>)"

definition ring_end :: "ring \<Rightarrow> ring \<times> nat list" where
  "ring_end r = wakeLocked (r\<lparr>ring_ended := True\<rparr>)"

definition ring_resolve :: "ring \<Rightarrow> u64 option \<Rightarrow> u64 \<times> attach_mode" where
  "ring_resolve r from =
     (case from of
        None \<Rightarrow> (ring_live r, ModeResumed)
      | Some f \<Rightarrow>
          if f < ring_floor r then (ring_floor r, ModeRestarted)
          else if f > ring_live r then (ring_floor r, ModeRestarted)
          else (f, ModeResumed))"

text \<open>
  One pass of the loop in \<open>read\<close>: it answers bytes, answers that the session ended, or parks
  the reader on the channel \<open>w\<close> it just made, with the cursor it will retry from.
\<close>

datatype read_result =
    ReadBytes "byte list" u64
  | ReadEnded u64
  | ReadParked u64

definition ring_read :: "ring \<Rightarrow> nat \<Rightarrow> u64 \<Rightarrow> read_result \<times> ring" where
  "ring_read r w at =
     (let at = (if at < ring_floor r then ring_floor r else at)
      in if at < ring_live r
         then (ReadBytes (drop (unat (at - ring_floor r)) (ring_bytes r)) (ring_live r), r)
         else if ring_ended r then (ReadEnded at, r)
         else (ReadParked at, r\<lparr>ring_waiters := ring_waiters r @ [w]\<rparr>))"

definition ring_state :: "ring \<Rightarrow> u64 \<times> nat" where
  "ring_state r = (ring_acked r, length (ring_bytes r))"

definition ring_snapshot :: "ring \<Rightarrow> u64 \<times> u64 \<times> byte list" where
  "ring_snapshot r = (ring_floor r, ring_live r, ring_bytes r)"

definition ring_ack :: "ring \<Rightarrow> u64 \<Rightarrow> ring" where
  "ring_ack r throughSeq =
     (if throughSeq > ring_acked r then r\<lparr>ring_acked := throughSeq\<rparr> else r)"

definition ring_paused :: "contract \<Rightarrow> ring \<Rightarrow> u64 \<Rightarrow> bool" where
  "ring_paused c r written = (written - ring_acked r \<ge> of_nat (HighWatermark c))"

definition ring_resumed :: "contract \<Rightarrow> ring \<Rightarrow> u64 \<Rightarrow> bool" where
  "ring_resumed c r written = (written - ring_acked r \<le> of_nat (LowWatermark c))"

subsection \<open>The lease loop against a reference\<close>

text \<open>
  What one trim decides, without the order of the walk: a lease is kept while it is not broken
  and within its budget; a lease is broken by a trim when it lies behind the capacity floor
  and over its budget.
\<close>

definition lease_kept :: "contract \<Rightarrow> u64 \<Rightarrow> ringLease \<Rightarrow> bool" where
  "lease_kept c live l \<longleftrightarrow> \<not> broken l \<and> live - after l \<le> of_nat (LeaseBufferBytes c)"

definition mark_lease :: "contract \<Rightarrow> u64 \<Rightarrow> u64 \<Rightarrow> ringLease \<Rightarrow> ringLease" where
  "mark_lease c live target l =
     (if \<not> broken l \<and> after l < target \<and> live - after l > of_nat (LeaseBufferBytes c)
      then l\<lparr>broken := True\<rparr> else l)"

text \<open>The floor a trim aims at: the capacity floor, held back by every kept lease.\<close>

definition lease_floor :: "contract \<Rightarrow> u64 \<Rightarrow> ringLease set \<Rightarrow> u64 \<Rightarrow> u64 \<Rightarrow> bool" where
  "lease_floor c live ls target t \<longleftrightarrow>
     t \<le> target \<and> (\<forall>l\<in>ls. lease_kept c live l \<longrightarrow> t \<le> after l)
     \<and> (t = target \<or> (\<exists>l\<in>ls. lease_kept c live l \<and> t = after l))"

lemma lease_floor_unique:
  "lease_floor c live ls target t \<Longrightarrow> lease_floor c live ls target t' \<Longrightarrow> t = t'"
  unfolding lease_floor_def by (metis order_antisym)

lemma budget_mono:
  fixes live a b :: u64
  assumes "b \<le> a" and "a \<le> live" and "live - b \<le> k"
  shows "live - a \<le> k"
  using assms by (auto simp: word_le_nat_alt unat_sub_le)

lemma trim_leases_marks:
  assumes "\<forall>l\<in>snd ` set ls. \<not> broken l \<longrightarrow> after l \<le> live"
    and "cur \<le> target" and "target \<le> live"
    and "cur = target \<or> live - cur \<le> of_nat (LeaseBufferBytes c)"
  shows "fst (trim_leases c live ls cur) = map (\<lambda>(k, l). (k, mark_lease c live target l)) ls"
  using assms
proof (induction c live ls cur rule: trim_leases.induct)
  case (1 c live cur)
  show ?case by simp
next
  case (2 c live token lease rest cur)
  show ?case
  proof (cases "broken lease \<or> after lease \<ge> cur")
    case True
    have "mark_lease c live target lease = lease"
      using True 2(4-) budget_mono [of cur "after lease" live "of_nat (LeaseBufferBytes c)"]
      by (auto simp: mark_lease_def)
    with True 2(1) 2(4-) show ?thesis by simp
  next
    case False
    then have lt: "\<not> broken lease" "after lease < cur" "after lease < target" "after lease \<le> live"
      using 2(4-) by auto
    show ?thesis
    proof (cases "live - after lease > of_nat (LeaseBufferBytes c)")
      case True
      with False lt 2(2) 2(4-) show ?thesis by (simp add: mark_lease_def)
    next
      case over: False
      then have within: "live - after lease \<le> of_nat (LeaseBufferBytes c)" by (rule leI)
      have "fst (trim_leases c live rest (after lease)) =
          map (\<lambda>(k, l). (k, mark_lease c live target l)) rest"
        using False lt over within 2(4-) by (intro 2(3)) auto
      with False over show ?thesis by (simp add: mark_lease_def)
    qed
  qed
qed

lemma lease_floor_skip:
  assumes "\<not> lease_kept c live l \<or> target \<le> after l" and "lease_floor c live ls target t"
  shows "lease_floor c live (insert l ls) target t"
  using assms unfolding lease_floor_def by (metis insert_iff order_trans)

lemma lease_floor_take:
  assumes "lease_kept c live l" and "after l \<le> target" and "lease_floor c live ls (after l) t"
  shows "lease_floor c live (insert l ls) target t"
  using assms unfolding lease_floor_def by (metis insert_iff order_trans)

lemma trim_leases_floor:
  "lease_floor c live (snd ` set ls) cur (snd (trim_leases c live ls cur))"
proof (induction c live ls cur rule: trim_leases.induct)
  case (1 c live cur)
  show ?case by (simp add: lease_floor_def)
next
  case (2 c live token lease rest cur)
  show ?case
  proof (cases "broken lease \<or> after lease \<ge> cur")
    case True
    with 2(1) show ?thesis by (auto simp: lease_kept_def intro!: lease_floor_skip)
  next
    case False
    then have lt: "after lease \<le> cur" by auto
    show ?thesis
    proof (cases "live - after lease > of_nat (LeaseBufferBytes c)")
      case True
      with False 2(2) show ?thesis
        by (auto simp: lease_kept_def not_le intro!: lease_floor_skip)
    next
      case within: False
      with False 2(3) lt show ?thesis
        by (simp add: lease_kept_def leI lease_floor_take)
    qed
  qed
qed

subsection \<open>The invariant\<close>

definition lease_ok :: "ring \<Rightarrow> ringLease \<Rightarrow> bool" where
  "lease_ok r l \<longleftrightarrow> broken l \<or> ring_floor r \<le> after l \<and> after l \<le> ring_live r"

text \<open>Every operation keeps this of a ring; only a trim restores the memory bound.\<close>

definition ring_wf :: "ring \<Rightarrow> bool" where
  "ring_wf r \<longleftrightarrow>
     unat (ring_floor r) + length (ring_bytes r) < 2 ^ 64
     \<and> 0 < ring_capacity r \<and> ring_capacity r < 2 ^ 63
     \<and> distinct (map fst (ring_leases r))
     \<and> (\<forall>l\<in>snd ` set (ring_leases r). lease_ok r l)
     \<and> (ring_ended r \<longrightarrow> ring_waiters r = [])"

definition ring_bound :: "contract \<Rightarrow> ring \<Rightarrow> nat" where
  "ring_bound c r = max (nat (ring_capacity r)) (LeaseBufferBytes c)"

definition ring_ok :: "contract \<Rightarrow> ring \<Rightarrow> bool" where
  "ring_ok c r \<longleftrightarrow> ring_wf r \<and> length (ring_bytes r) \<le> ring_bound c r"

lemma unat_ring_live [coord_simps]:
  "ring_wf r \<Longrightarrow> unat (ring_live r) = unat (ring_floor r) + length (ring_bytes r)"
  by (simp add: ring_wf_def ring_live_def unat_add_len)

lemma floor_le_live: "ring_wf r \<Longrightarrow> ring_floor r \<le> ring_live r"
  by (simp add: word_le_nat_alt unat_ring_live)

lemma unat_capacity: "ring_wf r \<Longrightarrow> unat (of_int (ring_capacity r) :: u64) = nat (ring_capacity r)"
  by (simp add: ring_wf_def unat_of_int_nat)

lemma trim_target_le_live: "ring_wf r \<Longrightarrow> trim_target r \<le> ring_live r"
  by (auto simp: trim_target_def word_le_nat_alt unat_sub_le [OF less_imp_le])

lemma trim_target_within:
  "ring_wf r \<Longrightarrow> unat (ring_live r) - unat (trim_target r) \<le> nat (ring_capacity r)"
  using unat_capacity [of r]
  by (auto simp: trim_target_def unat_sub_le less_imp_le word_less_nat_alt not_less word_le_nat_alt)

text \<open>The floor a trim of a well-formed ring ends at.\<close>

definition trim_floor :: "contract \<Rightarrow> ring \<Rightarrow> u64" where
  "trim_floor c r =
     max (ring_floor r) (snd (trim_leases c (ring_live r) (ring_leases r) (trim_target r)))"

lemma trim_floor_unleased:
  "ring_leases r = [] \<Longrightarrow> trim_target r \<le> ring_floor r \<Longrightarrow> trim_floor c r = ring_floor r"
  by (simp add: trim_floor_def max_def)

lemma trim_floor_bounds:
  assumes "ring_wf r"
  shows "ring_floor r \<le> trim_floor c r" and "trim_floor c r \<le> ring_live r"
  using trim_leases_floor [of c "ring_live r" "ring_leases r" "trim_target r"]
    trim_target_le_live [OF assms] floor_le_live [OF assms]
  by (auto simp: trim_floor_def lease_floor_def)

lemma trimLocked_eq:
  assumes "ring_wf r"
  shows "trimLocked c r =
    r\<lparr>ring_leases := map (\<lambda>(k, l). (k, mark_lease c (ring_live r) (trim_target r) l)) (ring_leases r),
      ring_bytes := drop (unat (trim_floor c r) - unat (ring_floor r)) (ring_bytes r),
      ring_floor := trim_floor c r\<rparr>"
proof -
  have leases: "\<forall>l\<in>snd ` set (ring_leases r). \<not> broken l \<longrightarrow> after l \<le> ring_live r"
    using assms by (auto simp: ring_wf_def lease_ok_def)
  have "fst (trim_leases c (ring_live r) (ring_leases r) (trim_target r)) =
      map (\<lambda>(k, l). (k, mark_lease c (ring_live r) (trim_target r) l)) (ring_leases r)"
    using leases trim_target_le_live [OF assms] by (intro trim_leases_marks) auto
  then show ?thesis
    by (auto simp: trimLocked_def trim_floor_def unat_sub_le max_def not_le not_less less_imp_le
        split: prod.splits)
qed

lemma trimLocked_untrimmed:
  "ring_wf r \<Longrightarrow> trim_floor c r = ring_floor r \<Longrightarrow> ring_bytes (trimLocked c r) = ring_bytes r"
  by (simp add: trimLocked_eq)

lemma trimLocked_frame [simp]:
  "ring_capacity (trimLocked c r) = ring_capacity r"
  "ring_acked (trimLocked c r) = ring_acked r"
  "ring_waiters (trimLocked c r) = ring_waiters r"
  "ring_ended (trimLocked c r) = ring_ended r"
  by (simp_all add: trimLocked_def split: prod.splits)

lemma trimLocked_live:
  assumes "ring_wf r"
  shows "ring_live (trimLocked c r) = ring_live r"
proof -
  note b = trim_floor_bounds [OF assms, of c]
  have "unat (trim_floor c r) + (length (ring_bytes r) - (unat (trim_floor c r) - unat (ring_floor r)))
      = unat (ring_live r)"
    using b by (simp add: word_le_nat_alt unat_ring_live [OF assms])
  then have "trim_floor c r + of_nat (length (ring_bytes r) - (unat (trim_floor c r) - unat (ring_floor r)))
      = ring_live r"
    by (metis of_nat_add of_nat_unat ucast_id)
  then show ?thesis by (simp add: trimLocked_eq [OF assms] ring_live_def)
qed

lemma trim_floor_lease:
  assumes "ring_wf r" and "l \<in> snd ` set (ring_leases r)"
    and "\<not> broken (mark_lease c (ring_live r) (trim_target r) l)"
  shows "trim_floor c r \<le> after l"
proof -
  have nb: "\<not> broken l" using assms(3) by (auto simp: mark_lease_def split: if_splits)
  with assms(1,2) have fl: "ring_floor r \<le> after l" "after l \<le> ring_live r"
    by (auto simp: ring_wf_def lease_ok_def)
  have "snd (trim_leases c (ring_live r) (ring_leases r) (trim_target r)) \<le> after l"
    using trim_leases_floor [of c "ring_live r" "ring_leases r" "trim_target r"] assms(2,3) nb
    by (force simp: lease_floor_def lease_kept_def mark_lease_def not_less split: if_splits)
  with fl show ?thesis by (simp add: trim_floor_def)
qed

lemma unat_of_nat_le: "unat (of_nat n :: u64) \<le> n"
  by (simp add: unat_of_nat)

lemma trim_floor_within:
  assumes "ring_wf r"
  shows "unat (ring_live r) - unat (trim_floor c r) \<le> ring_bound c r"
proof -
  let ?t = "snd (trim_leases c (ring_live r) (ring_leases r) (trim_target r))"
  have t: "lease_floor c (ring_live r) (snd ` set (ring_leases r)) (trim_target r) ?t"
    by (rule trim_leases_floor)
  have "unat (ring_live r) - unat ?t \<le> ring_bound c r"
  proof (cases "?t = trim_target r")
    case True
    with trim_target_within [OF assms] show ?thesis by (simp add: ring_bound_def)
  next
    case False
    with t obtain l where l: "l \<in> snd ` set (ring_leases r)" "lease_kept c (ring_live r) l" "?t = after l"
      by (auto simp: lease_floor_def)
    then have "after l \<le> ring_live r"
      using assms by (auto simp: ring_wf_def lease_ok_def lease_kept_def)
    then have "unat (ring_live r) - unat (after l) \<le> unat (of_nat (LeaseBufferBytes c) :: u64)"
      using l(2) by (simp add: lease_kept_def word_le_nat_alt unat_sub_le)
    also have "\<dots> \<le> LeaseBufferBytes c" by (rule unat_of_nat_le)
    finally show ?thesis using l(3) by (simp add: ring_bound_def)
  qed
  moreover have "unat ?t \<le> unat (trim_floor c r)"
    by (simp add: trim_floor_def flip: word_le_nat_alt)
  ultimately show ?thesis by linarith
qed

lemma mark_lease_simps [simp]:
  "after (mark_lease c live t l) = after l"
  "broken l \<Longrightarrow> mark_lease c live t l = l"
  by (simp_all add: mark_lease_def)

lemma trimLocked_wf:
  assumes "ring_wf r"
  shows "ring_wf (trimLocked c r)"
proof -
  note b = trim_floor_bounds [OF assms, of c]
  let ?m = "mark_lease c (ring_live r) (trim_target r)"
  have leases: "lease_ok (trimLocked c r) (?m l)" if "l \<in> snd ` set (ring_leases r)" for l
  proof (cases "broken (?m l)")
    case False
    then have "after l \<le> ring_live r"
      using that assms by (auto simp: ring_wf_def lease_ok_def)
    with False trim_floor_lease [OF assms that False] show ?thesis
      by (simp add: lease_ok_def trimLocked_live [OF assms]) (simp add: trimLocked_eq [OF assms])
  qed (simp add: lease_ok_def)
  have "unat (ring_floor (trimLocked c r)) + length (ring_bytes (trimLocked c r)) = unat (ring_live r)"
    using b by (simp add: trimLocked_eq [OF assms] word_le_nat_alt unat_ring_live [OF assms])
  moreover have "map fst (ring_leases (trimLocked c r)) = map fst (ring_leases r)"
    by (simp add: trimLocked_eq [OF assms] case_prod_unfold)
  moreover have "\<forall>l\<in>snd ` set (ring_leases (trimLocked c r)). lease_ok (trimLocked c r) l"
    using leases by (force simp: trimLocked_eq [OF assms])
  ultimately show ?thesis
    using assms unat_u64_bound [of "ring_live r"] by (simp add: ring_wf_def)
qed

lemma trimLocked_ok:
  assumes "ring_wf r"
  shows "ring_ok c (trimLocked c r)"
proof -
  have "length (ring_bytes (trimLocked c r)) =
      unat (ring_live (trimLocked c r)) - unat (ring_floor (trimLocked c r))"
    by (simp add: unat_ring_live [OF trimLocked_wf [OF assms]])
  also have "\<dots> = unat (ring_live r) - unat (trim_floor c r)"
    by (simp add: trimLocked_live [OF assms]) (simp add: trimLocked_eq [OF assms])
  finally show ?thesis
    using trimLocked_wf [OF assms] trim_floor_within [OF assms, of c]
    by (simp add: ring_ok_def ring_bound_def)
qed

text \<open>Every operation keeps the invariant.\<close>

lemma ring_wf_append:
  assumes "ring_wf r" and "unat (ring_live r) + length data < 2 ^ 64"
  shows "ring_wf (r\<lparr>ring_bytes := ring_bytes r @ data\<rparr>)"
proof -
  let ?r = "r\<lparr>ring_bytes := ring_bytes r @ data\<rparr>"
  have "unat (ring_live ?r) = unat (ring_live r) + length data"
    using assms(2) unat_add_len [of "ring_floor r" "ring_bytes r @ data"]
    by (simp add: unat_ring_live [OF assms(1)]) (simp add: ring_live_def)
  then have "ring_live r \<le> ring_live ?r" by (simp add: word_le_nat_alt)
  with assms show ?thesis
    by (auto simp: ring_wf_def lease_ok_def unat_ring_live dest: order_trans)
qed

lemma newRing_ok:
  assumes "contract_ok c" and "capacity < 2 ^ 63"
  shows "ring_ok c (newRing c capacity)"
  using assms by (auto simp: ring_ok_def ring_wf_def newRing_def ring_bound_def contract_ok_def)

lemma ring_write_ok:
  assumes "ring_ok c r" and "unat (ring_live r) + length data < 2 ^ 64"
  shows "ring_ok c (fst (ring_write c r data))"
  using trimLocked_ok [OF ring_wf_append, of r data c] assms
  by (auto simp: ring_ok_def ring_wf_def ring_write_def wakeLocked_def ring_bound_def
      lease_ok_def ring_live_def Let_def)

lemma ring_wf_delete:
  "ring_wf r \<Longrightarrow> ring_wf (r\<lparr>ring_leases := AList.delete k (ring_leases r)\<rparr>)"
  by (auto simp: ring_wf_def lease_ok_def ring_live_def AList.distinct_delete)
    (auto simp: AList.delete_eq lease_ok_def ring_live_def)

lemma ring_wf_update:
  assumes "ring_wf r" and "lease_ok r l"
  shows "ring_wf (r\<lparr>ring_leases := AList.update k l (ring_leases r)\<rparr>)"
proof -
  have "snd ` set (AList.update k l m) \<subseteq> insert l (snd ` set m)" for m
    by (induction m) auto
  with assms show ?thesis
    by (fastforce simp: ring_wf_def lease_ok_def ring_live_def intro: AList.distinct_update)
qed

lemma ring_lease_ok: "ring_ok c r \<Longrightarrow> ring_ok c (snd (ring_lease r token aft))"
  by (auto simp: ring_ok_def ring_lease_def ring_bound_def lease_ok_def not_less
      intro!: ring_wf_update)

lemma expireLease_ok: "ring_ok c r \<Longrightarrow> ring_ok c (expireLease c r token)"
  by (simp add: ring_ok_def [of c r] expireLease_def trimLocked_ok ring_wf_delete)

lemma consumeLease_ok: "ring_ok c r \<Longrightarrow> ring_ok c (snd (consumeLease c r token))"
  by (auto simp: ring_ok_def [of c r] consumeLease_def Let_def trimLocked_ok ring_wf_delete
      split: option.splits)

lemma ring_end_ok: "ring_ok c r \<Longrightarrow> ring_ok c (fst (ring_end r))"
  by (simp add: ring_ok_def ring_wf_def ring_end_def wakeLocked_def ring_bound_def
      lease_ok_def ring_live_def)

lemma ring_read_ok: "ring_ok c r \<Longrightarrow> ring_ok c (snd (ring_read r w at))"
  by (simp add: ring_ok_def ring_wf_def ring_read_def ring_bound_def lease_ok_def
      ring_live_def Let_def)

lemma ring_ack_ok: "ring_ok c r \<Longrightarrow> ring_ok c (ring_ack r through)"
  by (simp add: ring_ok_def ring_wf_def ring_ack_def ring_bound_def lease_ok_def ring_live_def)

subsection \<open>The ring holds a suffix of the session's output\<close>

text \<open>
  The specification of the ring: the session's output is one append-only byte sequence
  \<open>out\<close>, a coordinate is an index into it, and the ring represents it when what the ring
  retains is exactly \<open>out\<close> from the floor on.
\<close>

definition ring_holds :: "ring \<Rightarrow> byte list \<Rightarrow> bool" where
  "ring_holds r out \<longleftrightarrow> length out < 2 ^ 64
     \<and> unat (ring_floor r) \<le> length out
     \<and> ring_bytes r = drop (unat (ring_floor r)) out"

lemma ring_holds_live: "ring_wf r \<Longrightarrow> ring_holds r out \<Longrightarrow> unat (ring_live r) = length out"
  by (simp add: ring_holds_def unat_ring_live)

lemma ring_holds_trim:
  assumes "ring_wf r" and "ring_holds r out"
  shows "ring_holds (trimLocked c r) out"
  using trim_floor_bounds [OF assms(1), of c] assms ring_holds_live [OF assms]
  by (auto simp: ring_holds_def trimLocked_eq word_le_nat_alt)

lemma ring_holds_write:
  assumes "ring_wf r" and "ring_holds r out" and "length out + length data < 2 ^ 64"
  shows "ring_holds (fst (ring_write c r data)) (out @ data)"
proof -
  let ?r = "r\<lparr>ring_bytes := ring_bytes r @ data\<rparr>"
  have "ring_wf ?r"
    using assms ring_wf_append [of r data] by (simp add: ring_holds_live)
  moreover have "ring_holds ?r (out @ data)"
    using assms by (simp add: ring_holds_def)
  ultimately have "ring_holds (trimLocked c ?r) (out @ data)" by (rule ring_holds_trim)
  then show ?thesis by (simp add: ring_write_def wakeLocked_def ring_holds_def Let_def)
qed

definition ring_pull :: "ring \<Rightarrow> u64 \<Rightarrow> byte list \<times> u64" where
  "ring_pull r at =
     (case fst (ring_read r 0 at) of
        ReadBytes bs nxt \<Rightarrow> (bs, nxt) | ReadEnded at' \<Rightarrow> ([], at') | ReadParked at' \<Rightarrow> ([], at'))"

lemma ring_pull_eq:
  assumes "ring_wf r" and "ring_holds r out" and "unat at \<le> length out"
  shows "fst (ring_pull r at) = drop (max (unat at) (unat (ring_floor r))) out"
    and "unat (snd (ring_pull r at)) = length out"
proof -
  let ?at = "if at < ring_floor r then ring_floor r else at"
  have live: "unat (ring_live r) = length out" using assms by (simp add: ring_holds_live)
  have le: "ring_floor r \<le> ?at" "?at \<le> ring_live r"
    using assms floor_le_live [OF assms(1)] by (auto simp: word_le_nat_alt live not_less)
  have m: "unat ?at = max (unat at) (unat (ring_floor r))"
    by (auto simp: word_less_nat_alt max_def)
  have d: "drop (unat (?at - ring_floor r)) (ring_bytes r) = drop (unat ?at) out"
    using le assms(2) by (simp add: ring_holds_def unat_sub_le word_le_nat_alt del: if_split)
  show "fst (ring_pull r at) = drop (max (unat at) (unat (ring_floor r))) out"
  proof (cases "?at < ring_live r")
    case True
    then show ?thesis using d m by (simp add: ring_pull_def ring_read_def Let_def)
  next
    case False
    then have "length out \<le> unat ?at" by (simp add: word_less_nat_alt live)
    with False show ?thesis using m by (simp add: ring_pull_def ring_read_def Let_def)
  qed
  show "unat (snd (ring_pull r at)) = length out"
    using le live by (auto simp: ring_pull_def ring_read_def Let_def word_le_nat_alt word_less_nat_alt)
qed

text \<open>The ring provides the interface of an output log.\<close>

lemma ring_floor_write:
  assumes "ring_wf r" and "unat (ring_live r) + length data < 2 ^ 64"
  shows "ring_floor r \<le> ring_floor (fst (ring_write c r data))"
proof -
  note w = ring_wf_append [OF assms]
  show ?thesis
    using trim_floor_bounds(1) [OF w, of c]
    by (simp add: ring_write_def wakeLocked_def Let_def trimLocked_eq [OF w])
qed

interpretation ring_log: output_log "ring_ok c" ring_holds ring_floor
    "\<lambda>r d. fst (ring_write c r d)" ring_pull for c
proof (unfold_locales, goal_cases)
  case (1 r out)
  then show ?case by (simp add: ring_holds_def)
next
  case (2 r out)
  then show ?case by (simp add: ring_holds_def)
next
  case (3 r out d)
  then have "unat (ring_live r) = length out" by (simp add: ring_ok_def ring_holds_live)
  with 3 show ?case by (simp add: ring_write_ok)
next
  case (4 r out d)
  then show ?case by (simp add: ring_holds_write ring_ok_def)
next
  case (5 r out d)
  then show ?case by (simp add: ring_floor_write ring_ok_def ring_holds_live)
next
  case (6 r out at)
  then show ?case by (simp add: ring_pull_eq ring_ok_def)
next
  case (7 r out at)
  then show ?case by (simp add: ring_pull_eq ring_ok_def)
qed

subsection \<open>Runs of ring operations\<close>

datatype ring_op =
    OpWrite "byte list"
  | OpLease string u64
  | OpConsume string
  | OpExpire string
  | OpRead nat u64
  | OpAck u64
  | OpEnd

fun ring_step :: "contract \<Rightarrow> ring \<Rightarrow> ring_op \<Rightarrow> ring" where
  "ring_step c r (OpWrite data) = fst (ring_write c r data)"
| "ring_step c r (OpLease token aft) = snd (ring_lease r token aft)"
| "ring_step c r (OpConsume token) = snd (consumeLease c r token)"
| "ring_step c r (OpExpire token) = expireLease c r token"
| "ring_step c r (OpRead w at) = snd (ring_read r w at)"
| "ring_step c r (OpAck through) = ring_ack r through"
| "ring_step c r OpEnd = fst (ring_end r)"

fun ring_run :: "contract \<Rightarrow> ring \<Rightarrow> ring_op list \<Rightarrow> ring" where
  "ring_run c r [] = r"
| "ring_run c r (a # as) = ring_run c (ring_step c r a) as"

fun op_output :: "ring_op \<Rightarrow> byte list" where
  "op_output (OpWrite data) = data"
| "op_output _ = []"

definition run_output :: "ring_op list \<Rightarrow> byte list" where
  "run_output as = concat (map op_output as)"

lemma ring_step_ok:
  assumes "ring_ok c r" and "unat (ring_live r) + length (op_output a) < 2 ^ 64"
  shows "ring_ok c (ring_step c r a)"
  using assms
  by (cases a) (simp_all add: ring_write_ok ring_lease_ok consumeLease_ok expireLease_ok
      ring_read_ok ring_ack_ok ring_end_ok)

lemma ring_step_holds:
  assumes "ring_ok c r" and "ring_holds r out" and "length out + length (op_output a) < 2 ^ 64"
  shows "ring_holds (ring_step c r a) (out @ op_output a)"
proof (cases a)
  case (OpWrite data)
  with assms show ?thesis by (simp add: ring_ok_def ring_holds_write)
next
  case (OpConsume token)
  have "ring_holds (r\<lparr>ring_leases := ls\<rparr>) out" for ls
    using assms(2) by (simp add: ring_holds_def)
  with OpConsume assms show ?thesis
    by (auto simp: ring_ok_def consumeLease_def Let_def ring_wf_delete ring_holds_trim
        split: option.splits)
next
  case (OpExpire token)
  have "ring_holds (r\<lparr>ring_leases := ls\<rparr>) out" for ls
    using assms(2) by (simp add: ring_holds_def)
  with OpExpire assms show ?thesis
    by (simp add: ring_ok_def expireLease_def ring_wf_delete ring_holds_trim)
qed (use assms in \<open>simp_all add: ring_holds_def ring_lease_def ring_read_def ring_ack_def
      ring_end_def wakeLocked_def Let_def\<close>)

lemma ring_step_rep:
  assumes "ring_ok c r" and "ring_holds r out" and "length out + length (op_output a) < 2 ^ 64"
  shows "ring_ok c (ring_step c r a)" and "ring_holds (ring_step c r a) (out @ op_output a)"
proof -
  have "unat (ring_live r) = length out" using assms by (simp add: ring_ok_def ring_holds_live)
  with assms show "ring_ok c (ring_step c r a)" by (simp add: ring_step_ok)
  show "ring_holds (ring_step c r a) (out @ op_output a)" using assms by (rule ring_step_holds)
qed

lemma ring_run_refines_log:
  assumes "ring_ok c r" and "ring_holds r out" and "length out + length (run_output as) < 2 ^ 64"
  shows "ring_ok c (ring_run c r as) \<and> ring_holds (ring_run c r as) (out @ run_output as)"
  using assms
proof (induction as arbitrary: r out)
  case Nil
  then show ?case by (simp add: run_output_def)
next
  case (Cons a as)
  have l: "length out + length (op_output a) < 2 ^ 64"
    using Cons.prems(3) by (simp add: run_output_def)
  from ring_step_rep [OF Cons.prems(1,2) l] Cons.IH [of "ring_step c r a" "out @ op_output a"] Cons.prems(3) show ?case
    by (simp add: run_output_def)
qed

subsection \<open>Leases hold the floor\<close>

definition lease_held :: "ring \<Rightarrow> string \<Rightarrow> u64 \<Rightarrow> bool" where
  "lease_held r token aft \<longleftrightarrow>
     map_of (ring_leases r) token = Some \<lparr>after = aft, broken = False\<rparr>"

fun touches :: "string \<Rightarrow> ring_op \<Rightarrow> bool" where
  "touches token (OpLease t aft) = (t = token)"
| "touches token (OpConsume t) = (t = token)"
| "touches token (OpExpire t) = (t = token)"
| "touches token _ = False"

lemma lease_held_floor:
  assumes "ring_wf r" and "lease_held r token aft"
  shows "ring_floor r \<le> aft" and "aft \<le> ring_live r"
proof -
  have "(token, \<lparr>after = aft, broken = False\<rparr>) \<in> set (ring_leases r)"
    using assms(2) by (simp add: lease_held_def map_of_SomeD)
  then have "lease_ok r \<lparr>after = aft, broken = False\<rparr>"
    using assms(1) by (force simp: ring_wf_def)
  then show "ring_floor r \<le> aft" "aft \<le> ring_live r" by (simp_all add: lease_ok_def)
qed

lemma map_of_marked:
  "map_of (map (\<lambda>(k, l). (k, f l)) ls) k = map_option f (map_of ls k)"
  by (induction ls) auto

lemma lease_held_trim:
  assumes "contract_ok c" and "ring_wf r" and "lease_held r token aft"
    and "unat (ring_live r) - unat aft \<le> LeaseBufferBytes c"
  shows "lease_held (trimLocked c r) token aft"
proof -
  have "LeaseBufferBytes c < 2 ^ 64" using assms(1) by (simp add: contract_ok_def)
  then have "unat (of_nat (LeaseBufferBytes c) :: u64) = LeaseBufferBytes c"
    by (simp add: unat_of_nat_small)
  then have "ring_live r - aft \<le> of_nat (LeaseBufferBytes c)"
    using assms(4) lease_held_floor(2) [OF assms(2,3)] by (simp add: word_le_nat_alt unat_sub_le)
  then show ?thesis
    using assms(3) by (simp add: lease_held_def trimLocked_eq [OF assms(2)] map_of_marked
        mark_lease_def not_less)
qed

lemma lease_held_step:
  assumes "contract_ok c" and "ring_wf r" and "lease_held r token aft" and "\<not> touches token a"
    and "unat (ring_live r) + length (op_output a) < 2 ^ 64"
    and "unat (ring_live r) + length (op_output a) - unat aft \<le> LeaseBufferBytes c"
  shows "lease_held (ring_step c r a) token aft"
proof -
  have del: "lease_held (trimLocked c (r\<lparr>ring_leases := AList.delete t (ring_leases r)\<rparr>)) token aft"
    if "t \<noteq> token" "op_output a = []" for t
  proof (rule lease_held_trim [OF assms(1) ring_wf_delete [OF assms(2)]])
    show "lease_held (r\<lparr>ring_leases := AList.delete t (ring_leases r)\<rparr>) token aft"
      using that assms(3) by (simp add: lease_held_def)
    show "unat (ring_live (r\<lparr>ring_leases := AList.delete t (ring_leases r)\<rparr>)) - unat aft \<le> LeaseBufferBytes c"
      using that assms(6) by (simp add: ring_live_def)
  qed
  show ?thesis
  proof (cases a)
    case (OpWrite data)
    let ?r = "r\<lparr>ring_bytes := ring_bytes r @ data\<rparr>"
    have wf: "ring_wf ?r" using assms OpWrite by (simp add: ring_wf_append)
    have "unat (ring_live ?r) = unat (ring_live r) + length data"
      by (simp add: unat_ring_live [OF wf] unat_ring_live [OF assms(2)])
    with assms OpWrite have "lease_held (trimLocked c ?r) token aft"
      by (intro lease_held_trim wf) (simp_all add: lease_held_def)
    with OpWrite show ?thesis by (simp add: ring_write_def wakeLocked_def lease_held_def Let_def)
  next
    case (OpConsume t)
    with assms del [of t] show ?thesis
      by (auto simp: consumeLease_def Let_def split: option.splits)
  next
    case (OpExpire t)
    with assms del [of t] show ?thesis by (simp add: expireLease_def)
  qed (use assms in \<open>simp_all add: lease_held_def ring_lease_def AList.update_conv' ring_read_def
        ring_ack_def ring_end_def wakeLocked_def Let_def\<close>)
qed

lemma lease_held_run:
  assumes "contract_ok c" and "ring_ok c r" and "ring_holds r out" and "lease_held r token aft"
    and "\<forall>a\<in>set as. \<not> touches token a"
    and "length out + length (run_output as) < 2 ^ 64"
    and "length out + length (run_output as) - unat aft \<le> LeaseBufferBytes c"
  shows "lease_held (ring_run c r as) token aft"
  using assms
proof (induction as arbitrary: r out)
  case Nil
  then show ?case by simp
next
  case (Cons a as)
  have live: "unat (ring_live r) = length out" and wf: "ring_wf r"
    using Cons.prems by (simp_all add: ring_ok_def ring_holds_live)
  have len: "length out + length (op_output a) \<le> length out + length (run_output (a # as))"
    by (simp add: run_output_def)
  have "ring_ok c (ring_step c r a)" "ring_holds (ring_step c r a) (out @ op_output a)"
    using Cons.prems len live by (simp_all add: ring_step_ok ring_step_holds)
  moreover have "lease_held (ring_step c r a) token aft"
  proof (rule lease_held_step [OF Cons.prems(1) wf Cons.prems(4)])
    show "\<not> touches token a" using Cons.prems(5) by simp
    show "unat (ring_live r) + length (op_output a) < 2 ^ 64"
      using Cons.prems(6) len live by linarith
    show "unat (ring_live r) + length (op_output a) - unat aft \<le> LeaseBufferBytes c"
      using Cons.prems(7) len live by linarith
  qed
  ultimately show ?case
    using Cons.IH [of "ring_step c r a" "out @ op_output a"] Cons.prems
    by (simp add: run_output_def)
qed

subsection \<open>Properties of the ring\<close>

text \<open>A ring with two retained bytes and a lease, for evaluating the properties below.\<close>

definition sample_ring :: ring where
  "sample_ring = \<lparr>ring_bytes = [10, 11, 12, 13], ring_floor = 6, ring_capacity = 4,
     ring_acked = 0, ring_waiters = [], ring_ended = False,
     ring_leases = [(''a'', \<lparr>after = 7, broken = False\<rparr>)]\<rparr>"

definition sample_out :: "byte list" where
  "sample_out = [0, 1, 2, 3, 4, 5, 10, 11, 12, 13]"

lemma sample_ring_ok [simp]: "ring_ok small_contract sample_ring"
  by (simp add: ring_ok_def ring_wf_def ring_bound_def lease_ok_def ring_live_def
      sample_ring_def small_contract_def)

lemma sample_ring_holds [simp]: "ring_holds sample_ring sample_out"
  by (simp add: ring_holds_def sample_ring_def sample_out_def)

text \<open>C1. The ring refines an append-only log. Whatever sequence of writes, leases, lease
  consumptions and expiries, reads, acks and the end a ring goes through, it keeps its
  invariant (its coordinates do not wrap, its memory stays within the larger of its capacity
  and the lease budget, no unbroken lease lies below the floor, no reader is parked on an
  ended ring) and what it retains is exactly the session's output from its floor on: a
  coordinate names the same byte for the life of the session.\<close>

theorem ring_run_refines:
  assumes "ring_ok c r" and "ring_holds r out" and "length out + length (run_output as) < 2 ^ 64"
  shows "ring_ok c (ring_run c r as) \<and> ring_holds (ring_run c r as) (out @ run_output as)"
  using assms by (rule ring_run_refines_log)

theorem ring_run_refines_witness:
  "ring_holds (ring_run small_contract sample_ring [OpWrite [14, 15], OpConsume ''a'', OpEnd])
     (sample_out @ [14, 15])"
proof -
  let ?as = "[OpWrite [14, 15], OpConsume ''a'', OpEnd]"
  have "length sample_out + length (run_output ?as) < 2 ^ 64"
    by (simp add: sample_out_def run_output_def)
  from ring_run_refines [OF sample_ring_ok sample_ring_holds this] show ?thesis
    by (simp add: run_output_def)
qed

text \<open>A trim does not depend on the order in which Go happens to iterate over the lease
  map: two rings that differ only in the order of their leases are trimmed to the same floor
  and the same bytes, and break the same leases.\<close>

lemma trim_order_irrelevant:
  assumes "ring_wf r" and "mset ls = mset (ring_leases r)"
  shows "ring_floor (trimLocked c (r\<lparr>ring_leases := ls\<rparr>)) = ring_floor (trimLocked c r)
    \<and> ring_bytes (trimLocked c (r\<lparr>ring_leases := ls\<rparr>)) = ring_bytes (trimLocked c r)
    \<and> map_of (ring_leases (trimLocked c (r\<lparr>ring_leases := ls\<rparr>))) = map_of (ring_leases (trimLocked c r))"
proof -
  let ?r = "r\<lparr>ring_leases := ls\<rparr>"
  have same: "set ls = set (ring_leases r)" using assms(2) by (rule mset_eq_setD)
  have keys: "distinct (map fst ls)"
  proof -
    have "mset (map fst ls) = mset (map fst (ring_leases r))" using assms(2) by simp
    then show ?thesis using assms(1) by (metis ring_wf_def mset_eq_imp_distinct_iff)
  qed
  have wf: "ring_wf ?r"
    using assms(1) keys same by (simp add: ring_wf_def lease_ok_def ring_live_def)
  have geo: "ring_live ?r = ring_live r" "trim_target ?r = trim_target r"
    by (simp_all add: ring_live_def trim_target_def)
  have "trim_floor c ?r = trim_floor c r"
    using lease_floor_unique [OF trim_leases_floor [of c "ring_live r" ls "trim_target r"]]
      trim_leases_floor [of c "ring_live r" "ring_leases r" "trim_target r"] same
    by (simp add: trim_floor_def geo)
  moreover have "map_of ls = map_of (ring_leases r)"
    using keys assms(1) same by (simp add: ring_wf_def map_of_inject_set)
  ultimately show ?thesis
    by (simp add: trimLocked_eq [OF wf] trimLocked_eq [OF assms(1)] geo fun_eq_iff map_of_marked)
qed

lemma trim_order_irrelevant_witness:
  "ring_floor (trimLocked small_contract (sample_ring\<lparr>ring_leases := rev (ring_leases sample_ring)\<rparr>))
     = ring_floor (trimLocked small_contract sample_ring)"
  using trim_order_irrelevant [of sample_ring "rev (ring_leases sample_ring)" small_contract]
    sample_ring_ok by (simp add: ring_ok_def)

text \<open>C2. A lease granted at a coordinate keeps every byte from there in the ring, through any
  operations that do not consume, expire or reissue it, as long as the session's output stays
  within the lease budget of that coordinate; and consuming it then answers that coordinate.\<close>

theorem lease_protects_cursor:
  assumes "contract_ok c" and "ring_ok c r" and "ring_holds r out"
    and "ring_lease r token aft = (Inr (), r1)"
    and "\<forall>a\<in>set as. \<not> touches token a"
    and "length out + length (run_output as) < 2 ^ 64"
    and "length out + length (run_output as) - unat aft \<le> LeaseBufferBytes c"
  shows "fst (ring_pull (ring_run c r1 as) aft) = drop (unat aft) (out @ run_output as)
    \<and> fst (consumeLease c (ring_run c r1 as) token) = Inr aft"
proof -
  have r1: "ring_ok c r1" "ring_holds r1 out" "lease_held r1 token aft"
    using assms(2-4) ring_lease_ok [OF assms(2), of token aft]
    by (auto simp: ring_lease_def ring_holds_def lease_held_def AList.update_conv' split: if_splits)
  let ?r = "ring_run c r1 as"
  have run: "ring_ok c ?r" "ring_holds ?r (out @ run_output as)"
    using ring_run_refines_log [OF r1(1,2) assms(6)] by auto
  have held: "lease_held ?r token aft"
    using lease_held_run [OF assms(1) r1 assms(5-7)] .
  have floor: "ring_floor ?r \<le> aft" "aft \<le> ring_live ?r"
    using lease_held_floor [OF _ held] run(1) by (auto simp: ring_ok_def)
  then have "unat aft \<le> length (out @ run_output as)"
    using run by (simp add: ring_ok_def ring_holds_live word_le_nat_alt)
  then have "fst (ring_pull ?r aft) = drop (unat aft) (out @ run_output as)"
    using ring_log.pull_bytes [OF run] floor by (simp add: word_le_nat_alt max_def)
  moreover have "fst (consumeLease c ?r token) = Inr aft"
    using held floor by (auto simp: consumeLease_def lease_held_def Let_def)
  ultimately show ?thesis by simp
qed

theorem lease_protects_cursor_witness:
  "fst (consumeLease small_contract
     (ring_run small_contract (snd (ring_lease sample_ring ''b'' 8)) [OpWrite [20, 21, 22, 23, 24]]) ''b'')
   = Inr 8"
proof -
  let ?as = "[OpWrite [20, 21, 22, 23, 24]]"
  have "ring_lease sample_ring ''b'' 8 = (Inr (), snd (ring_lease sample_ring ''b'' 8))"
    by (simp add: ring_lease_def sample_ring_def ring_live_def)
  moreover have "\<forall>a\<in>set ?as. \<not> touches ''b'' a" by simp
  moreover have "length sample_out + length (run_output ?as) < 2 ^ 64"
    by (simp add: sample_out_def run_output_def)
  moreover have "length sample_out + length (run_output ?as) - unat (8 :: u64)
      \<le> LeaseBufferBytes small_contract"
    by (simp add: sample_out_def run_output_def small_contract_def)
  ultimately show ?thesis
    using lease_protects_cursor [OF small_contract_ok sample_ring_ok sample_ring_holds] by blast
qed

text \<open>C3. Consuming a lease drops the bytes it protected. The consumption deletes the lease and
  then trims, so once the session has produced more than the ring's capacity past the leased
  coordinate, the ring no longer holds the bytes from that coordinate on when the consumption
  has answered it: the reader that is then started there is given the output from the new
  floor, and the bytes between the two are skipped without any signal.\<close>

theorem consumed_lease_skips:
  assumes "ring_ok c r" and "ring_holds r out" and "ring_leases r = [(token, lease)]"
    and "\<not> broken lease" and "unat (after lease) + nat (ring_capacity r) < length out"
  shows "\<exists>r'. consumeLease c r token = (Inr (after lease), r')
    \<and> unat (ring_floor r') = length out - nat (ring_capacity r)
    \<and> fst (ring_pull r (after lease)) = drop (unat (after lease)) out
    \<and> fst (ring_pull r' (after lease)) = drop (length out - nat (ring_capacity r)) out"
proof -
  let ?d = "r\<lparr>ring_leases := []\<rparr>"
  have wf: "ring_wf r" "ring_wf ?d"
    using assms(1,3) by (simp_all add: ring_ok_def ring_wf_def)
  have live: "unat (ring_live r) = length out" "ring_live ?d = ring_live r"
    using ring_holds_live [OF wf(1) assms(2)] by (simp_all add: ring_live_def)
  have "lease_ok r lease" using wf(1) assms(3) by (simp add: ring_wf_def)
  then have lease: "ring_floor r \<le> after lease" "after lease \<le> ring_live r"
    using assms(4) by (auto simp: lease_ok_def)
  have cons: "consumeLease c r token = (Inr (after lease), trimLocked c ?d)"
    using assms(3,4) lease by (simp add: consumeLease_def Let_def)
  have cap: "of_int (ring_capacity r) < ring_live r"
    using assms(5) live by (simp add: word_less_nat_alt unat_capacity [OF wf(1)])
  have target: "unat (trim_target ?d) = length out - nat (ring_capacity r)"
    using cap by (simp add: trim_target_def live unat_sub_le [OF less_imp_le [OF cap]]
        unat_capacity [OF wf(1)])
  then have "ring_floor r \<le> trim_target ?d"
    using lease(1) assms(5) by (simp add: word_le_nat_alt)
  then have floor: "unat (ring_floor (trimLocked c ?d)) = length out - nat (ring_capacity r)"
    using target by (simp add: trimLocked_eq [OF wf(2)] trim_floor_def max_def)
  have rep: "ring_ok c (trimLocked c ?d)" "ring_holds (trimLocked c ?d) out"
    using trimLocked_ok [OF wf(2)] ring_holds_trim [OF wf(2), of out] assms(2)
    by (simp_all add: ring_holds_def)
  have at: "unat (after lease) \<le> length out" using assms(5) by linarith
  have "fst (ring_pull r (after lease)) = drop (unat (after lease)) out"
    using ring_log.pull_bytes [OF assms(1,2) at] lease(1) by (simp add: word_le_nat_alt max_def)
  moreover have "fst (ring_pull (trimLocked c ?d) (after lease)) = drop (length out - nat (ring_capacity r)) out"
    using ring_log.pull_bytes [OF rep at] floor assms(5) by (simp add: max_def)
  ultimately show ?thesis using cons floor by blast
qed

text \<open>The ring of \<open>TestLeasePreservesItsSourceCursorUntilConsumed\<close>: capacity four, a lease at
  two, eight bytes written.\<close>

definition leased_ring :: ring where
  "leased_ring = \<lparr>ring_bytes = [2, 3, 4, 5, 6, 7], ring_floor = 2, ring_capacity = 4,
     ring_acked = 0, ring_waiters = [], ring_ended = False,
     ring_leases = [(''lease'', \<lparr>after = 2, broken = False\<rparr>)]\<rparr>"

theorem consumed_lease_skips_witness:
  "\<exists>r'. consumeLease small_contract leased_ring ''lease'' = (Inr 2, r')
    \<and> fst (ring_pull leased_ring 2) = [2, 3, 4, 5, 6, 7] \<and> fst (ring_pull r' 2) = [4, 5, 6, 7]"
proof -
  have "ring_ok small_contract leased_ring" "ring_holds leased_ring [0, 1, 2, 3, 4, 5, 6, 7]"
    by (simp_all add: ring_ok_def ring_wf_def ring_bound_def lease_ok_def ring_live_def
        ring_holds_def leased_ring_def small_contract_def)
  from consumed_lease_skips [OF this, of "''lease''" "\<lparr>after = 2, broken = False\<rparr>"]
  show ?thesis by (auto simp: leased_ring_def)
qed

lemma ring_restore_holds:
  assumes "contract_ok c" and "0 < capacity" and "capacity < 2 ^ 63" and "length data < 2 ^ 64"
    and "length pre + length data = max (unat through) (length data)"
  shows "ring_ok c (ring_restore c (newRing c capacity) data through)
    \<and> ring_holds (ring_restore c (newRing c capacity) data through) (pre @ data)
    \<and> ring_bytes (ring_restore c (newRing c capacity) data through) = tail_of (nat capacity) data
    \<and> unat (ring_live (ring_restore c (newRing c capacity) data through)) = max (unat through) (length data)"
proof -
  define th where "th = (if through < len64 data then len64 data else through)"
  let ?kept = "tail_of (nat capacity) data"
  let ?r = "(newRing c capacity)\<lparr>ring_bytes := ?kept, ring_floor := th - len64 ?kept\<rparr>"
  have len: "unat (len64 data :: u64) = length data" "unat (len64 ?kept :: u64) = length ?kept"
    using assms(4) by (simp_all add: unat_of_nat_small)
  have th: "unat th = length pre + length data"
    using assms(5) by (auto simp: th_def len word_less_nat_alt max_def)
  have fl: "unat (th - len64 ?kept) = length pre + length data - length ?kept"
    using th len by (subst unat_sub_le) (simp_all add: word_le_nat_alt)
  have fits: "length pre + length data < 2 ^ 64" using th unat_u64_bound [of th] by simp
  have restored: "ring_restore c (newRing c capacity) data through = trimLocked c ?r"
    using assms(2) by (simp add: ring_restore_def newRing_def Let_def th_def)
  have wf: "ring_wf ?r"
    using assms(2,3) fl fits by (simp add: ring_wf_def newRing_def)
  have holds: "ring_holds ?r (pre @ data)"
    using fl fits by (simp add: ring_holds_def tail_of_def)
  have live: "unat (ring_live ?r) = length pre + length data"
    using ring_holds_live [OF wf holds] by simp
  have "trim_floor c ?r = ring_floor ?r"
  proof -
    have "unat (trim_target ?r) \<le> unat (ring_floor ?r)"
      using live unat_capacity [OF wf] fl assms(2)
      by (auto simp: trim_target_def newRing_def unat_sub_le [OF less_imp_le] intro: diff_le_mono2)
    then have "trim_target ?r \<le> ring_floor ?r" by (simp only: word_le_nat_alt)
    then show ?thesis by (rule trim_floor_unleased [rotated]) (simp add: newRing_def)
  qed
  from trimLocked_untrimmed [OF wf this] have "ring_bytes (trimLocked c ?r) = ?kept" by simp
  then show ?thesis
    using restored trimLocked_ok [OF wf, of c] ring_holds_trim [OF wf holds, of c] assms(5)
      trimLocked_live [OF wf, of c] live by simp
qed

text \<open>A restored ring stands at the coordinates the session left. A fresh ring given the
  stored output and the coordinate it ends at (or the length of the output, if the coordinate
  lies behind it) keeps the last \<open>capacity\<close> bytes of it, its live edge is that coordinate, and
  it represents any output of the session that ends with the stored bytes: a coordinate a
  consumer holds across the restart still names the same byte.\<close>

lemma ring_restore_coordinates:
  assumes "contract_ok c" and "0 < capacity" and "capacity < 2 ^ 63" and "length data < 2 ^ 64"
    and "length pre + length data = max (unat through) (length data)"
  shows "ring_ok c (ring_restore c (newRing c capacity) data through)
    \<and> ring_holds (ring_restore c (newRing c capacity) data through) (pre @ data)
    \<and> ring_bytes (ring_restore c (newRing c capacity) data through) = tail_of (nat capacity) data
    \<and> unat (ring_live (ring_restore c (newRing c capacity) data through)) = max (unat through) (length data)"
  using assms by (rule ring_restore_holds)

lemma ring_restore_coordinates_witness:
  "ring_holds (ring_restore small_contract (newRing small_contract 4) [10, 11, 12, 13, 14] 8)
     ([1, 2, 3] @ [10, 11, 12, 13, 14])"
  using ring_restore_coordinates [of small_contract 4 "[10, 11, 12, 13, 14]" "[1, 2, 3]" 8] by simp

end
