(* ===== verification/Readers.thy ===== *)
theory Readers
  imports Ring
begin

section \<open>Parked readers (ring.go, read and wakeLocked)\<close>

text \<open>
  The blocking half of \<open>read\<close>: any number of readers share one ring with whoever writes to
  it. A reader runs, parks on a channel it made and put into \<open>ring_waiters\<close>, or has been told
  the session ended. A channel is closed exactly when it is no longer among the waiters, since
  \<open>wakeLocked\<close> closes every waiter and drops the list. Each rule is one critical section of
  the ring's mutex, or the receive on a closed channel returning.
\<close>

datatype reader = Reading u64 | Parked nat u64 | ReadDone u64

record reader_sys =
  rs_ring :: ring
  rs_readers :: "nat \<Rightarrow> reader"
  rs_chan :: nat

inductive reader_step :: "contract \<Rightarrow> reader_sys \<Rightarrow> reader_sys \<Rightarrow> bool" for c where
  read_bytes: "rs_readers s i = Reading at \<Longrightarrow>
     ring_read (rs_ring s) (rs_chan s) at = (ReadBytes bs nxt, r') \<Longrightarrow>
     reader_step c s (s\<lparr>rs_ring := r', rs_readers := (rs_readers s)(i := Reading nxt)\<rparr>)"
| read_ended: "rs_readers s i = Reading at \<Longrightarrow>
     ring_read (rs_ring s) (rs_chan s) at = (ReadEnded at', r') \<Longrightarrow>
     reader_step c s (s\<lparr>rs_ring := r', rs_readers := (rs_readers s)(i := ReadDone at')\<rparr>)"
| read_parks: "rs_readers s i = Reading at \<Longrightarrow>
     ring_read (rs_ring s) (rs_chan s) at = (ReadParked at', r') \<Longrightarrow>
     reader_step c s (s\<lparr>rs_ring := r', rs_readers := (rs_readers s)(i := Parked (rs_chan s) at'),
       rs_chan := Suc (rs_chan s)\<rparr>)"
| woken: "rs_readers s i = Parked w at \<Longrightarrow> w \<notin> set (ring_waiters (rs_ring s)) \<Longrightarrow>
     reader_step c s (s\<lparr>rs_readers := (rs_readers s)(i := Reading at)\<rparr>)"
| ring_op: "(\<And>w at. a \<noteq> OpRead w at) \<Longrightarrow>
     unat (ring_live (rs_ring s)) + length (op_output a) < 2 ^ 64 \<Longrightarrow>
     reader_step c s (s\<lparr>rs_ring := ring_step c (rs_ring s) a\<rparr>)"

text \<open>A reader still waiting on an open channel has nothing to read and nothing to be told.\<close>

definition waits_for :: "reader_sys \<Rightarrow> reader \<Rightarrow> bool" where
  "waits_for s x \<longleftrightarrow> (case x of
     Parked w at \<Rightarrow> w < rs_chan s \<and>
       (w \<in> set (ring_waiters (rs_ring s)) \<longrightarrow>
          ring_live (rs_ring s) \<le> at \<and> \<not> ring_ended (rs_ring s))
   | _ \<Rightarrow> True)"

definition readers_ok :: "contract \<Rightarrow> reader_sys \<Rightarrow> bool" where
  "readers_ok c s \<longleftrightarrow> ring_ok c (rs_ring s) \<and> (\<forall>i. waits_for s (rs_readers s i))"

lemma ring_read_result:
  "ring_read r w at = (res, r') \<Longrightarrow>
     ring_live r' = ring_live r \<and> ring_ended r' = ring_ended r
     \<and> (case res of
          ReadParked at' \<Rightarrow> ring_live r \<le> at' \<and> \<not> ring_ended r \<and> ring_waiters r' = ring_waiters r @ [w]
        | _ \<Rightarrow> r' = r)"
  by (auto simp: ring_read_def ring_live_def Let_def not_less split: if_splits)

text \<open>A step other than a read either wakes everyone or moves neither the live edge nor the end.\<close>

lemma ring_step_waiters:
  assumes "ring_wf r" and "\<And>w at. a \<noteq> OpRead w at"
  shows "ring_waiters (ring_step c r a) = [] \<or>
    ring_waiters (ring_step c r a) = ring_waiters r \<and> ring_live (ring_step c r a) = ring_live r
    \<and> ring_ended (ring_step c r a) = ring_ended r"
proof -
  have del: "ring_live (trimLocked c (r\<lparr>ring_leases := AList.delete t (ring_leases r)\<rparr>)) = ring_live r" for t
    using trimLocked_live [OF ring_wf_delete [OF assms(1)]] by (simp add: ring_live_def)
  show ?thesis
    using assms(2)
    by (cases a; auto simp: ring_write_def ring_lease_def consumeLease_def expireLease_def
        ring_ack_def ring_end_def wakeLocked_def del Let_def split: option.splits;
        simp add: ring_live_def)
qed

lemma readers_ok_step:
  assumes "reader_step c s t" and "readers_ok c s"
  shows "readers_ok c t"
  using assms
proof (cases rule: reader_step.cases)
  case (read_bytes i at bs nxt r')
  with ring_read_result [OF read_bytes(3)] assms(2) show ?thesis
    by (auto simp: readers_ok_def waits_for_def split: reader.splits)
next
  case (read_ended i at at' r')
  with ring_read_result [OF read_ended(3)] assms(2) show ?thesis
    by (auto simp: readers_ok_def waits_for_def split: reader.splits)
next
  case (read_parks i at at' r')
  have "ring_ok c r'"
    using assms(2) ring_read_ok [of c "rs_ring s" "rs_chan s" at] read_parks
    by (simp add: readers_ok_def)
  with read_parks ring_read_result [OF read_parks(3)] assms(2) show ?thesis
    by (fastforce simp: readers_ok_def waits_for_def split: reader.splits)
next
  case (woken i w at)
  with assms(2) show ?thesis
    by (auto simp: readers_ok_def waits_for_def split: reader.splits)
next
  case (ring_op a)
  have "ring_ok c (ring_step c (rs_ring s) a)" "ring_wf (rs_ring s)"
    using assms(2) ring_op by (simp_all add: readers_ok_def ring_step_ok ring_ok_def [of c "rs_ring s"])
  with ring_step_waiters [of "rs_ring s" a c] ring_op assms(2) show ?thesis
    by (force simp: readers_ok_def waits_for_def split: reader.splits)
qed

lemma readers_ok_run: "(reader_step c)\<^sup>*\<^sup>* s t \<Longrightarrow> readers_ok c s \<Longrightarrow> readers_ok c t"
  by (induction rule: rtranclp_induct) (auto intro: readers_ok_step)

text \<open>C4. No wake-up is lost. However readers and ring operations interleave, a reader that is
  parked while there are bytes at its cursor, or after the session ended, has had its channel
  closed: it can step back into the loop and take them, so no client waits for a byte nobody
  will write.\<close>

theorem parked_reader_wakes:
  assumes "readers_ok c s" and "(reader_step c)\<^sup>*\<^sup>* s t" and "rs_readers t i = Parked w at"
    and "at < ring_live (rs_ring t) \<or> ring_ended (rs_ring t)"
  shows "reader_step c t (t\<lparr>rs_readers := (rs_readers t)(i := Reading at)\<rparr>)"
proof -
  have "waits_for t (rs_readers t i)"
    using readers_ok_run [OF assms(2,1)] by (simp add: readers_ok_def)
  then have "w \<notin> set (ring_waiters (rs_ring t))"
    using assms(3,4) by (auto simp: waits_for_def)
  with assms(3) show ?thesis by (rule reader_step.woken)
qed

definition idle_readers :: reader_sys where
  "idle_readers = \<lparr>rs_ring = newRing small_contract 8, rs_readers = (\<lambda>_. Reading 0), rs_chan = 0\<rparr>"

theorem parked_reader_wakes_witness:
  "\<exists>t w at. (reader_step small_contract)\<^sup>*\<^sup>* idle_readers t \<and> rs_readers t 0 = Parked w at
    \<and> reader_step small_contract t (t\<lparr>rs_readers := (rs_readers t)(0 := Reading at)\<rparr>)"
proof -
  let ?c = small_contract
  let ?p = "idle_readers\<lparr>rs_ring := (newRing ?c 8)\<lparr>ring_waiters := [0]\<rparr>,
      rs_readers := (rs_readers idle_readers)(0 := Parked 0 0), rs_chan := 1\<rparr>"
  let ?t = "?p\<lparr>rs_ring := ring_step ?c (rs_ring ?p) (OpWrite [1])\<rparr>"
  have ok: "readers_ok ?c idle_readers"
    using newRing_ok [of ?c 8] by (simp add: readers_ok_def waits_for_def idle_readers_def)
  have "reader_step ?c idle_readers ?p"
    using reader_step.read_parks [of idle_readers 0 0 0 "(newRing ?c 8)\<lparr>ring_waiters := [0]\<rparr>" ?c]
    by (simp add: idle_readers_def ring_read_def newRing_def ring_live_def)
  moreover have "reader_step ?c ?p ?t"
    by (rule reader_step.ring_op) (simp_all add: newRing_def ring_live_def)
  ultimately have run: "(reader_step ?c)\<^sup>*\<^sup>* idle_readers ?t" by auto
  have "ring_live (rs_ring ?t) = 1"
    by (simp add: ring_write_def newRing_def trimLocked_def trim_target_def ring_live_def
        wakeLocked_def small_contract_def)
  then have "reader_step ?c ?t (?t\<lparr>rs_readers := (rs_readers ?t)(0 := Reading 0)\<rparr>)"
    using parked_reader_wakes [OF ok run, of 0 0 0] by simp
  with run show ?thesis by (intro exI [of _ ?t]) auto
qed

end
