(* ===== verification/Delivery.thy ===== *)
theory Delivery
  imports Ring
begin

section \<open>Delivery of output to an attached connection (stream.go, deliver)\<close>

text \<open>
  \<open>deliver\<close> runs two goroutines: one reads the ring from its cursor and hands each piece over a
  channel that buffers one, the other collects pieces into a batch and writes the batch to the
  connection at once, when it is full, or at a deadline. \<open>delivery\<close> is the second one's local
  state; \<open>deliver_sys\<close> adds the reader, the channel and the ring they share with everyone else.
  What a write to the connection does is decided by the connection, so it is an argument:
  \<open>conn_write\<close> of a fault, where a failing write may have given the peer a part of the bytes.
\<close>

subsection \<open>The batching loop\<close>

record delivery =
  dl_batch :: "byte list"
  dl_armed :: bool
  dl_sent :: "byte list list"
  dl_done :: bool

datatype deliver_event = Arrival "byte list" | ArrivalsClosed | DeadlineFires

definition deliver_flush :: "nat option \<Rightarrow> delivery \<Rightarrow> bool \<times> delivery" where
  "deliver_flush fault d =
     (if dl_batch d = [] then (True, d)
      else (fault = None, d\<lparr>dl_batch := [], dl_armed := False,
              dl_sent := dl_sent d @ [conn_write fault (dl_batch d)]\<rparr>))"

definition flush_or_stop :: "nat option \<Rightarrow> delivery \<Rightarrow> delivery" where
  "flush_or_stop fault d =
     (case deliver_flush fault d of (ok, d') \<Rightarrow> if ok then d' else d'\<lparr>dl_done := True\<rparr>)"

fun deliver_step :: "contract \<Rightarrow> nat option \<Rightarrow> delivery \<Rightarrow> deliver_event \<Rightarrow> delivery" where
  "deliver_step c fault d (Arrival bs) =
     (let d = d\<lparr>dl_batch := dl_batch d @ bs\<rparr>
      in if length (dl_batch d) \<ge> DeliveryBatchBytes c then flush_or_stop fault d
         else if length (dl_batch d) < DeliveryMinHoldBytes c then flush_or_stop fault d
         else d\<lparr>dl_armed := True\<rparr>)"
| "deliver_step c fault d ArrivalsClosed = (snd (deliver_flush fault d))\<lparr>dl_done := True\<rparr>"
| "deliver_step c fault d DeadlineFires = flush_or_stop fault d"

definition delivery_start :: delivery where
  "delivery_start = \<lparr>dl_batch = [], dl_armed = False, dl_sent = [], dl_done = False\<rparr>"

text \<open>
  A batch is held only in the window the contract states, and only with the deadline armed;
  an empty batch has no deadline. So the loop never holds bytes that nothing will flush.
\<close>

definition batch_ok :: "contract \<Rightarrow> delivery \<Rightarrow> bool" where
  "batch_ok c d \<longleftrightarrow> (dl_armed d \<longleftrightarrow> dl_batch d \<noteq> [])
     \<and> (dl_batch d \<noteq> [] \<longrightarrow>
          DeliveryMinHoldBytes c \<le> length (dl_batch d) \<and> length (dl_batch d) < DeliveryBatchBytes c)"

definition loop_bytes :: "delivery \<Rightarrow> byte list" where
  "loop_bytes d = concat (dl_sent d) @ dl_batch d"

lemma deliver_step_batch_ok:
  assumes "batch_ok c d" and "\<forall>bs. e = Arrival bs \<longrightarrow> bs \<noteq> []"
  shows "batch_ok c (deliver_step c fault d e)"
  using assms by (cases e) (auto simp: batch_ok_def flush_or_stop_def deliver_flush_def Let_def)

fun event_bytes :: "deliver_event \<Rightarrow> byte list" where
  "event_bytes (Arrival bs) = bs"
| "event_bytes _ = []"

text \<open>
  A turn of the loop keeps every byte in order, or fails in a write: then it ends, and what the
  peer was given is the bytes so far up to some point. Without a failure it ends only when the
  arrivals are closed, and then with everything flushed.
\<close>

lemma sent_prefix: "prefix (concat (dl_sent d)) (loop_bytes d)"
  by (simp add: loop_bytes_def)

lemma flush_or_stop_cases:
  "(fault \<noteq> None \<and> dl_done (flush_or_stop fault d)
      \<and> prefix (concat (dl_sent (flush_or_stop fault d))) (loop_bytes d))
    \<or> (dl_done (flush_or_stop fault d) = dl_done d \<and> loop_bytes (flush_or_stop fault d) = loop_bytes d)"
  by (cases fault) (auto simp: loop_bytes_def flush_or_stop_def deliver_flush_def conn_write_prefix)

lemma deliver_step_cases:
  assumes "\<not> dl_done d"
  shows "(fault \<noteq> None \<and> dl_done (deliver_step c fault d e)
        \<and> prefix (concat (dl_sent (deliver_step c fault d e))) (loop_bytes d @ event_bytes e))
    \<or> ((fault = None \<or> \<not> dl_done (deliver_step c fault d e))
        \<and> loop_bytes (deliver_step c fault d e) = loop_bytes d @ event_bytes e)"
proof (cases e)
  case (Arrival bs)
  have "loop_bytes (d\<lparr>dl_batch := dl_batch d @ bs\<rparr>) = loop_bytes d @ bs" by (simp add: loop_bytes_def)
  with Arrival assms flush_or_stop_cases [of fault "d\<lparr>dl_batch := dl_batch d @ bs\<rparr>"]
  show ?thesis by (auto simp: loop_bytes_def Let_def)
next
  case ArrivalsClosed
  then show ?thesis
    by (cases fault) (auto simp: loop_bytes_def deliver_flush_def conn_write_prefix)
next
  case DeadlineFires
  with assms flush_or_stop_cases [of fault d] show ?thesis by auto
qed

lemma deliver_step_done:
  assumes "\<not> dl_done d"
  shows "dl_done (deliver_step c None d e) \<longleftrightarrow> e = ArrivalsClosed"
  using assms by (cases e) (auto simp: flush_or_stop_def deliver_flush_def Let_def)

lemma deliver_step_flushed: "dl_batch (deliver_step c fault d ArrivalsClosed) = []"
  by (simp add: deliver_flush_def)

subsection \<open>The loop, its reader and the ring\<close>

record deliver_sys =
  ds_ring :: ring
  ds_out :: "byte list"
  ds_cursor :: u64
  ds_hand :: "byte list option"
  ds_chan :: "byte list option"
  ds_closed :: bool
  ds_loop :: delivery
  ds_overrun :: bool
  ds_failed :: bool

text \<open>
  \<open>ds_out\<close> is the session's whole output (history), \<open>ds_overrun\<close> records that the reader was
  once behind the ring's floor, and \<open>ds_failed\<close> that a write to the connection failed.
\<close>

inductive delivers :: "contract \<Rightarrow> deliver_sys \<Rightarrow> deliver_sys \<Rightarrow> bool" for c where
  ring_moves: "length (ds_out s) + length (op_output a) < 2 ^ 64 \<Longrightarrow>
     delivers c s (s\<lparr>ds_ring := ring_step c (ds_ring s) a, ds_out := ds_out s @ op_output a\<rparr>)"
| reader_pulls: "ds_hand s = None \<Longrightarrow> \<not> ds_closed s \<Longrightarrow>
     ring_read (ds_ring s) w (ds_cursor s) = (ReadBytes bs nxt, r') \<Longrightarrow>
     delivers c s (s\<lparr>ds_ring := r', ds_hand := Some bs, ds_cursor := nxt,
       ds_overrun := (ds_overrun s \<or> ds_cursor s < ring_floor (ds_ring s))\<rparr>)"
| reader_ends: "ds_hand s = None \<Longrightarrow> \<not> ds_closed s \<Longrightarrow>
     ring_read (ds_ring s) w (ds_cursor s) = (ReadEnded at, r') \<Longrightarrow>
     delivers c s (s\<lparr>ds_closed := True\<rparr>)"
| reader_sends: "ds_hand s = Some bs \<Longrightarrow> ds_chan s = None \<Longrightarrow>
     delivers c s (s\<lparr>ds_hand := None, ds_chan := Some bs\<rparr>)"
| loop_receives: "\<not> dl_done (ds_loop s) \<Longrightarrow> ds_chan s = Some bs \<Longrightarrow>
     delivers c s (s\<lparr>ds_chan := None, ds_loop := deliver_step c fault (ds_loop s) (Arrival bs),
       ds_failed := (ds_failed s \<or> fault \<noteq> None \<and> dl_done (deliver_step c fault (ds_loop s) (Arrival bs)))\<rparr>)"
| loop_closes: "\<not> dl_done (ds_loop s) \<Longrightarrow> ds_chan s = None \<Longrightarrow> ds_closed s \<Longrightarrow>
     delivers c s (s\<lparr>ds_loop := deliver_step c fault (ds_loop s) ArrivalsClosed,
       ds_failed := (ds_failed s \<or> fault \<noteq> None \<and> dl_done (deliver_step c fault (ds_loop s) ArrivalsClosed))\<rparr>)"
| loop_deadline: "\<not> dl_done (ds_loop s) \<Longrightarrow> dl_armed (ds_loop s) \<Longrightarrow>
     delivers c s (s\<lparr>ds_loop := deliver_step c fault (ds_loop s) DeadlineFires,
       ds_failed := (ds_failed s \<or> fault \<noteq> None \<and> dl_done (deliver_step c fault (ds_loop s) DeadlineFires))\<rparr>)"

fun piece :: "byte list option \<Rightarrow> byte list" where
  "piece None = []"
| "piece (Some bs) = bs"

definition in_transit :: "deliver_sys \<Rightarrow> byte list" where
  "in_transit s = loop_bytes (ds_loop s) @ piece (ds_chan s) @ piece (ds_hand s)"

text \<open>The output between the start and the reader's cursor.\<close>

definition taken_since :: "u64 \<Rightarrow> deliver_sys \<Rightarrow> byte list" where
  "taken_since start s = passed start (ds_cursor s) (ds_out s)"

definition deliver_attach :: "ring \<Rightarrow> byte list \<Rightarrow> u64 \<Rightarrow> deliver_sys" where
  "deliver_attach r out at =
     \<lparr>ds_ring = r, ds_out = out, ds_cursor = at, ds_hand = None, ds_chan = None,
      ds_closed = False, ds_loop = delivery_start, ds_overrun = False, ds_failed = False\<rparr>"

text \<open>
  The invariant: the ring represents the output, held bytes are held legitimately, and what is in
  transit was taken from the ring in order (a failed write ends the loop, and then only what was
  sent counts). Unless the reader was overrun, nothing of what lies between the start and the
  cursor is missing from it.
\<close>

definition deliver_inv :: "contract \<Rightarrow> u64 \<Rightarrow> deliver_sys \<Rightarrow> bool" where
  "deliver_inv c start s \<longleftrightarrow>
     ring_ok c (ds_ring s) \<and> ring_holds (ds_ring s) (ds_out s)
     \<and> batch_ok c (ds_loop s)
     \<and> (\<forall>bs. ds_hand s = Some bs \<or> ds_chan s = Some bs \<longrightarrow> bs \<noteq> [])
     \<and> (ds_closed s \<longrightarrow> ds_hand s = None)
     \<and> (ds_failed s \<longrightarrow> dl_done (ds_loop s))
     \<and> (dl_done (ds_loop s) \<and> \<not> ds_failed s \<longrightarrow>
          ds_closed s \<and> ds_chan s = None \<and> dl_batch (ds_loop s) = [])
     \<and> unat start \<le> unat (ds_cursor s) \<and> unat (ds_cursor s) \<le> length (ds_out s)
     \<and> (\<not> ds_failed s \<longrightarrow> subseq (in_transit s) (taken_since start s))
     \<and> subseq (concat (dl_sent (ds_loop s))) (taken_since start s)
     \<and> (\<not> ds_overrun s \<longrightarrow>
          (\<not> ds_failed s \<longrightarrow> in_transit s = taken_since start s)
          \<and> prefix (concat (dl_sent (ds_loop s))) (taken_since start s))"

lemma ring_read_pull:
  assumes "ring_read r w at = (ReadBytes bs nxt, r')"
  shows "r' = r" and "ring_pull r at = (bs, nxt)"
  using assms by (auto simp: ring_read_def ring_pull_def Let_def split: if_splits)

lemma taken_since_loop [simp]:
  "taken_since start (s\<lparr>ds_chan := x, ds_loop := d, ds_failed := f\<rparr>) = taken_since start s"
  by (simp add: taken_since_def)

lemma deliver_inv_loop:
  assumes "deliver_inv c start s" and "\<not> dl_done (ds_loop s)"
    and "case e of Arrival bs \<Rightarrow> ds_chan s = Some bs | ArrivalsClosed \<Rightarrow> ds_chan s = None \<and> ds_closed s
         | DeadlineFires \<Rightarrow> True"
  shows "deliver_inv c start (s\<lparr>ds_chan := (if e = DeadlineFires then ds_chan s else None),
    ds_loop := deliver_step c fault (ds_loop s) e,
    ds_failed := (ds_failed s \<or> fault \<noteq> None \<and> dl_done (deliver_step c fault (ds_loop s) e))\<rparr>)"
proof -
  define d where "d = deliver_step c fault (ds_loop s) e"
  define ch where "ch = (if e = DeadlineFires then ds_chan s else None)"
  let ?t = "s\<lparr>ds_chan := ch, ds_loop := d, ds_failed := (ds_failed s \<or> fault \<noteq> None \<and> dl_done d)\<rparr>"
  have nf: "\<not> ds_failed s" using assms(1,2) by (auto simp: deliver_inv_def)
  have batch: "batch_ok c d"
    unfolding d_def using assms(1,3) by (intro deliver_step_batch_ok) (auto simp: deliver_inv_def)
  have fin: "dl_done d \<Longrightarrow> fault = None \<Longrightarrow> ds_closed s \<and> ch = None \<and> dl_batch d = []"
    using deliver_step_done [OF assms(2), of c e] deliver_step_flushed [of c fault "ds_loop s"] assms(3)
    by (auto simp: d_def ch_def)
  have ch: "ch = Some bs \<Longrightarrow> ds_chan s = Some bs" for bs by (simp add: ch_def split: if_splits)
  have before: "in_transit s = (loop_bytes (ds_loop s) @ event_bytes e) @ piece ch @ piece (ds_hand s)"
    using assms(3) by (cases e) (auto simp: in_transit_def ch_def)
  have "prefix (concat (dl_sent d)) (loop_bytes (ds_loop s) @ event_bytes e)"
    using deliver_step_cases [OF assms(2), of fault c e] sent_prefix [of d] by (auto simp: d_def)
  then have sent: "prefix (concat (dl_sent d)) (in_transit s)"
    unfolding before by (rule prefix_prefix)
  have kept: "in_transit ?t = in_transit s" if "\<not> ds_failed ?t"
    using that deliver_step_cases [OF assms(2), of fault c e] unfolding before d_def [symmetric]
    by (auto simp: in_transit_def)
  have "subseq (in_transit s) (taken_since start s)" using assms(1) nf by (simp add: deliver_inv_def)
  then have "subseq (concat (dl_sent d)) (taken_since start s)"
    using sent subseq_order.order_trans prefix_imp_subseq by blast
  with assms(1) batch ch fin nf sent kept show ?thesis
    unfolding d_def [symmetric] ch_def [symmetric] by (auto simp: deliver_inv_def)
qed

lemma deliver_inv_ring:
  assumes "deliver_inv c start s" and "length (ds_out s) + length (op_output a) < 2 ^ 64"
  shows "deliver_inv c start
    (s\<lparr>ds_ring := ring_step c (ds_ring s) a, ds_out := ds_out s @ op_output a\<rparr>)"
proof -
  let ?t = "s\<lparr>ds_ring := ring_step c (ds_ring s) a, ds_out := ds_out s @ op_output a\<rparr>"
  have "ring_ok c (ds_ring ?t)" "ring_holds (ds_ring ?t) (ds_out ?t)"
    using assms ring_step_rep [of c "ds_ring s" "ds_out s" a] by (simp_all add: deliver_inv_def)
  moreover have "taken_since start ?t = taken_since start s"
    using assms(1) by (simp add: taken_since_def passed_grow deliver_inv_def)
  ultimately show ?thesis using assms(1) by (auto simp: deliver_inv_def in_transit_def)
qed

lemma deliver_inv_pull:
  assumes "deliver_inv c start s" and "ds_hand s = None" and "\<not> ds_closed s"
    and "ring_read (ds_ring s) w (ds_cursor s) = (ReadBytes bs nxt, r')"
  shows "deliver_inv c start (s\<lparr>ds_ring := r', ds_hand := Some bs, ds_cursor := nxt,
    ds_overrun := (ds_overrun s \<or> ds_cursor s < ring_floor (ds_ring s))\<rparr>)"
proof -
  let ?t = "s\<lparr>ds_ring := r', ds_hand := Some bs, ds_cursor := nxt,
    ds_overrun := (ds_overrun s \<or> ds_cursor s < ring_floor (ds_ring s))\<rparr>"
  have pre: "ring_ok c (ds_ring s)" "ring_holds (ds_ring s) (ds_out s)"
      "unat start \<le> unat (ds_cursor s)" "unat (ds_cursor s) \<le> length (ds_out s)"
    using assms(1) by (simp_all add: deliver_inv_def)
  note r = ring_read_pull [OF assms(4)]
  have bs: "bs \<noteq> []"
    using assms(4) unat_ring_live [of "ds_ring s"] pre(1)
    by (auto simp: ring_read_def ring_ok_def Let_def word_less_nat_alt unat_sub_le word_le_nat_alt
        split: if_splits)
  have nxt: "unat nxt = length (ds_out s)" using ring_log.pull_next [OF pre(1,2,4)] r(2) by simp
  have grown: "taken_since start ?t = taken_since start s @ drop (unat (ds_cursor s)) (ds_out s)"
    using ring_log.pull_passes [OF pre r(2)] by (simp add: taken_since_def)
  have carried: "in_transit ?t = in_transit s @ bs" using assms(2) by (simp add: in_transit_def)
  have open_: "dl_done (ds_loop s) \<longrightarrow> ds_failed s" using assms(1,3) by (auto simp: deliver_inv_def)
  have "subseq (in_transit ?t) (taken_since start ?t)" if "\<not> ds_failed s"
    unfolding grown carried using that assms(1) ring_log.pull_ordered [OF pre(1,2,4) r(2)]
    by (auto simp: deliver_inv_def intro: list_emb_append_mono)
  moreover have "subseq (concat (dl_sent (ds_loop s))) (taken_since start ?t)"
    unfolding grown using assms(1) by (auto simp: deliver_inv_def intro: list_emb_append2)
  moreover have "in_transit ?t = taken_since start ?t" if "\<not> ds_overrun ?t" "\<not> ds_failed s"
    unfolding grown carried using that assms(1) ring_log.pull_whole [OF pre(1,2,4) r(2)]
    by (auto simp: deliver_inv_def)
  moreover have "prefix (concat (dl_sent (ds_loop s))) (taken_since start ?t)" if "\<not> ds_overrun ?t"
    unfolding grown using that assms(1) by (auto simp: deliver_inv_def)
  ultimately show ?thesis
    using assms(1-3) bs nxt r(1) open_ pre(3,4) by (auto simp: deliver_inv_def)
qed

lemma deliver_inv_step:
  assumes "delivers c s t" and "deliver_inv c start s"
  shows "deliver_inv c start t"
  using assms
proof (cases rule: delivers.cases)
  case (ring_moves a)
  with deliver_inv_ring [OF assms(2)] show ?thesis by simp
next
  case (reader_pulls w bs nxt r')
  with deliver_inv_pull [OF assms(2)] show ?thesis by simp
next
  case (reader_ends w at r')
  with assms(2) show ?thesis by (auto simp: deliver_inv_def in_transit_def taken_since_def)
next
  case (reader_sends bs)
  with assms(2) show ?thesis by (auto simp: deliver_inv_def in_transit_def taken_since_def)
next
  case (loop_receives bs fault)
  with deliver_inv_loop [OF assms(2), of "Arrival bs" fault] show ?thesis by simp
next
  case (loop_closes fault)
  then have "s\<lparr>ds_chan := None, ds_loop := d, ds_failed := f\<rparr> = s\<lparr>ds_loop := d, ds_failed := f\<rparr>" for d f
    by (cases s) simp
  with loop_closes deliver_inv_loop [OF assms(2), of ArrivalsClosed fault] show ?thesis by simp
next
  case (loop_deadline fault)
  with deliver_inv_loop [OF assms(2), of DeadlineFires fault] show ?thesis by simp
qed

lemma deliver_inv_run: "(delivers c)\<^sup>*\<^sup>* s t \<Longrightarrow> deliver_inv c start s \<Longrightarrow> deliver_inv c start t"
  by (induction rule: rtranclp_induct) (auto intro: deliver_inv_step)

lemma deliver_inv_attach:
  assumes "ring_ok c r" and "ring_holds r out" and "unat at \<le> length out"
  shows "deliver_inv c at (deliver_attach r out at)"
  using assms
  by (simp add: deliver_inv_def deliver_attach_def delivery_start_def batch_ok_def taken_since_def passed_def
      in_transit_def loop_bytes_def)

text \<open>C8. An attached connection is given the session's output in order, and without a hole for
  as long as its reader keeps up with the ring. From the attach at a coordinate on, whatever the
  ring, the reader, the batching loop, the deadline and the connection do in whatever order, what
  was written to the connection (a write may fail half way) is taken in order from the output
  after that coordinate, nothing twice; bytes are held back only in the contract's window and
  only with the deadline armed. If the reader was never behind the ring's floor, what was written
  is a prefix of the output from the coordinate, and when the stream ends without a failed write
  it has carried everything the reader took. (A reader that fell behind the floor continues at
  the floor: the bytes between are skipped, which is what the side condition excludes.)\<close>

theorem delivery_is_faithful:
  assumes "ring_ok c r" and "ring_holds r out" and "unat at \<le> length out"
    and "(delivers c)\<^sup>*\<^sup>* (deliver_attach r out at) s"
  shows "subseq (concat (dl_sent (ds_loop s))) (drop (unat at) (ds_out s))
    \<and> batch_ok c (ds_loop s)
    \<and> (\<not> ds_overrun s \<longrightarrow>
        prefix (concat (dl_sent (ds_loop s))) (drop (unat at) (ds_out s))
        \<and> (dl_done (ds_loop s) \<and> \<not> ds_failed s \<longrightarrow>
            concat (dl_sent (ds_loop s)) = drop (unat at) (take (unat (ds_cursor s)) (ds_out s))))"
proof -
  have inv: "deliver_inv c at s"
    using deliver_inv_run [OF assms(4) deliver_inv_attach [OF assms(1-3)]] .
  have whole: "prefix (taken_since at s) (drop (unat at) (ds_out s))"
    by (simp add: taken_since_def passed_def drop_take take_is_prefix)
  have "subseq (concat (dl_sent (ds_loop s))) (taken_since at s)"
    and tidy: "batch_ok c (ds_loop s)"
    using inv by (simp_all add: deliver_inv_def)
  then have sub: "subseq (concat (dl_sent (ds_loop s))) (drop (unat at) (ds_out s))"
    using prefix_imp_subseq [OF whole] subseq_order.order_trans by blast
  have "prefix (concat (dl_sent (ds_loop s))) (drop (unat at) (ds_out s))" if "\<not> ds_overrun s"
    using that inv prefix_order.trans [OF _ whole] by (simp add: deliver_inv_def)
  moreover have "concat (dl_sent (ds_loop s)) = taken_since at s"
    if "\<not> ds_overrun s" "dl_done (ds_loop s)" "\<not> ds_failed s"
  proof -
    have "ds_hand s = None" "ds_chan s = None" "dl_batch (ds_loop s) = []" "in_transit s = taken_since at s"
      using that inv by (simp_all add: deliver_inv_def)
    then show ?thesis by (simp add: in_transit_def loop_bytes_def)
  qed
  ultimately show ?thesis using sub tidy by (simp add: taken_since_def passed_def)
qed

theorem delivery_is_faithful_witness:
  "\<exists>s. (delivers small_contract)\<^sup>*\<^sup>* (deliver_attach (newRing small_contract 8) [] 0) s
    \<and> ds_out s = [5] \<and> dl_sent (ds_loop s) = [[5]] \<and> prefix (concat (dl_sent (ds_loop s))) [5]"
proof -
  let ?c = small_contract
  define a where "a = deliver_attach (newRing ?c 8) [] 0"
  define r1 where "r1 = ring_step ?c (newRing ?c 8) (OpWrite [5])"
  define s1 where "s1 = a\<lparr>ds_ring := r1, ds_out := [5]\<rparr>"
  define s2 where "s2 = s1\<lparr>ds_hand := Some [5], ds_cursor := 1\<rparr>"
  define s3 where "s3 = s2\<lparr>ds_hand := None, ds_chan := Some [5]\<rparr>"
  define s4 where "s4 = s3\<lparr>ds_chan := None, ds_loop := deliver_step ?c None delivery_start (Arrival [5])\<rparr>"
  have r1: "r1 = (newRing ?c 8)\<lparr>ring_bytes := [5]\<rparr>"
    by (simp add: r1_def ring_write_def newRing_def trimLocked_def trim_target_def ring_live_def wakeLocked_def)
  have "delivers ?c a s1"
    using delivers.ring_moves [of a "OpWrite [5]" ?c] by (simp add: s1_def r1_def a_def deliver_attach_def)
  moreover have "delivers ?c s1 s2"
    using delivers.reader_pulls [of s1 0 "[5]" 1 r1 ?c]
    by (simp add: s1_def s2_def r1 a_def deliver_attach_def ring_read_def ring_live_def newRing_def)
  moreover have "delivers ?c s2 s3"
    using delivers.reader_sends [of s2 "[5]" ?c] by (simp add: s1_def s2_def s3_def a_def deliver_attach_def)
  moreover have "delivers ?c s3 s4"
    using delivers.loop_receives [of s3 "[5]" ?c None]
    by (simp add: s1_def s2_def s3_def s4_def a_def deliver_attach_def delivery_start_def)
  ultimately have run: "(delivers ?c)\<^sup>*\<^sup>* (deliver_attach (newRing ?c 8) [] 0) s4"
    unfolding a_def [symmetric] by (meson converse_rtranclp_into_rtranclp r_into_rtranclp)
  have ring: "ring_ok ?c (newRing ?c 8)" "ring_holds (newRing ?c 8) []"
    by (rule newRing_ok) (simp_all add: ring_holds_def newRing_def)
  have sent: "dl_sent (ds_loop s4) = [[5]]" "ds_out s4 = [5]" "\<not> ds_overrun s4"
    by (simp_all add: s4_def s3_def s2_def s1_def a_def deliver_attach_def delivery_start_def flush_or_stop_def
        deliver_flush_def small_contract_def)
  have "prefix (concat (dl_sent (ds_loop s4))) (drop (unat (0 :: u64)) (ds_out s4))"
    using delivery_is_faithful [OF ring _ run] sent(3) by simp
  with run sent show ?thesis by auto
qed

end
