(* ===== verification/Observer.thy ===== *)
theory Observer
  imports Contract
begin

section \<open>Observers (observer.go)\<close>

text \<open>
  An observer is a bounded queue of observations between the session that publishes and the
  connection that takes them. The Go struct \<open>observation\<close> has five optional pointers of which
  one is set; here it is a datatype, with \<open>NoObservation\<close> for the empty value that \<open>next\<close>
  answers once the queue of a closed observer is empty. The bytes of a queued output are
  bounded by the capacity; an output that does not fit is replaced by a gap that names the
  range it stood for.
\<close>

subsection \<open>State and operations\<close>

datatype observation =
    Output OutputObservation
  | Gap GapObservation
  | Resize ResizeObservation
  | End EndObservation
  | Opened OpenedObservation
  | NoObservation

record observer =
  obs_capacity :: int
  obs_queued :: int
  obs_events :: "observation list"
  obs_closed :: bool
  obs_gaps :: u64

definition newObserver :: "int \<Rightarrow> observer" where
  "newObserver capacity =
     \<lparr>obs_capacity = (if capacity < 1 then 1 else capacity), obs_queued = 0,
      obs_events = [], obs_closed = False, obs_gaps = 0\<rparr>"

definition publishGapLocked :: "observer \<Rightarrow> GapObservation \<Rightarrow> observer" where
  "publishGapLocked v gap =
     (case rev (obs_events v) of
        Gap g # before \<Rightarrow>
          if gap_ThroughEventSequence g = gap_FromEventSequence gap then
            v\<lparr>obs_events := rev before @
                [Gap (g\<lparr>gap_ThroughEventSequence := gap_ThroughEventSequence gap,
                        gap_ThroughSequence := gap_ThroughSequence gap\<rparr>)]\<rparr>
          else v\<lparr>obs_gaps := obs_gaps v + 1, obs_events := obs_events v @ [Gap gap]\<rparr>
      | _ \<Rightarrow> v\<lparr>obs_gaps := obs_gaps v + 1, obs_events := obs_events v @ [Gap gap]\<rparr>)"

definition publishOutput :: "observer \<Rightarrow> OutputObservation \<Rightarrow> observer" where
  "publishOutput v output =
     (if obs_closed v then v
      else if obs_queued v + int (length (out_Bytes output)) \<le> obs_capacity v then
        (case rev (obs_events v) of
           Output l # before \<Rightarrow>
             if out_EventSequence l + 1 = out_EventSequence output
                \<and> out_ThroughSequence l = out_FromSequence output then
               v\<lparr>obs_events := rev before @
                   [Output (l\<lparr>out_EventSequence := out_EventSequence output,
                              out_ThroughSequence := out_ThroughSequence output,
                              out_Bytes := out_Bytes l @ out_Bytes output\<rparr>)],
                 obs_queued := obs_queued v + int (length (out_Bytes output))\<rparr>
             else v\<lparr>obs_events := obs_events v @ [Output output],
                    obs_queued := obs_queued v + int (length (out_Bytes output))\<rparr>
         | _ \<Rightarrow> v\<lparr>obs_events := obs_events v @ [Output output],
                  obs_queued := obs_queued v + int (length (out_Bytes output))\<rparr>)
      else publishGapLocked v
        \<lparr>gap_FromEventSequence = out_EventSequence output,
         gap_ThroughEventSequence = out_EventSequence output + 1,
         gap_FromSequence = out_FromSequence output,
         gap_ThroughSequence = out_ThroughSequence output\<rparr>)"

definition publishGap :: "observer \<Rightarrow> GapObservation \<Rightarrow> observer" where
  "publishGap v gap = (if obs_closed v then v else publishGapLocked v gap)"

definition obs_publish :: "observer \<Rightarrow> observation \<Rightarrow> observer" where
  "obs_publish v event = (if obs_closed v then v else v\<lparr>obs_events := obs_events v @ [event]\<rparr>)"

definition publishResize :: "observer \<Rightarrow> ResizeObservation \<Rightarrow> observer" where
  "publishResize v resize = obs_publish v (Resize resize)"

definition publishEnd :: "observer \<Rightarrow> EndObservation \<Rightarrow> observer" where
  "publishEnd v ended = obs_publish v (End ended)"

definition publishOpened :: "observer \<Rightarrow> OpenedObservation \<Rightarrow> observer" where
  "publishOpened v opened = obs_publish v (Opened opened)"

text \<open>\<open>next\<close> under the lock; \<open>None\<close> while it waits on the condition.\<close>

definition obs_next :: "observer \<Rightarrow> (observation \<times> observer) option" where
  "obs_next v =
     (case obs_events v of
        [] \<Rightarrow> if obs_closed v then Some (NoObservation, v) else None
      | event # rest \<Rightarrow>
          Some (event,
            (case event of
               Output output \<Rightarrow>
                 v\<lparr>obs_events := rest, obs_queued := obs_queued v - int (length (out_Bytes output))\<rparr>
             | _ \<Rightarrow> v\<lparr>obs_events := rest\<rparr>)))"

definition obs_close :: "observer \<Rightarrow> observer" where
  "obs_close v = v\<lparr>obs_closed := True\<rparr>"

definition gapCount :: "observer \<Rightarrow> u64" where
  "gapCount v = obs_gaps v"

subsection \<open>The queue is bounded\<close>

fun event_size :: "observation \<Rightarrow> nat" where
  "event_size (Output output) = length (out_Bytes output)"
| "event_size _ = 0"

definition observer_ok :: "observer \<Rightarrow> bool" where
  "observer_ok v \<longleftrightarrow> 0 < obs_capacity v
     \<and> obs_queued v = int (sum_list (map event_size (obs_events v)))
     \<and> obs_queued v \<le> obs_capacity v"

lemma newObserver_ok: "observer_ok (newObserver capacity)"
  by (simp add: observer_ok_def newObserver_def)

lemma rev_Cons_snoc: "rev xs = y # ys \<longleftrightarrow> xs = rev ys @ [y]"
  by (metis rev.simps(2) rev_rev_ident)

lemma publishGapLocked_ok: "observer_ok v \<Longrightarrow> observer_ok (publishGapLocked v gap)"
  by (auto simp: publishGapLocked_def observer_ok_def rev_Cons_snoc
      split: list.split observation.split)

lemma publishOutput_ok: "observer_ok v \<Longrightarrow> observer_ok (publishOutput v output)"
proof (cases "obs_queued v + int (length (out_Bytes output)) \<le> obs_capacity v")
  case True
  assume "observer_ok v"
  with True show ?thesis
    by (auto simp: publishOutput_def observer_ok_def rev_Cons_snoc
        split: list.split observation.split)
next
  case False
  assume "observer_ok v"
  with False show ?thesis by (simp add: publishOutput_def publishGapLocked_ok)
qed

lemma obs_publish_ok: "observer_ok v \<Longrightarrow> event_size event = 0 \<Longrightarrow> observer_ok (obs_publish v event)"
  by (simp add: obs_publish_def observer_ok_def)

lemma obs_next_ok: "observer_ok v \<Longrightarrow> obs_next v = Some (event, v') \<Longrightarrow> observer_ok v'"
  by (auto simp: obs_next_def observer_ok_def split: list.splits observation.splits if_splits)

lemma obs_close_ok: "observer_ok v \<Longrightarrow> observer_ok (obs_close v)"
  by (simp add: obs_close_def observer_ok_def)

lemmas observer_ops_ok = publishOutput_ok publishGapLocked_ok obs_publish_ok obs_next_ok obs_close_ok

subsection \<open>Nothing is lost silently\<close>

text \<open>
  \<open>out\<close> is the session's whole output. An output observation is true when its bytes are that
  output between its two coordinates; a list of observations spans from \<open>a\<close> to \<open>b\<close> when its
  true outputs and its gaps follow each other without a hole.
\<close>

definition true_output :: "byte list \<Rightarrow> OutputObservation \<Rightarrow> bool" where
  "true_output out x \<longleftrightarrow>
     unat (out_FromSequence x) \<le> unat (out_ThroughSequence x)
     \<and> unat (out_ThroughSequence x) \<le> length out
     \<and> out_Bytes x = drop (unat (out_FromSequence x)) (take (unat (out_ThroughSequence x)) out)"

fun spans :: "byte list \<Rightarrow> u64 \<Rightarrow> observation list \<Rightarrow> u64 \<Rightarrow> bool" where
  "spans out a [] b = (a = b)"
| "spans out a (Output x # es) b =
     (out_FromSequence x = a \<and> true_output out x \<and> spans out (out_ThroughSequence x) es b)"
| "spans out a (Gap g # es) b =
     (gap_FromSequence g = a \<and> spans out (gap_ThroughSequence g) es b)"
| "spans out a (e # es) b = spans out a es b"

lemma spans_append:
  "spans out a (xs @ ys) b \<longleftrightarrow> (\<exists>m. spans out a xs m \<and> spans out m ys b)"
  by (induction out a xs b rule: spans.induct) auto

lemma true_output_grow: "true_output out x \<Longrightarrow> true_output (out @ d) x"
  by (simp add: true_output_def)

lemma spans_grow: "spans out a es b \<Longrightarrow> spans (out @ d) a es b"
  by (induction out a es b rule: spans.induct) (auto intro: true_output_grow)

lemma true_output_join:
  assumes "true_output out x" and "true_output out y" and "out_ThroughSequence x = out_FromSequence y"
  shows "true_output out (x\<lparr>out_EventSequence := n, out_ThroughSequence := out_ThroughSequence y,
           out_Bytes := out_Bytes x @ out_Bytes y\<rparr>)"
proof -
  let ?f = "unat (out_FromSequence x)" and ?m = "unat (out_ThroughSequence x)"
    and ?t = "unat (out_ThroughSequence y)"
  have "drop ?f (take ?m out) @ drop ?m (take ?t out) = drop ?f (take ?m (take ?t out) @ drop ?m (take ?t out))"
    using assms by (simp add: true_output_def min_def)
  also have "\<dots> = drop ?f (take ?t out)" by (simp only: append_take_drop_id)
  finally show ?thesis using assms by (simp add: true_output_def)
qed

lemma publishGapLocked_spans:
  assumes "spans out a (pre @ obs_events v) b" and "gap_FromSequence gap = b"
  shows "spans out a (pre @ obs_events (publishGapLocked v gap)) (gap_ThroughSequence gap)"
  using assms
  by (auto simp: publishGapLocked_def spans_append rev_Cons_snoc split: list.split observation.split)

lemma publishOutput_spans:
  assumes "\<not> obs_closed v" and "spans out a (pre @ obs_events v) b"
    and "out_FromSequence x = b" and "true_output out x"
  shows "spans out a (pre @ obs_events (publishOutput v x)) (out_ThroughSequence x)"
proof (cases "obs_queued v + int (length (out_Bytes x)) \<le> obs_capacity v")
  case True
  with assms show ?thesis
    by (auto simp: publishOutput_def spans_append rev_Cons_snoc true_output_join
        split: list.split observation.split)
next
  case False
  with assms show ?thesis
    using publishGapLocked_spans [of out a pre v b
        "\<lparr>gap_FromEventSequence = out_EventSequence x, gap_ThroughEventSequence = out_EventSequence x + 1,
          gap_FromSequence = out_FromSequence x, gap_ThroughSequence = out_ThroughSequence x\<rparr>"]
    by (simp add: publishOutput_def)
qed

text \<open>
  What happens to one observer while it is open: the session publishes, the connection takes.
  \<open>taken\<close> is what the connection was given so far.
\<close>

datatype observer_act =
    PublishOutput OutputObservation
  | PublishGap GapObservation
  | PublishEvent observation
  | TakeNext

fun act_on :: "observation list \<times> observer \<Rightarrow> observer_act \<Rightarrow> observation list \<times> observer" where
  "act_on (taken, v) (PublishOutput x) = (taken, publishOutput v x)"
| "act_on (taken, v) (PublishGap g) = (taken, publishGap v g)"
| "act_on (taken, v) (PublishEvent e) = (taken, obs_publish v e)"
| "act_on (taken, v) TakeNext =
     (case obs_next v of None \<Rightarrow> (taken, v) | Some (e, v') \<Rightarrow> (taken @ [e], v'))"

text \<open>The session publishes its output in order: each act starts where the one before it ended.\<close>

fun in_order :: "byte list \<Rightarrow> u64 \<Rightarrow> observer_act list \<Rightarrow> u64 \<Rightarrow> bool" where
  "in_order out a [] b = (a = b)"
| "in_order out a (PublishOutput x # acts) b =
     (out_FromSequence x = a \<and> true_output out x \<and> in_order out (out_ThroughSequence x) acts b)"
| "in_order out a (PublishGap g # acts) b =
     (gap_FromSequence g = a \<and> in_order out (gap_ThroughSequence g) acts b)"
| "in_order out a (PublishEvent e # acts) b =
     ((case e of Output _ \<Rightarrow> False | Gap _ \<Rightarrow> False | _ \<Rightarrow> True) \<and> in_order out a acts b)"
| "in_order out a (TakeNext # acts) b = in_order out a acts b"

lemma obs_closed_frame [simp]:
  "obs_closed (publishOutput v x) = obs_closed v"
  "obs_closed (publishGapLocked v g) = obs_closed v"
  "obs_closed (publishGap v g) = obs_closed v"
  "obs_closed (obs_publish v e) = obs_closed v"
  by (auto simp: publishOutput_def publishGapLocked_def publishGap_def obs_publish_def
      split: list.split observation.split)

lemma obs_next_open:
  assumes "\<not> obs_closed v" and "obs_next v = Some (e, v')"
  shows "obs_events v = e # obs_events v' \<and> \<not> obs_closed v'"
  using assms by (auto simp: obs_next_def split: list.splits observation.splits)

lemma spans_neutral:
  assumes "case e of Output _ \<Rightarrow> False | Gap _ \<Rightarrow> False | _ \<Rightarrow> True"
  shows "spans out b [e] b"
  using assms by (cases e) auto

lemma observer_run_spans:
  assumes "\<not> obs_closed v" and "spans out s (taken @ obs_events v) a" and "in_order out a acts b"
    and "observer_ok v" and "foldl act_on (taken, v) acts = (taken', v')"
  shows "spans out s (taken' @ obs_events v') b \<and> observer_ok v'"
  using assms
proof (induction acts arbitrary: taken v a)
  case Nil
  then show ?case by simp
next
  case (Cons act acts)
  obtain tk w where step: "act_on (taken, v) act = (tk, w)" by fastforce
  have next_state: "\<exists>m. \<not> obs_closed w \<and> spans out s (tk @ obs_events w) m
      \<and> in_order out m acts b \<and> observer_ok w"
  proof (cases act)
    case (PublishOutput x)
    with step Cons.prems show ?thesis
      using publishOutput_spans [of v out s taken a x] publishOutput_ok [of v x] by auto
  next
    case (PublishGap g)
    with step Cons.prems show ?thesis
      using publishGapLocked_spans [of out s taken v a g] publishGapLocked_ok [of v g]
      by (auto simp: publishGap_def)
  next
    case (PublishEvent e)
    with Cons.prems(3) have e: "spans out a [e] a" "event_size e = 0"
      by (simp_all add: spans_neutral) (cases e; simp)
    then have "spans out s (taken @ obs_events v @ [e]) a"
      using Cons.prems(2) by (metis append_assoc spans_append)
    with step PublishEvent Cons.prems e show ?thesis
      using obs_publish_ok [of v e] by (auto simp: obs_publish_def)
  next
    case TakeNext
    with step Cons.prems show ?thesis
      using obs_next_open [of v] obs_next_ok [of v] by (fastforce split: option.splits)
  qed
  then show ?case using Cons.IH [of w tk] Cons.prems(5) step by auto
qed

text \<open>C5. An observer is never misled. While it is open, however the session's publications (in
  output order) and the connection's takes interleave, what the connection was given followed
  by what is still queued spans from the start to the last published coordinate without a hole:
  every byte between is in an output observation, at its own coordinate and with its true
  value, or inside a gap that says it was dropped. The queued bytes stay within the capacity.\<close>

theorem observer_never_misled:
  assumes "in_order out s acts b"
    and "foldl act_on ([], newObserver capacity) acts = (taken, v)"
  shows "spans out s (taken @ obs_events v) b \<and> observer_ok v"
  using assms observer_run_spans [of "newObserver capacity" out s "[]" s acts b taken v]
    newObserver_ok [of capacity]
  by (simp add: newObserver_def)

definition sample_acts :: "observer_act list" where
  "sample_acts =
     [PublishOutput \<lparr>out_EventSequence = 1, out_FromSequence = 0, out_ThroughSequence = 2, out_Bytes = [7, 8]\<rparr>,
      PublishEvent (Resize \<lparr>rsz_EventSequence = 2, rsz_Cols = 80, rsz_Rows = 24\<rparr>),
      PublishOutput \<lparr>out_EventSequence = 3, out_FromSequence = 2, out_ThroughSequence = 4, out_Bytes = [9, 10]\<rparr>,
      TakeNext]"

theorem observer_never_misled_witness:
  "spans [7, 8, 9, 10] 0
     (fst (foldl act_on ([], newObserver 3) sample_acts)
      @ obs_events (snd (foldl act_on ([], newObserver 3) sample_acts))) 4
   \<and> Gap \<lparr>gap_FromEventSequence = 3, gap_ThroughEventSequence = 4, gap_FromSequence = 2,
        gap_ThroughSequence = 4\<rparr> \<in> set (obs_events (snd (foldl act_on ([], newObserver 3) sample_acts)))"
proof -
  have "in_order [7, 8, 9, 10] 0 sample_acts 4"
    by (simp add: sample_acts_def true_output_def)
  then have "spans [7, 8, 9, 10] 0
     (fst (foldl act_on ([], newObserver 3) sample_acts)
      @ obs_events (snd (foldl act_on ([], newObserver 3) sample_acts))) 4"
    by (intro observer_never_misled [THEN conjunct1]) simp_all
  then show ?thesis
    by (simp add: sample_acts_def newObserver_def publishOutput_def obs_publish_def
        publishGapLocked_def obs_next_def)
qed

end
