(* ===== verification/Frames.thy ===== *)
theory Frames
  imports Observer
begin

section \<open>Observation frames on the wire (stream.go)\<close>

text \<open>
  What \<open>deliverObservations\<close> writes for each observation it takes: a header of the frame kind
  and the payload length, then the payload, with every integer in big-endian order at a fixed
  offset of a zeroed buffer. The reading direction is the specification of the other end: it is
  what a peer that follows the layout computes, and the round trip says the frames carry every
  field. The writes to the connection may fail, at any of them and half way: \<open>faults\<close> lists what
  happens to the next ones, and past its end they succeed.
\<close>

subsection \<open>Big-endian integers in a buffer\<close>

primrec be_encode :: "nat \<Rightarrow> nat \<Rightarrow> byte list" where
  "be_encode 0 x = []"
| "be_encode (Suc k) x = be_encode k (x div 256) @ [of_nat x]"

definition be_decode :: "byte list \<Rightarrow> nat" where
  "be_decode bs = foldl (\<lambda>a b. a * 256 + unat b) 0 bs"

lemma length_be_encode [simp]: "length (be_encode k x) = k"
  by (induction k arbitrary: x) auto

lemma be_decode_encode: "be_decode (be_encode k x) = x mod 256 ^ k"
proof (induction k arbitrary: x)
  case 0
  show ?case by (simp add: be_decode_def)
next
  case (Suc k)
  have "unat (of_nat x :: byte) = x mod 256"
    by (simp add: unat_of_nat take_bit_eq_mod)
  then have "be_decode (be_encode (Suc k) x) = (x div 256) mod 256 ^ k * 256 + x mod 256"
    using Suc [of "x div 256"] by (simp add: be_decode_def)
  also have "\<dots> = x mod 256 ^ Suc k"
    by (simp add: mod_mult2_eq mult.commute)
  finally show ?case .
qed

lemma be_decode_u64: "be_decode (be_encode 8 (unat (x :: u64))) = unat x"
  using unat_u64_bound [of x] by (simp add: be_decode_encode)

lemma be_decode_u16: "be_decode (be_encode 2 (unat (x :: u16))) = unat x"
  using unat_u16_bound [of x] by (simp add: be_decode_encode)

text \<open>\<open>binary.BigEndian.PutUint\<close> into a part of a buffer, and \<open>copy\<close> into its rest.\<close>

definition put_at :: "nat \<Rightarrow> byte list \<Rightarrow> byte list \<Rightarrow> byte list" where
  "put_at off bs buf = take off buf @ bs @ drop (off + length bs) buf"

definition get_at :: "nat \<Rightarrow> nat \<Rightarrow> byte list \<Rightarrow> byte list" where
  "get_at off n buf = take n (drop off buf)"

abbreviation put64 :: "nat \<Rightarrow> u64 \<Rightarrow> byte list \<Rightarrow> byte list" where
  "put64 off x \<equiv> put_at off (be_encode 8 (unat x))"

abbreviation get64 :: "nat \<Rightarrow> byte list \<Rightarrow> u64" where
  "get64 off buf \<equiv> of_nat (be_decode (get_at off 8 buf))"

lemma length_put_at [simp]:
  "off + length bs \<le> length buf \<Longrightarrow> length (put_at off bs buf) = length buf"
  by (simp add: put_at_def)

lemma get_put_same [simp]:
  "off + length bs \<le> length buf \<Longrightarrow> n = length bs \<Longrightarrow> get_at off n (put_at off bs buf) = bs"
  by (simp add: put_at_def get_at_def)

lemma get_put_before [simp]:
  "off' + n \<le> off \<Longrightarrow> off \<le> length buf \<Longrightarrow> get_at off' n (put_at off bs buf) = get_at off' n buf"
  by (simp add: put_at_def get_at_def take_drop)

lemma drop_put_at [simp]:
  "off \<le> length buf \<Longrightarrow> off + length bs = m \<Longrightarrow> drop m (put_at off bs buf) = drop m buf"
  by (simp add: put_at_def)

subsection \<open>Writing\<close>

definition output_payload :: "frame_contract \<Rightarrow> OutputObservation \<Rightarrow> byte list" where
  "output_payload k x =
     (let payload = replicate (ObservationOutputMetadataBytes k + length (out_Bytes x)) 0;
          payload = put64 0 (out_EventSequence x) payload;
          payload = put64 8 (out_FromSequence x) payload;
          payload = put64 16 (out_ThroughSequence x) payload
      in put_at 24 (take (length payload - 24) (out_Bytes x)) payload)"

definition gap_payload :: "frame_contract \<Rightarrow> GapObservation \<Rightarrow> byte list" where
  "gap_payload k g =
     put64 24 (gap_ThroughSequence g)
       (put64 16 (gap_FromSequence g)
         (put64 8 (gap_ThroughEventSequence g)
           (put64 0 (gap_FromEventSequence g) (replicate (ObservationGapPayloadBytes k) 0))))"

definition resize_payload :: "frame_contract \<Rightarrow> ResizeObservation \<Rightarrow> byte list" where
  "resize_payload k x =
     put_at 10 (be_encode 2 (unat (rsz_Rows x)))
       (put_at 8 (be_encode 2 (unat (rsz_Cols x)))
         (put64 0 (rsz_EventSequence x) (replicate (ObservationResizePayloadBytes k) 0)))"

definition end_payload :: "frame_contract \<Rightarrow> EndObservation \<Rightarrow> byte list" where
  "end_payload k x =
     put_at 8 (be_encode 4 (unat (of_int (end_ExitCode x) :: u32)))
       (put64 0 (end_EventSequence x) (replicate (ObservationEndPayloadBytes k) 0))"

definition opened_payload :: "frame_contract \<Rightarrow> OpenedObservation \<Rightarrow> byte list" where
  "opened_payload k x =
     put64 24 (opn_OutputSequence x)
       (put64 16 (opn_EventSequence x)
         (put64 8 (opn_Generation x)
           (put64 0 (opn_Session x) (replicate (ObservationOpenedPayloadBytes k) 0))))"

definition frame_header :: "frame_contract \<Rightarrow> byte \<Rightarrow> byte list \<Rightarrow> byte list" where
  "frame_header k kind payload =
     put_at 1 (be_encode 4 (unat (of_nat (length payload) :: u32)))
       (kind # replicate (ObservationFrameHeaderBytes k - 1) 0)"

type_synonym written = "byte list \<times> bool \<times> nat option list"

definition next_write :: "nat option list \<Rightarrow> byte list \<Rightarrow> written" where
  "next_write faults bs =
     (case faults of [] \<Rightarrow> (bs, True, []) | fault # faults \<Rightarrow> (conn_write fault bs, fault = None, faults))"

definition writeObservationFrame ::
    "frame_contract \<Rightarrow> nat option list \<Rightarrow> byte \<Rightarrow> byte list \<Rightarrow> written" where
  "writeObservationFrame k faults kind payload =
     (case next_write faults (frame_header k kind payload) of
        (header, ok, faults) \<Rightarrow>
          if \<not> ok then (header, False, faults)
          else case next_write faults payload of (sent, ok, faults) \<Rightarrow> (header @ sent, ok, faults))"

text \<open>
  One turn of \<open>deliverObservations\<close>: what it writes for the observation it took, and whether the
  loop goes on (it ends when a write failed, after an end frame, and on the empty observation,
  for which it writes nothing).
\<close>

fun observation_frame :: "frame_contract \<Rightarrow> nat option list \<Rightarrow> observation \<Rightarrow> written" where
  "observation_frame k faults (Output x) =
     writeObservationFrame k faults (ObservationFrameOutput k) (output_payload k x)"
| "observation_frame k faults (Gap g) =
     writeObservationFrame k faults (ObservationFrameGap k) (gap_payload k g)"
| "observation_frame k faults (Resize x) =
     writeObservationFrame k faults (ObservationFrameResize k) (resize_payload k x)"
| "observation_frame k faults (End x) =
     (case writeObservationFrame k faults (ObservationFrameEnd k) (end_payload k x) of
        (frame, ok, faults) \<Rightarrow> (frame, False, faults))"
| "observation_frame k faults (Opened x) =
     writeObservationFrame k faults (ObservationFrameOpened k) (opened_payload k x)"
| "observation_frame k faults NoObservation = ([], False, faults)"

text \<open>What the loop writes for a sequence of observations.\<close>

fun deliverObservations :: "frame_contract \<Rightarrow> nat option list \<Rightarrow> observation list \<Rightarrow> byte list" where
  "deliverObservations k faults [] = []"
| "deliverObservations k faults (e # es) =
     (case observation_frame k faults e of
        (frame, goes_on, faults) \<Rightarrow> frame @ (if goes_on then deliverObservations k faults es else []))"

text \<open>
  A failing write cuts the stream short and does nothing else to it: a turn that goes on has
  written the whole frame, and one that ends on a failure a part of it.
\<close>

lemma next_write_cut:
  "prefix (fst (next_write faults bs)) bs"
  "fst (snd (next_write faults bs)) \<Longrightarrow> fst (next_write faults bs) = bs"
  by (auto simp: next_write_def conn_write_prefix split: list.split list.splits)

lemma writeObservationFrame_cut:
  "prefix (fst (writeObservationFrame k faults kind p)) (frame_header k kind p @ p)"
  "fst (snd (writeObservationFrame k faults kind p)) \<Longrightarrow>
     fst (writeObservationFrame k faults kind p) = frame_header k kind p @ p"
  "writeObservationFrame k [] kind p = (frame_header k kind p @ p, True, [])"
  using next_write_cut [of faults "frame_header k kind p"]
    next_write_cut [of "snd (snd (next_write faults (frame_header k kind p)))" p]
  by (auto simp: writeObservationFrame_def case_prod_unfold intro: prefix_prefix)
    (simp_all add: next_write_def)

lemma observation_frame_cut:
  "prefix (fst (observation_frame k faults e)) (fst (observation_frame k [] e))"
  "fst (snd (observation_frame k faults e)) \<Longrightarrow>
     fst (observation_frame k faults e) = fst (observation_frame k [] e)
     \<and> fst (snd (observation_frame k [] e))"
  using writeObservationFrame_cut by (cases e; auto simp: case_prod_unfold)+

lemma observation_frame_unfailing: "snd (snd (observation_frame k [] e)) = []"
  using writeObservationFrame_cut(3) by (cases e) simp_all

lemma deliverObservations_cut: "prefix (deliverObservations k faults es) (deliverObservations k [] es)"
proof (induction es arbitrary: faults)
  case Nil
  show ?case by simp
next
  case (Cons e es)
  show ?case
    using observation_frame_cut [of k faults e] Cons observation_frame_unfailing [of k e]
    by (auto simp: case_prod_unfold intro: prefix_prefix)
qed

subsection \<open>Reading\<close>

definition read_payload :: "frame_contract \<Rightarrow> byte \<Rightarrow> byte list \<Rightarrow> observation option" where
  "read_payload k kind p =
     (if kind = ObservationFrameOutput k then
        Some (Output \<lparr>out_EventSequence = get64 0 p, out_FromSequence = get64 8 p,
                      out_ThroughSequence = get64 16 p, out_Bytes = drop 24 p\<rparr>)
      else if kind = ObservationFrameGap k then
        Some (Gap \<lparr>gap_FromEventSequence = get64 0 p, gap_ThroughEventSequence = get64 8 p,
                   gap_FromSequence = get64 16 p, gap_ThroughSequence = get64 24 p\<rparr>)
      else if kind = ObservationFrameResize k then
        Some (Resize \<lparr>rsz_EventSequence = get64 0 p, rsz_Cols = of_nat (be_decode (get_at 8 2 p)),
                      rsz_Rows = of_nat (be_decode (get_at 10 2 p))\<rparr>)
      else if kind = ObservationFrameEnd k then
        Some (End \<lparr>end_EventSequence = get64 0 p, end_ExitCode = int (be_decode (get_at 8 4 p))\<rparr>)
      else if kind = ObservationFrameOpened k then
        Some (Opened \<lparr>opn_Session = get64 0 p, opn_Generation = get64 8 p,
                      opn_EventSequence = get64 16 p, opn_OutputSequence = get64 24 p\<rparr>)
      else None)"

fun read_frame :: "frame_contract \<Rightarrow> byte list \<Rightarrow> (observation \<times> byte list) option" where
  "read_frame k bs =
     (if length bs < 5 then None
      else let n = be_decode (get_at 1 4 bs); rest = drop 5 bs
           in if length rest < n then None
              else map_option (\<lambda>e. (e, drop n rest)) (read_payload k (bs ! 0) (take n rest)))"

fun read_frames :: "frame_contract \<Rightarrow> nat \<Rightarrow> byte list \<Rightarrow> observation list option" where
  "read_frames k 0 bs = (if bs = [] then Some [] else None)"
| "read_frames k (Suc n) bs =
     (case read_frame k bs of
        None \<Rightarrow> None
      | Some (e, rest) \<Rightarrow> map_option (Cons e) (read_frames k n rest))"

subsection \<open>Round trip\<close>

text \<open>What fits a frame: a payload whose length and an exit code that 32 bits carry.\<close>

fun fits_frame :: "observation \<Rightarrow> bool" where
  "fits_frame (Output x) = (24 + length (out_Bytes x) < 2 ^ 32)"
| "fits_frame (End x) = (0 \<le> end_ExitCode x \<and> end_ExitCode x < 2 ^ 32)"
| "fits_frame NoObservation = False"
| "fits_frame _ = True"

lemma payload_lengths:
  assumes "frame_contract_ok k"
  shows "length (output_payload k x) = 24 + length (out_Bytes x)"
    and "length (gap_payload k g) = 32"
    and "length (resize_payload k z) = 12"
    and "length (end_payload k e) = 12"
    and "length (opened_payload k o') = 32"
  using assms
  by (simp_all add: frame_contract_ok_def output_payload_def gap_payload_def resize_payload_def
      end_payload_def opened_payload_def Let_def)

lemma unat_of_int_u32: "0 \<le> i \<Longrightarrow> i < 2 ^ 32 \<Longrightarrow> unat (of_int i :: u32) = nat i"
  by (simp add: unsigned_of_int take_bit_int_eq_self)

lemma be_decode_u32: "be_decode (be_encode 4 (unat (x :: u32))) = unat x"
  using unat_u32_bound [of x] by (simp add: be_decode_encode)

lemmas be_decodes = be_decode_u64 be_decode_u32 be_decode_u16

lemma drop_output_payload:
  "frame_contract_ok k \<Longrightarrow> drop 24 (output_payload k x) = out_Bytes x"
  by (simp add: frame_contract_ok_def output_payload_def Let_def put_at_def)

lemma read_output_payload:
  assumes "frame_contract_ok k"
  shows "read_payload k (ObservationFrameOutput k) (output_payload k x) = Some (Output x)"
proof -
  have "get_at 0 8 (output_payload k x) = be_encode 8 (unat (out_EventSequence x))"
    "get_at 8 8 (output_payload k x) = be_encode 8 (unat (out_FromSequence x))"
    "get_at 16 8 (output_payload k x) = be_encode 8 (unat (out_ThroughSequence x))"
    using assms by (simp_all add: frame_contract_ok_def output_payload_def Let_def)
  with drop_output_payload [OF assms] show ?thesis
    by (simp add: read_payload_def be_decodes)
qed

lemma read_gap_payload:
  "frame_contract_ok k \<Longrightarrow> read_payload k (ObservationFrameGap k) (gap_payload k g) = Some (Gap g)"
  by (auto simp: read_payload_def frame_contract_ok_def frame_kinds_def gap_payload_def be_decodes)

lemma read_resize_payload:
  "frame_contract_ok k \<Longrightarrow> read_payload k (ObservationFrameResize k) (resize_payload k z) = Some (Resize z)"
  by (auto simp: read_payload_def frame_contract_ok_def frame_kinds_def resize_payload_def be_decodes)

lemma read_end_payload:
  "frame_contract_ok k \<Longrightarrow> fits_frame (End e) \<Longrightarrow>
     read_payload k (ObservationFrameEnd k) (end_payload k e) = Some (End e)"
  by (auto simp: read_payload_def frame_contract_ok_def frame_kinds_def end_payload_def be_decode_u64
      be_decode_encode unat_of_int_u32 nat_less_iff)

lemma read_opened_payload:
  "frame_contract_ok k \<Longrightarrow> read_payload k (ObservationFrameOpened k) (opened_payload k x) = Some (Opened x)"
  by (auto simp: read_payload_def frame_contract_ok_def frame_kinds_def opened_payload_def be_decodes)

lemma read_written_frame:
  assumes "frame_contract_ok k" and "length payload < 2 ^ 32"
    and "read_payload k kind payload = Some e"
  shows "read_frame k (frame_header k kind payload @ payload @ rest) = Some (e, rest)"
proof -
  let ?n = "be_encode 4 (unat (of_nat (length payload) :: u32))"
  have frame: "frame_header k kind payload @ payload @ rest = kind # ?n @ payload @ rest"
    using assms(1) by (simp add: frame_header_def frame_contract_ok_def put_at_def)
  have len: "be_decode ?n = length payload"
    using assms(2) by (simp add: be_decode_encode unat_of_nat take_bit_nat_eq_self)
  show ?thesis unfolding frame using assms(3) len by (simp add: get_at_def)
qed

lemma read_observation_frame:
  assumes "frame_contract_ok k" and "fits_frame e"
  shows "read_frame k (fst (observation_frame k [] e) @ rest) = Some (e, rest)"
  using assms
  by (cases e) (simp_all add: writeObservationFrame_cut(3) read_written_frame payload_lengths read_output_payload read_gap_payload
      read_resize_payload read_end_payload read_opened_payload del: read_frame.simps)

text \<open>C7. The observation stream carries every field of every observation. What
  \<open>deliverObservations\<close> writes for a sequence of observations (the last of which may be an end)
  reads back, frame by frame along the stated layout, as exactly that sequence: no field is
  truncated, swapped or overlapped, and no frame runs into the next. When a write to the
  connection fails, at whichever write and after however many bytes, the peer was given a prefix
  of that stream.\<close>

theorem observation_stream_roundtrip:
  assumes "frame_contract_ok k" and "\<forall>e\<in>set es. fits_frame e"
    and "\<forall>e\<in>set (butlast es). \<forall>x. e \<noteq> End x"
  shows "read_frames k (length es) (deliverObservations k [] es) = Some es
    \<and> prefix (deliverObservations k faults es) (deliverObservations k [] es)"
proof
  show "read_frames k (length es) (deliverObservations k [] es) = Some es"
    using assms(2,3)
  proof (induction es)
    case Nil
    show ?case by simp
  next
    case (Cons e es)
    let ?on = "fst (snd (observation_frame k [] e))"
    have more: "?on" if "es \<noteq> []"
      using that Cons.prems by (cases e) (auto simp: writeObservationFrame_cut(3))
    have "read_frames k (length es) (if ?on then deliverObservations k [] es else []) = Some es"
      using more Cons by (cases "es = []") (auto dest: in_set_butlastD split: if_splits)
    moreover have "read_frame k (fst (observation_frame k [] e) @ rest) = Some (e, rest)" for rest
      using Cons.prems by (intro read_observation_frame [OF assms(1)]) simp
    ultimately show ?case
      by (simp add: case_prod_unfold observation_frame_unfailing del: read_frame.simps split: if_splits)
  qed
qed (rule deliverObservations_cut)

definition sample_events :: "observation list" where
  "sample_events =
     [Output \<lparr>out_EventSequence = 3, out_FromSequence = 700, out_ThroughSequence = 702, out_Bytes = [9, 10]\<rparr>,
      Resize \<lparr>rsz_EventSequence = 4, rsz_Cols = 300, rsz_Rows = 24\<rparr>,
      End \<lparr>end_EventSequence = 5, end_ExitCode = 1\<rparr>]"

theorem observation_stream_roundtrip_witness:
  "read_frames sample_frames (length sample_events) (deliverObservations sample_frames [] sample_events)
     = Some sample_events
   \<and> prefix (deliverObservations sample_frames [None, None, None, Some 3] sample_events)
       (deliverObservations sample_frames [] sample_events)"
  by (rule observation_stream_roundtrip [OF sample_frames_ok]) (simp_all add: sample_events_def)

end
