(* ===== verification/Feed.thy ===== *)
theory Feed
  imports Prelude
begin

section \<open>The store feed (feed.go)\<close>

text \<open>
  A session's output goes to its store through a bounded queue that never blocks the session.
  \<open>storeFeed\<close> is the Go struct; \<open>feed_offer\<close> and \<open>feed_close\<close> are critical sections of its
  mutex; the goroutine \<open>run\<close> alternates between a critical section that takes the oldest
  chunk and a call of the sink outside the lock, so it is a program counter beside the struct.
  \<open>offered\<close> and \<open>sunk\<close> are history: the chunks accepted so far, and the chunks the sink was
  called with so far, each with whether it failed (a failure is reported and the loop goes on).
\<close>

subsection \<open>State and operations\<close>

definition feedDepth :: int where
  "feedDepth = 2 * 32768"

record chunk =
  chunk_data :: "byte list"
  chunk_through :: u64

record storeFeed =
  feed_name :: u64
  feed_pending :: "chunk list"
  feed_queued :: int
  feed_closed :: bool

definition newStoreFeed :: "u64 \<Rightarrow> storeFeed" where
  "newStoreFeed name = \<lparr>feed_name = name, feed_pending = [], feed_queued = 0, feed_closed = False\<rparr>"

datatype offer_result = OfferClosed | OfferDropped nat | OfferAccepted

definition feed_offer :: "storeFeed \<Rightarrow> byte list \<Rightarrow> u64 \<Rightarrow> offer_result \<times> storeFeed" where
  "feed_offer feed data through =
     (if feed_closed feed then (OfferClosed, feed)
      else if feed_queued feed + int (length data) > feedDepth then (OfferDropped (length data), feed)
      else (OfferAccepted,
            feed\<lparr>feed_pending := feed_pending feed @ [\<lparr>chunk_data = data, chunk_through = through\<rparr>],
                 feed_queued := feed_queued feed + int (length data)\<rparr>))"

text \<open>The critical section at the head of \<open>run\<close>: wait, return, or take the oldest chunk.\<close>

datatype run_head = RunWait | RunReturn | RunTake chunk storeFeed

definition feed_run_head :: "storeFeed \<Rightarrow> run_head" where
  "feed_run_head feed =
     (case feed_pending feed of
        [] \<Rightarrow> if feed_closed feed then RunReturn else RunWait
      | c # rest \<Rightarrow>
          RunTake c (feed\<lparr>feed_pending := rest,
                          feed_queued := feed_queued feed - int (length (chunk_data c))\<rparr>))"

text \<open>
  \<open>closeWithin\<close>: the first close marks the feed and then waits for the goroutine or for the
  bound, whichever is first, reporting what is still queued in the latter case; a feed closed
  before answers at once.
\<close>

definition feed_close :: "storeFeed \<Rightarrow> bool \<times> storeFeed" where
  "feed_close feed = (if feed_closed feed then (False, feed) else (True, feed\<lparr>feed_closed := True\<rparr>))"

definition feed_left :: "storeFeed \<Rightarrow> int" where
  "feed_left feed = feed_queued feed"

subsection \<open>The feed and its goroutine\<close>

datatype runner = AtHead | Sinking chunk | Returned

record feed_sys =
  fs_feed :: storeFeed
  fs_run :: runner
  fs_offered :: "chunk list"
  fs_sunk :: "(chunk \<times> bool) list"

inductive feed_step :: "feed_sys \<Rightarrow> feed_sys \<Rightarrow> bool" where
  offer_accepted: "feed_offer (fs_feed s) data through = (OfferAccepted, f) \<Longrightarrow>
     feed_step s (s\<lparr>fs_feed := f,
       fs_offered := fs_offered s @ [\<lparr>chunk_data = data, chunk_through = through\<rparr>]\<rparr>)"
| offer_refused: "feed_offer (fs_feed s) data through = (res, f) \<Longrightarrow> res \<noteq> OfferAccepted \<Longrightarrow>
     feed_step s (s\<lparr>fs_feed := f\<rparr>)"
| take_chunk: "fs_run s = AtHead \<Longrightarrow> feed_run_head (fs_feed s) = RunTake c f \<Longrightarrow>
     feed_step s (s\<lparr>fs_feed := f, fs_run := Sinking c\<rparr>)"
| sink_answers: "fs_run s = Sinking c \<Longrightarrow>
     feed_step s (s\<lparr>fs_run := AtHead, fs_sunk := fs_sunk s @ [(c, failed)]\<rparr>)"
| run_returns: "fs_run s = AtHead \<Longrightarrow> feed_run_head (fs_feed s) = RunReturn \<Longrightarrow>
     feed_step s (s\<lparr>fs_run := Returned\<rparr>)"
| close_feed: "feed_close (fs_feed s) = (first, f) \<Longrightarrow> feed_step s (s\<lparr>fs_feed := f\<rparr>)"

definition feed_start :: "u64 \<Rightarrow> feed_sys" where
  "feed_start name = \<lparr>fs_feed = newStoreFeed name, fs_run = AtHead, fs_offered = [], fs_sunk = []\<rparr>"

fun in_flight :: "runner \<Rightarrow> chunk list" where
  "in_flight (Sinking c) = [c]"
| "in_flight _ = []"

definition feed_ok :: "feed_sys \<Rightarrow> bool" where
  "feed_ok s \<longleftrightarrow>
     feed_queued (fs_feed s) = int (sum_list (map (length \<circ> chunk_data) (feed_pending (fs_feed s))))
     \<and> feed_queued (fs_feed s) \<le> feedDepth
     \<and> fs_offered s = map fst (fs_sunk s) @ in_flight (fs_run s) @ feed_pending (fs_feed s)
     \<and> (fs_run s = Returned \<longrightarrow> feed_closed (fs_feed s) \<and> feed_pending (fs_feed s) = [])"

lemmas feed_defs = feed_offer_def feed_run_head_def feed_close_def

lemma feed_ok_start: "feed_ok (feed_start name)"
  by (simp add: feed_ok_def feed_start_def newStoreFeed_def feedDepth_def)

lemma feed_ok_step: "feed_step s t \<Longrightarrow> feed_ok s \<Longrightarrow> feed_ok t"
  by (induction rule: feed_step.induct)
    (auto simp: feed_ok_def feed_defs split: if_splits list.splits)

lemma feed_ok_run: "feed_step\<^sup>*\<^sup>* s t \<Longrightarrow> feed_ok s \<Longrightarrow> feed_ok t"
  by (induction rule: rtranclp_induct) (auto intro: feed_ok_step)

text \<open>C6. The feed is a bounded queue that loses nothing it accepted. In every state reached from
  a new feed, however offers, the goroutine, the sink and the close interleave: the queued bytes
  are at most \<open>feedDepth\<close>; the sink has been called with a prefix of the accepted chunks, in the
  order they were accepted; and once the goroutine has returned (which is what a close that
  drained waited for) the sink has been called with every one of them.\<close>

theorem feed_delivers_accepted:
  assumes "feed_step\<^sup>*\<^sup>* (feed_start name) s"
  shows "feed_queued (fs_feed s) \<le> feedDepth
    \<and> (\<exists>rest. fs_offered s = map fst (fs_sunk s) @ rest)
    \<and> (fs_run s = Returned \<longrightarrow> map fst (fs_sunk s) = fs_offered s)"
  using feed_ok_run [OF assms feed_ok_start] by (auto simp: feed_ok_def)

theorem feed_delivers_accepted_witness:
  "\<exists>s. feed_step\<^sup>*\<^sup>* (feed_start 7) s \<and> length (fs_offered s) = 1 \<and> feed_queued (fs_feed s) \<le> feedDepth"
proof -
  let ?c = "\<lparr>chunk_data = [1, 2], chunk_through = 2\<rparr>"
  let ?s = "(feed_start 7)\<lparr>fs_feed := (newStoreFeed 7)\<lparr>feed_pending := [?c], feed_queued := 2\<rparr>,
      fs_offered := [?c]\<rparr>"
  have "feed_step (feed_start 7) ?s"
    using feed_step.offer_accepted [of "feed_start 7" "[1, 2]" 2]
    by (simp add: feed_start_def newStoreFeed_def feed_offer_def feedDepth_def)
  then have run: "feed_step\<^sup>*\<^sup>* (feed_start 7) ?s" by blast
  with feed_delivers_accepted [OF run] show ?thesis by (intro exI [of _ ?s]) simp
qed

text \<open>What the goroutine does on its own, with a sink that answers.\<close>

lemma feed_drains:
  assumes "feed_closed (fs_feed s)" and "fs_run s = AtHead"
  shows "\<exists>t. feed_step\<^sup>*\<^sup>* s t \<and> fs_run t = Returned"
  using assms
proof (induction "feed_pending (fs_feed s)" arbitrary: s)
  case Nil
  then have "feed_step s (s\<lparr>fs_run := Returned\<rparr>)"
    by (intro feed_step.run_returns) (simp_all add: feed_run_head_def flip: Nil.hyps)
  then show ?case by (intro exI [of _ "s\<lparr>fs_run := Returned\<rparr>"]) auto
next
  case (Cons c rest)
  let ?f = "(fs_feed s)\<lparr>feed_pending := rest,
      feed_queued := feed_queued (fs_feed s) - int (length (chunk_data c))\<rparr>"
  let ?u = "s\<lparr>fs_feed := ?f, fs_run := Sinking c\<rparr>"
  let ?v = "?u\<lparr>fs_run := AtHead, fs_sunk := fs_sunk ?u @ [(c, False)]\<rparr>"
  have "feed_step s ?u"
    using Cons.prems by (intro feed_step.take_chunk) (simp_all add: feed_run_head_def flip: Cons.hyps(2))
  moreover have "feed_step ?u ?v" by (rule feed_step.sink_answers) simp
  moreover have "\<exists>t. feed_step\<^sup>*\<^sup>* ?v t \<and> fs_run t = Returned"
    using Cons.hyps(1) [of ?v] Cons.prems by simp
  ultimately show ?case by (meson converse_rtranclp_into_rtranclp)
qed

text \<open>A close can always finish. From any reached state of a closed feed the goroutine, with a
  sink that answers each call, runs to its return; a feed never comes to a state in which what it
  accepted cannot reach the store any more.\<close>

lemma feed_close_drains:
  assumes "feed_step\<^sup>*\<^sup>* (feed_start name) s" and "feed_closed (fs_feed s)"
  shows "\<exists>t. feed_step\<^sup>*\<^sup>* s t \<and> fs_run t = Returned \<and> map fst (fs_sunk t) = fs_offered t"
proof -
  have "\<exists>t. feed_step\<^sup>*\<^sup>* s t \<and> fs_run t = Returned"
  proof (cases "fs_run s")
    case AtHead
    with assms(2) show ?thesis by (rule feed_drains)
  next
    case (Sinking c)
    let ?u = "s\<lparr>fs_run := AtHead, fs_sunk := fs_sunk s @ [(c, False)]\<rparr>"
    have "feed_step s ?u" using Sinking by (rule feed_step.sink_answers)
    with feed_drains [of ?u] assms(2) show ?thesis by (auto intro: converse_rtranclp_into_rtranclp)
  next
    case Returned
    then show ?thesis by blast
  qed
  then obtain t where t: "feed_step\<^sup>*\<^sup>* s t" "fs_run t = Returned" by blast
  from assms(1) t(1) have "feed_ok t" by (meson feed_ok_run feed_ok_start rtranclp_trans)
  with t show ?thesis by (auto simp: feed_ok_def)
qed

lemma feed_close_drains_witness:
  "\<exists>t. feed_step\<^sup>*\<^sup>* ((feed_start 7)\<lparr>fs_feed := (newStoreFeed 7)\<lparr>feed_closed := True\<rparr>\<rparr>) t
    \<and> fs_run t = Returned"
proof -
  let ?s = "(feed_start 7)\<lparr>fs_feed := (newStoreFeed 7)\<lparr>feed_closed := True\<rparr>\<rparr>"
  have "feed_step (feed_start 7) ?s"
    by (rule feed_step.close_feed [of _ True]) (simp add: feed_start_def newStoreFeed_def feed_close_def)
  then have "feed_step\<^sup>*\<^sup>* (feed_start 7) ?s" by blast
  from feed_close_drains [OF this] show ?thesis by auto
qed

end
