(* ===== verification/Decimal.thy ===== *)
theory Decimal
  imports Prelude
begin

section \<open>Session ids as decimal text (strconv, restore.go)\<close>

text \<open>
  A session id travels as decimal text: in the file names of the store and on the envelope.
  \<open>format_uint\<close> is \<open>strconv.FormatUint(id, 10)\<close> and \<open>parse_uint\<close> is
  \<open>strconv.ParseUint(text, 10, 64)\<close> with its two errors, not a number and out of range, as
  \<open>None\<close>. The facts the code relies on are that the two are inverse on what was printed and that
  a printed id holds digits only, so that it can be cut out of a file name again.
\<close>

definition digit_char :: "nat \<Rightarrow> char" where
  "digit_char d = char_of (48 + d)"

definition is_digit :: "char \<Rightarrow> bool" where
  "is_digit ch \<longleftrightarrow> 48 \<le> (of_char ch :: nat) \<and> (of_char ch :: nat) \<le> 57"

definition digit_val :: "char \<Rightarrow> nat" where
  "digit_val ch = of_char ch - 48"

fun format_nat :: "nat \<Rightarrow> string" where
  "format_nat n = (if n < 10 then [digit_char n] else format_nat (n div 10) @ [digit_char (n mod 10)])"

declare format_nat.simps [simp del]

definition digits_val :: "string \<Rightarrow> nat" where
  "digits_val ds = foldl (\<lambda>n ch. 10 * n + digit_val ch) 0 ds"

definition format_uint :: "u64 \<Rightarrow> string" where
  "format_uint n = format_nat (unat n)"

definition parse_uint :: "string \<Rightarrow> u64 option" where
  "parse_uint text =
     (if text = [] \<or> \<not> list_all is_digit text then None
      else if digits_val text < 2 ^ 64 then Some (of_nat (digits_val text)) else None)"

lemma of_digit_char: "d < 10 \<Longrightarrow> (of_char (digit_char d) :: nat) = 48 + d"
  by (simp add: digit_char_def)

lemma digit_char_props [simp]:
  assumes "d < 10"
  shows "is_digit (digit_char d)" and "digit_val (digit_char d) = d"
  using assms by (simp_all add: is_digit_def digit_val_def of_digit_char)

lemma format_nat_digits: "list_all is_digit (format_nat n) \<and> format_nat n \<noteq> []"
proof (induction n rule: format_nat.induct)
  case (1 n)
  then show ?case by (subst (1 2) format_nat.simps) simp
qed

lemma digits_val_format: "digits_val (format_nat n) = n"
proof (induction n rule: format_nat.induct)
  case (1 n)
  show ?case
  proof (cases "n < 10")
    case True
    then show ?thesis by (simp add: format_nat.simps [of n] digits_val_def)
  next
    case False
    then have "digits_val (format_nat n) = 10 * (n div 10) + n mod 10"
      using 1 by (simp add: format_nat.simps [of n] digits_val_def)
    then show ?thesis by simp
  qed
qed

lemma parse_format [simp]: "parse_uint (format_uint n) = Some n"
  using format_nat_digits [of "unat n"]
  by (simp add: parse_uint_def format_uint_def digits_val_format)

lemma format_uint_inject [simp]: "format_uint a = format_uint b \<longleftrightarrow> a = b"
  by (metis parse_format option.inject)

lemma format_uint_digits: "list_all is_digit (format_uint n)" "format_uint n \<noteq> []"
  using format_nat_digits [of "unat n"] by (simp_all add: format_uint_def)

text \<open>A character that is not a digit does not occur in a printed id.\<close>

lemma format_uint_no: "\<not> is_digit ch \<Longrightarrow> ch \<notin> set (format_uint n)"
  using format_uint_digits [of n] by (auto simp: list_all_iff)

text \<open>The printed id can be cut out of a longer text whose continuation does not start with a digit.\<close>

lemma takeWhile_format:
  assumes "rest = [] \<or> \<not> is_digit (hd rest)"
  shows "takeWhile is_digit (format_uint n @ rest) = format_uint n"
  using assms format_uint_digits(1) [of n]
  by (cases rest) (auto simp: list_all_iff takeWhile_append2)

lemma format_uint_append_inject:
  assumes "a = [] \<or> \<not> is_digit (hd a)" and "b = [] \<or> \<not> is_digit (hd b)"
  shows "format_uint m @ a = format_uint n @ b \<longleftrightarrow> m = n \<and> a = b"
  by (metis assms takeWhile_format format_uint_inject same_append_eq)

section \<open>Session names on the envelope (restore.go, sessionText and sessionNumber)\<close>

definition sessionText :: "u64 \<Rightarrow> string" where
  "sessionText n = format_uint n"

text \<open>The answer is \<open>None\<close> where the code answers that the text is not numeric.\<close>

definition sessionNumber :: "string \<Rightarrow> u64 option" where
  "sessionNumber text = parse_uint text"

end
