(* ===== verification/Disk.thy ===== *)
theory Disk
  imports Decimal "HOL-Library.Char_ord" "HOL-Library.List_Lexorder"
begin

section \<open>The store's directory, with failing calls and crashes\<close>

text \<open>
  The part of the operating system the store uses: one directory of named files, and for every
  call whether it succeeds. \<open>faults\<close> scripts the calls to come: a call passes, fails (a write
  after that many bytes), or the process has crashed, after which no call has any effect. When
  the script is used up every call passes. A file holds a session record, raw output, or the part
  of a record a failed write left; the JSON text of a record is represented by the record it
  parses to, and a file of any other text does not parse.
\<close>

record sessionRecord =
  rec_Session :: u64
  rec_PaneID :: string
  rec_WindowLabel :: string
  rec_CWD :: string
  rec_Command :: string
  rec_Environment :: "string list"
  rec_Cols :: u16
  rec_Rows :: u16
  rec_StartedAtUnixMs :: int
  rec_EndedAtUnixMs :: "int option"
  rec_ExitCode :: "int option"
  rec_EndedThrough :: u64
  rec_Segment :: int
  rec_Written :: u64
  rec_Foreground :: string
  rec_ForegroundCWD :: string
  rec_Modes :: "byte list"

datatype body = RecordFile sessionRecord | RawFile "byte list" | TornRecord

datatype fault = Passes | Fails nat | Crashed

record disk =
  files :: "(string \<times> body) list"
  faults :: "fault list"

datatype store_error = OsError | NotExist | DoesNotParse u64 | WrongSession u64 u64 | BadSegment u64 int

definition next_fault :: "disk \<Rightarrow> fault \<times> disk" where
  "next_fault d = (case faults d of
     [] \<Rightarrow> (Passes, d)
   | Crashed # _ \<Rightarrow> (Crashed, d)
   | f # fs \<Rightarrow> (f, d\<lparr>faults := fs\<rparr>))"

text \<open>A call without an effect on the directory: \<open>Sync\<close>, \<open>Close\<close>, \<open>Open\<close> of the directory.\<close>

definition os_call :: "disk \<Rightarrow> (store_error + unit) \<times> disk" where
  "os_call d = (case next_fault d of (Passes, d) \<Rightarrow> (Inr (), d) | (_, d) \<Rightarrow> (Inl OsError, d))"

definition os_lookup :: "string \<Rightarrow> disk \<Rightarrow> (store_error + body) \<times> disk" where
  "os_lookup name d = (case next_fault d of
     (Passes, d) \<Rightarrow> (case map_of (files d) name of None \<Rightarrow> (Inl NotExist, d) | Some f \<Rightarrow> (Inr f, d))
   | (_, d) \<Rightarrow> (Inl OsError, d))"

definition os_CreateTemp :: "string \<Rightarrow> disk \<Rightarrow> (store_error + unit) \<times> disk" where
  "os_CreateTemp name d = (case next_fault d of
     (Passes, d) \<Rightarrow> (if map_of (files d) name \<noteq> None then (Inl OsError, d)
        else (Inr (), d\<lparr>files := AList.update name (RawFile []) (files d)\<rparr>))
   | (_, d) \<Rightarrow> (Inl OsError, d))"

definition os_WriteRecord :: "string \<Rightarrow> sessionRecord \<Rightarrow> disk \<Rightarrow> (store_error + unit) \<times> disk" where
  "os_WriteRecord name r d = (case next_fault d of
     (Passes, d) \<Rightarrow> (Inr (), d\<lparr>files := AList.update name (RecordFile r) (files d)\<rparr>)
   | (Fails _, d) \<Rightarrow> (Inl OsError, d\<lparr>files := AList.update name TornRecord (files d)\<rparr>)
   | (Crashed, d) \<Rightarrow> (Inl OsError, d))"

definition os_Remove :: "string \<Rightarrow> disk \<Rightarrow> (store_error + unit) \<times> disk" where
  "os_Remove name d = (case next_fault d of
     (Passes, d) \<Rightarrow> (if map_of (files d) name = None then (Inl NotExist, d)
        else (Inr (), d\<lparr>files := AList.delete name (files d)\<rparr>))
   | (_, d) \<Rightarrow> (Inl OsError, d))"

definition os_Rename :: "string \<Rightarrow> string \<Rightarrow> disk \<Rightarrow> (store_error + unit) \<times> disk" where
  "os_Rename old new d = (case next_fault d of
     (Passes, d) \<Rightarrow> (case map_of (files d) old of
        None \<Rightarrow> (Inl NotExist, d)
      | Some f \<Rightarrow> (Inr (), d\<lparr>files := AList.update new f (AList.delete old (files d))\<rparr>))
   | (_, d) \<Rightarrow> (Inl OsError, d))"

text \<open>\<open>OpenFile\<close> with \<open>O_CREATE|O_APPEND\<close>: an existing file keeps its content.\<close>

definition os_OpenAppend :: "string \<Rightarrow> disk \<Rightarrow> (store_error + unit) \<times> disk" where
  "os_OpenAppend name d = (case next_fault d of
     (Passes, d) \<Rightarrow> (Inr (), if map_of (files d) name = None
        then d\<lparr>files := AList.update name (RawFile []) (files d)\<rparr> else d)
   | (_, d) \<Rightarrow> (Inl OsError, d))"

fun file_bytes :: "body \<Rightarrow> byte list" where
  "file_bytes (RawFile bs) = bs"
| "file_bytes _ = []"

text \<open>
  A write to an open segment answers how many bytes it wrote and whether it failed. A file whose
  name is gone still takes the write, and nothing of it is left in the directory.
\<close>

definition os_Append :: "string \<Rightarrow> byte list \<Rightarrow> disk \<Rightarrow> nat \<times> store_error option \<times> disk" where
  "os_Append name data d =
     (let put = (\<lambda>bs d. case map_of (files d) name of
            None \<Rightarrow> d
          | Some f \<Rightarrow> d\<lparr>files := AList.update name (RawFile (file_bytes f @ bs)) (files d)\<rparr>)
      in case next_fault d of
           (Passes, d) \<Rightarrow> (length data, None, put data d)
         | (Fails n, d) \<Rightarrow> (min n (length data), Some OsError, put (take n data) d)
         | (Crashed, d) \<Rightarrow> (0, Some OsError, d))"

definition os_ReadDir :: "disk \<Rightarrow> (store_error + string list) \<times> disk" where
  "os_ReadDir d = (case next_fault d of
     (Passes, d) \<Rightarrow> (Inr (sort (map fst (files d))), d) | (_, d) \<Rightarrow> (Inl OsError, d))"

subsection \<open>What a call does to the directory, whatever its fault\<close>

text \<open>
  \<open>entry d name\<close> is what the directory shows at a name. Each call changes the names it is
  given and no other, and without faults (\<open>faults d = []\<close>) it does what its name says.
\<close>

abbreviation entry :: "disk \<Rightarrow> string \<Rightarrow> body option" where
  "entry d name \<equiv> map_of (files d) name"

named_theorems disk_simps \<open>the effect of operating system calls on directory entries\<close>

lemma next_fault_files [simp]: "files (snd (next_fault d)) = files d"
  by (simp add: next_fault_def split: list.splits fault.splits)

lemma next_fault_none [simp]: "faults d = [] \<Longrightarrow> next_fault d = (Passes, d)"
  by (simp add: next_fault_def)

lemma next_faultD: "next_fault d = (f, d') \<Longrightarrow> files d' = files d"
  using next_fault_files [of d] by simp

lemmas os_defs = os_call_def os_lookup_def os_CreateTemp_def os_WriteRecord_def os_Remove_def
  os_Rename_def os_OpenAppend_def os_Append_def os_ReadDir_def

lemma os_call_files [disk_simps]: "os_call d = (x, d') \<Longrightarrow> files d' = files d"
  by (auto simp: os_call_def dest!: next_faultD split: prod.splits fault.splits)

lemma os_lookup_files: "os_lookup name d = (x, d') \<Longrightarrow> files d' = files d"
  by (auto simp: os_lookup_def dest!: next_faultD split: prod.splits fault.splits option.splits)

lemma os_lookup_Inr: "os_lookup name d = (Inr f, d') \<Longrightarrow> entry d name = Some f"
  by (auto simp: os_lookup_def dest!: next_faultD split: prod.splits fault.splits option.splits)

lemma os_lookup_NotExist: "os_lookup name d = (Inl NotExist, d') \<Longrightarrow> entry d name = None"
  by (auto simp: os_lookup_def dest!: next_faultD split: prod.splits fault.splits option.splits)

lemma os_CreateTemp_entry:
  assumes "os_CreateTemp name d = (x, d')"
  shows "x = Inr () \<and> entry d name = None \<and> entry d' = (entry d)(name \<mapsto> RawFile [])
    \<or> x \<noteq> Inr () \<and> entry d' = entry d"
  using assms
  by (auto simp: os_CreateTemp_def AList.update_conv' dest!: next_faultD
      split: prod.splits fault.splits if_splits)

lemma os_WriteRecord_entry:
  assumes "os_WriteRecord name r d = (x, d')"
  shows "x = Inr () \<and> entry d' = (entry d)(name \<mapsto> RecordFile r)
    \<or> x \<noteq> Inr () \<and> (entry d' = entry d \<or> entry d' = (entry d)(name \<mapsto> TornRecord))"
  using assms
  by (auto simp: os_WriteRecord_def AList.update_conv' dest!: next_faultD
      split: prod.splits fault.splits)

lemma os_Remove_entry:
  assumes "os_Remove name d = (x, d')"
  shows "(x = Inr () \<or> x = Inl NotExist) \<and> entry d' = (entry d)(name := None)
    \<or> x = Inl OsError \<and> entry d' = entry d"
  using assms
  by (auto simp: os_Remove_def AList.delete_conv' dest!: next_faultD
      split: prod.splits fault.splits if_splits)

lemma os_Rename_entry:
  assumes "os_Rename old new d = (x, d')" and "old \<noteq> new"
  shows "x = Inr () \<and> entry d old \<noteq> None \<and> entry d' = (entry d)(old := None, new := entry d old)
    \<or> x \<noteq> Inr () \<and> entry d' = entry d"
  using assms
  by (auto simp: os_Rename_def AList.update_conv' AList.delete_conv' dest!: next_faultD
      split: prod.splits fault.splits option.splits)

lemma os_OpenAppend_entry:
  assumes "os_OpenAppend name d = (x, d')"
  shows "x = Inr () \<and> entry d' = (entry d)(name \<mapsto> (case entry d name of None \<Rightarrow> RawFile [] | Some f \<Rightarrow> f))
    \<or> x \<noteq> Inr () \<and> entry d' = entry d"
  using assms
  by (auto simp: os_OpenAppend_def AList.update_conv' fun_upd_triv dest!: next_faultD
      split: prod.splits fault.splits option.splits if_splits)

lemma os_Append_entry:
  assumes "os_Append name data d = (n, e, d')"
  shows "n \<le> length data \<and> (e = None \<longrightarrow> n = length data)
    \<and> entry d' = (case entry d name of None \<Rightarrow> entry d
        | Some f \<Rightarrow> if n = 0 \<and> e \<noteq> None \<and> entry d' = entry d then entry d
             else (entry d)(name \<mapsto> RawFile (file_bytes f @ take n data)))"
  using assms
  by (auto simp: os_Append_def AList.update_conv' min_def dest!: next_faultD
      split: prod.splits fault.splits option.splits if_splits)

lemma os_ReadDir_Inr: "os_ReadDir d = (Inr ns, d') \<Longrightarrow> ns = sort (map fst (files d)) \<and> files d' = files d"
  by (auto simp: os_ReadDir_def dest!: next_faultD split: prod.splits fault.splits)

end
