(* ===== verification/Store.thy ===== *)
theory Store
  imports Disk
begin

section \<open>The session store (store.go)\<close>

text \<open>
  Every operation of the store over the directory of theory Disk. A store is the directory, the
  writers it has open and the ids it made a record lock for; each operation is one critical
  section of the locks it takes, so an interleaving of operations is a sequence of them. The
  random part of a staged name, which \<open>os.CreateTemp\<close> draws, is the argument \<open>tmp\<close>.
\<close>

subsection \<open>State and names\<close>

record segmentWriter =
  sw_file :: "string option"
  sw_segment :: int
  sw_written :: int

record store =
  st_disk :: disk
  st_open :: "(u64 \<times> segmentWriter) list"
  st_records :: "u64 list"

definition newStore :: "disk \<Rightarrow> (store_error + store)" where
  "newStore d = (case os_call d of
     (Inl e, _) \<Rightarrow> Inl e
   | (Inr _, d) \<Rightarrow> Inr \<lparr>st_disk = d, st_open = [], st_records = []\<rparr>)"

definition recordVersion :: string where "recordVersion = ''v1''"

definition outputSegmentBound :: int where "outputSegmentBound = 4 * 2 ^ 20"

definition recordLock :: "u64 \<Rightarrow> store \<Rightarrow> store" where
  "recordLock n s = s\<lparr>st_records := List.insert n (st_records s)\<rparr>"

definition recordPath :: "u64 \<Rightarrow> string" where
  "recordPath n = recordVersion @ ''-'' @ format_uint n @ ''.json''"

definition itoa :: "int \<Rightarrow> string" where
  "itoa k = (if k < 0 then ''-'' @ format_nat (nat (- k)) else format_nat (nat k))"

definition segmentPath :: "u64 \<Rightarrow> int \<Rightarrow> string" where
  "segmentPath n segment = recordVersion @ ''-'' @ format_uint n @ ''.out'' @ itoa segment"

definition stagedPath :: "u64 \<Rightarrow> string \<Rightarrow> string" where
  "stagedPath n tmp = recordPath n @ ''.'' @ tmp @ ''.next''"

subsection \<open>Publishing and reading a record\<close>

definition syncDir :: "disk \<Rightarrow> (store_error + unit) \<times> disk" where
  "syncDir d = (case os_call d of (Inl e, d) \<Rightarrow> (Inl e, d) | (Inr _, d) \<Rightarrow> os_call d)"

text \<open>The failure paths drop the staged file: \<open>os.Remove(name)\<close>, its own error ignored.\<close>

definition abandon_staged :: "string \<Rightarrow> store_error \<Rightarrow> disk \<Rightarrow> (store_error + unit) \<times> disk" where
  "abandon_staged name e d = (Inl e, snd (os_Remove name d))"

definition publish :: "string \<Rightarrow> sessionRecord \<Rightarrow> bool \<Rightarrow> disk \<Rightarrow> (store_error + unit) \<times> disk" where
  "publish tmp r durable d =
     (let target = recordPath (rec_Session r); name = stagedPath (rec_Session r) tmp
      in case os_CreateTemp name d of
           (Inl e, d) \<Rightarrow> (Inl e, d)
         | (Inr _, d) \<Rightarrow> (case os_WriteRecord name r d of
             (Inl e, d) \<Rightarrow> abandon_staged name e (snd (os_call d))
           | (Inr _, d) \<Rightarrow> (case (if durable then os_call d else (Inr (), d)) of
               (Inl e, d) \<Rightarrow> abandon_staged name e (snd (os_call d))
             | (Inr _, d) \<Rightarrow> (case os_call d of
                 (Inl e, d) \<Rightarrow> abandon_staged name e d
               | (Inr _, d) \<Rightarrow> (case os_Rename name target d of
                   (Inl e, d) \<Rightarrow> abandon_staged name e d
                 | (Inr _, d) \<Rightarrow> if durable then syncDir d else (Inr (), d))))))"

definition store_write :: "string \<Rightarrow> sessionRecord \<Rightarrow> disk \<Rightarrow> (store_error + unit) \<times> disk" where
  "store_write tmp r d = publish tmp r False d"

definition writeDurable :: "string \<Rightarrow> sessionRecord \<Rightarrow> disk \<Rightarrow> (store_error + unit) \<times> disk" where
  "writeDurable tmp r d = publish tmp r True d"

definition store_read :: "u64 \<Rightarrow> disk \<Rightarrow> (store_error + sessionRecord) \<times> disk" where
  "store_read n d = (case os_lookup (recordPath n) d of
     (Inl e, d) \<Rightarrow> (Inl e, d)
   | (Inr (RecordFile r), d) \<Rightarrow>
       if rec_Session r \<noteq> n then (Inl (WrongSession n (rec_Session r)), d) else (Inr r, d)
   | (Inr _, d) \<Rightarrow> (Inl (DoesNotParse n), d))"

definition store_create :: "string \<Rightarrow> sessionRecord \<Rightarrow> store \<Rightarrow> (store_error + unit) \<times> store" where
  "store_create tmp r s =
     (case store_write tmp r (st_disk s) of
        (x, d) \<Rightarrow> (x, (recordLock (rec_Session r) s)\<lparr>st_disk := d\<rparr>))"

text \<open>
  The five record writers have one shape: under the record's lock, read the record, change
  fields, publish it.
\<close>

definition rewrite :: "(string \<Rightarrow> sessionRecord \<Rightarrow> disk \<Rightarrow> (store_error + unit) \<times> disk) \<Rightarrow> string \<Rightarrow> u64
    \<Rightarrow> (sessionRecord \<Rightarrow> sessionRecord) \<Rightarrow> disk \<Rightarrow> (store_error + unit) \<times> disk" where
  "rewrite writer tmp n change d = (case store_read n d of
     (Inl e, d) \<Rightarrow> (Inl e, d)
   | (Inr r, d) \<Rightarrow> writer tmp (change r) d)"

definition update_record :: "(string \<Rightarrow> sessionRecord \<Rightarrow> disk \<Rightarrow> (store_error + unit) \<times> disk) \<Rightarrow> string \<Rightarrow> u64
    \<Rightarrow> (sessionRecord \<Rightarrow> sessionRecord) \<Rightarrow> store \<Rightarrow> (store_error + unit) \<times> store" where
  "update_record writer tmp n change s =
     (case rewrite writer tmp n change (st_disk s) of (x, d) \<Rightarrow> (x, (recordLock n s)\<lparr>st_disk := d\<rparr>))"

definition heldWriter :: "u64 \<Rightarrow> store \<Rightarrow> segmentWriter option" where
  "heldWriter n s = map_of (st_open s) n"

definition mark_record :: "int \<Rightarrow> int option \<Rightarrow> u64 \<Rightarrow> int \<Rightarrow> sessionRecord \<Rightarrow> sessionRecord" where
  "mark_record at exitCode through segment r =
     r\<lparr>rec_EndedThrough := through, rec_Segment := (if segment \<ge> 0 then segment else rec_Segment r),
       rec_EndedAtUnixMs := Some at, rec_ExitCode := exitCode\<rparr>"

definition markEnded :: "string \<Rightarrow> u64 \<Rightarrow> int \<Rightarrow> int option \<Rightarrow> u64 \<Rightarrow> store \<Rightarrow> (store_error + unit) \<times> store" where
  "markEnded tmp n at exitCode through s =
     (let (segment, d) = (case heldWriter n s of
            Some w \<Rightarrow> (case sw_file w of
              Some _ \<Rightarrow> (sw_segment w, snd (os_call (st_disk s)))
            | None \<Rightarrow> (- 1, st_disk s))
          | None \<Rightarrow> (- 1, st_disk s))
      in update_record writeDurable tmp n (mark_record at exitCode through segment) (s\<lparr>st_disk := d\<rparr>))"

definition writerFor :: "u64 \<Rightarrow> store \<Rightarrow> segmentWriter \<times> store" where
  "writerFor n s = (case map_of (st_open s) n of
     Some w \<Rightarrow> (w, s)
   | None \<Rightarrow> (let w = \<lparr>sw_file = None, sw_segment = - 1, sw_written = 0\<rparr>
       in (w, s\<lparr>st_open := AList.update n w (st_open s)\<rparr>)))"

definition setForeground :: "string \<Rightarrow> u64 \<Rightarrow> string \<Rightarrow> string \<Rightarrow> store \<Rightarrow> (store_error + unit) \<times> store" where
  "setForeground tmp n command cwd =
     update_record store_write tmp n (\<lambda>r. r\<lparr>rec_Foreground := command, rec_ForegroundCWD := cwd\<rparr>)"

definition clearStopMark :: "string \<Rightarrow> u64 \<Rightarrow> store \<Rightarrow> (store_error + unit) \<times> store" where
  "clearStopMark tmp n =
     update_record store_write tmp n
       (\<lambda>r. r\<lparr>rec_EndedAtUnixMs := None, rec_ExitCode := None, rec_EndedThrough := 0\<rparr>)"

definition setSize :: "string \<Rightarrow> u64 \<Rightarrow> u16 \<Rightarrow> u16 \<Rightarrow> store \<Rightarrow> (store_error + unit) \<times> store" where
  "setSize tmp n cols rows =
     update_record store_write tmp n (\<lambda>r. r\<lparr>rec_Cols := cols, rec_Rows := rows\<rparr>)"

definition setModes :: "string \<Rightarrow> u64 \<Rightarrow> byte list \<Rightarrow> store \<Rightarrow> (store_error + unit) \<times> store" where
  "setModes tmp n report = update_record store_write tmp n (\<lambda>r. r\<lparr>rec_Modes := report\<rparr>)"

subsection \<open>Appending output\<close>

definition openInto :: "segmentWriter \<Rightarrow> u64 \<Rightarrow> int \<Rightarrow> disk
    \<Rightarrow> (store_error + unit) \<times> segmentWriter \<times> disk" where
  "openInto w n segment d =
     (if segment \<noteq> 0 \<and> segment \<noteq> 1 then (Inl (BadSegment n segment), w, d)
      else case os_OpenAppend (segmentPath n segment) d of
        (Inl e, d) \<Rightarrow> (Inl e, w, d)
      | (Inr _, d) \<Rightarrow> (case os_lookup (segmentPath n segment) d of
          (Inl e, d) \<Rightarrow> (Inl e, w, snd (os_call d))
        | (Inr f, d) \<Rightarrow> (Inr (), \<lparr>sw_file = Some (segmentPath n segment), sw_segment = segment,
             sw_written = int (length (file_bytes f))\<rparr>, d)))"

definition roll :: "string \<Rightarrow> u64 \<Rightarrow> segmentWriter \<Rightarrow> u64 \<Rightarrow> disk
    \<Rightarrow> (store_error + unit) \<times> segmentWriter \<times> disk" where
  "roll tmp n w at d =
     (let nxt = 1 - sw_segment w; d = snd (os_call d); w = w\<lparr>sw_file := None\<rparr>
      in case os_Remove (segmentPath n nxt) d of
           (Inl OsError, d) \<Rightarrow> (Inl OsError, w, d)
         | (_, d) \<Rightarrow> (case rewrite store_write tmp n (\<lambda>r. r\<lparr>rec_Segment := nxt, rec_Written := at\<rparr>) d of
             (Inl e, d) \<Rightarrow> (Inl e, w, d)
           | (Inr _, d) \<Rightarrow> openInto w n nxt d))"

definition ensure_open :: "u64 \<Rightarrow> segmentWriter \<Rightarrow> disk \<Rightarrow> (store_error + unit) \<times> segmentWriter \<times> disk" where
  "ensure_open n w d =
     (if sw_file w \<noteq> None then (Inr (), w, d)
      else case store_read n d of
        (Inl e, d) \<Rightarrow> (Inl e, w, d)
      | (Inr r, d) \<Rightarrow> openInto w n (rec_Segment r) d)"

definition ensure_room :: "string \<Rightarrow> u64 \<Rightarrow> byte list \<Rightarrow> u64 \<Rightarrow> segmentWriter \<Rightarrow> disk
    \<Rightarrow> (store_error + unit) \<times> segmentWriter \<times> disk" where
  "ensure_room tmp n data through w d =
     (if sw_written w + int (length data) > outputSegmentBound \<and> sw_written w > 0
      then roll tmp n w (through - len64 data) d else (Inr (), w, d))"

definition append_into :: "string \<Rightarrow> u64 \<Rightarrow> byte list \<Rightarrow> u64 \<Rightarrow> segmentWriter \<Rightarrow> disk
    \<Rightarrow> (store_error + unit) \<times> segmentWriter \<times> disk" where
  "append_into tmp n data through w d = (case ensure_open n w d of
     (Inl e, w, d) \<Rightarrow> (Inl e, w, d)
   | (Inr _, w, d) \<Rightarrow> (case ensure_room tmp n data through w d of
       (Inl e, w, d) \<Rightarrow> (Inl e, w, d)
     | (Inr _, w, d) \<Rightarrow> (case sw_file w of
         None \<Rightarrow> (Inl OsError, w, d)
       | Some name \<Rightarrow> (case os_Append name data d of (wrote, err, d) \<Rightarrow>
           ((case err of None \<Rightarrow> Inr () | Some e \<Rightarrow> Inl e),
            w\<lparr>sw_written := sw_written w + int wrote\<rparr>, d)))))"

definition store_append :: "string \<Rightarrow> u64 \<Rightarrow> byte list \<Rightarrow> u64 \<Rightarrow> store \<Rightarrow> (store_error + unit) \<times> store" where
  "store_append tmp n data through s =
     (let (w, s) = writerFor n s
      in case append_into tmp n data through w (st_disk s) of
           (x, w', d) \<Rightarrow> (x, s\<lparr>st_disk := d, st_open := AList.update n w' (st_open s)\<rparr>))"

subsection \<open>Reading output back\<close>

definition store_size :: "string \<Rightarrow> disk \<Rightarrow> (store_error + int) \<times> disk" where
  "store_size path d = (case os_lookup path d of
     (Inl NotExist, d) \<Rightarrow> (Inr 0, d)
   | (Inl e, d) \<Rightarrow> (Inl e, d)
   | (Inr f, d) \<Rightarrow> (Inr (int (length (file_bytes f))), d))"

definition store_tail :: "string \<Rightarrow> int \<Rightarrow> disk \<Rightarrow> (store_error + byte list) \<times> disk" where
  "store_tail path at_most d =
     (if at_most \<le> 0 then (Inr [], d)
      else case os_lookup path d of
        (Inl NotExist, d) \<Rightarrow> (Inr [], d)
      | (Inl e, d) \<Rightarrow> (Inl e, d)
      | (Inr f, d) \<Rightarrow> (case os_call d of
          (Inl e, d) \<Rightarrow> (Inl e, snd (os_call d))
        | (Inr _, d) \<Rightarrow> (let sz = int (length (file_bytes f));
              from = (if sz > at_most then sz - at_most else 0);
              amount = (if sz > at_most then at_most else sz)
            in case os_call d of
                 (Inl e, d) \<Rightarrow> (Inl e, snd (os_call d))
               | (Inr _, d) \<Rightarrow> (Inr (take (nat amount) (drop (nat from) (file_bytes f))), snd (os_call d)))))"

definition current_segment :: "u64 \<Rightarrow> sessionRecord \<Rightarrow> store \<Rightarrow> int" where
  "current_segment n r s = (case heldWriter n s of
     Some w \<Rightarrow> if sw_file w \<noteq> None then sw_segment w else rec_Segment r
   | None \<Rightarrow> rec_Segment r)"

definition read_segments :: "u64 \<Rightarrow> sessionRecord \<Rightarrow> int \<Rightarrow> int \<Rightarrow> disk
    \<Rightarrow> (store_error + byte list \<times> u64) \<times> disk" where
  "read_segments n r segment at_most d = (case store_size (segmentPath n segment) d of
     (Inl e, d) \<Rightarrow> (Inl e, d)
   | (Inr sz, d) \<Rightarrow> (case store_tail (segmentPath n segment) at_most d of
       (Inl e, d) \<Rightarrow> (Inl e, d)
     | (Inr newer, d) \<Rightarrow>
         (case store_tail (segmentPath n (1 - segment)) (at_most - int (length newer)) d of
            (Inl e, d) \<Rightarrow> (Inl e, d)
          | (Inr older, d) \<Rightarrow> (Inr (older @ newer, rec_Written r + of_int sz), d))))"

definition store_output :: "u64 \<Rightarrow> int \<Rightarrow> store \<Rightarrow> (store_error + byte list \<times> u64) \<times> store" where
  "store_output n at_most s = (case store_read n (st_disk s) of
     (Inl e, d) \<Rightarrow> (Inl e, s\<lparr>st_disk := d\<rparr>)
   | (Inr r, d) \<Rightarrow> (case read_segments n r (current_segment n r s) at_most d of
       (x, d) \<Rightarrow> (x, s\<lparr>st_disk := d\<rparr>)))"

subsection \<open>Enumerating and removing\<close>

definition has_prefix :: "string \<Rightarrow> string \<Rightarrow> bool" where
  "has_prefix p text \<longleftrightarrow> take (length p) text = p"

definition has_suffix :: "string \<Rightarrow> string \<Rightarrow> bool" where
  "has_suffix q text \<longleftrightarrow> length q \<le> length text \<and> drop (length text - length q) text = q"

definition trim_prefix :: "string \<Rightarrow> string \<Rightarrow> string" where
  "trim_prefix p text = (if has_prefix p text then drop (length p) text else text)"

definition trim_suffix :: "string \<Rightarrow> string \<Rightarrow> string" where
  "trim_suffix q text = (if has_suffix q text then take (length text - length q) text else text)"

definition record_id :: "string \<Rightarrow> u64 option" where
  "record_id name =
     (if \<not> has_prefix (recordVersion @ ''-'') name \<or> \<not> has_suffix ''.json'' name then None
      else parse_uint (trim_suffix ''.json'' (trim_prefix (recordVersion @ ''-'') name)))"

definition store_list :: "disk \<Rightarrow> (store_error + u64 list) \<times> disk" where
  "store_list d = (case os_ReadDir d of
     (Inl e, d) \<Rightarrow> (Inl e, d)
   | (Inr names, d) \<Rightarrow> (Inr (List.map_filter record_id names), d))"

definition drop_entry :: "string \<Rightarrow> disk \<Rightarrow> (store_error + unit) \<times> disk" where
  "drop_entry name d = (case os_Remove name d of
     (Inl NotExist, d) \<Rightarrow> (Inr (), d) | (x, d) \<Rightarrow> (x, d))"

definition remove_files :: "u64 \<Rightarrow> disk \<Rightarrow> (store_error + unit) \<times> disk" where
  "remove_files n d = (case drop_entry (segmentPath n 0) d of
     (Inl e, d) \<Rightarrow> (Inl e, d)
   | (Inr _, d) \<Rightarrow> (case drop_entry (segmentPath n 1) d of
       (Inl e, d) \<Rightarrow> (Inl e, d)
     | (Inr _, d) \<Rightarrow> drop_entry (recordPath n) d))"

definition close_writer :: "segmentWriter \<Rightarrow> disk \<Rightarrow> disk" where
  "close_writer w d = (if sw_file w \<noteq> None then snd (os_call d) else d)"

definition store_remove :: "u64 \<Rightarrow> store \<Rightarrow> (store_error + unit) \<times> store" where
  "store_remove n s =
     (let d = (case map_of (st_open s) n of None \<Rightarrow> st_disk s | Some w \<Rightarrow> close_writer w (st_disk s))
      in case remove_files n d of (x, d) \<Rightarrow>
           (x, (recordLock n s)\<lparr>st_disk := d, st_open := AList.delete n (st_open s)\<rparr>))"

definition store_close :: "store \<Rightarrow> store" where
  "store_close s = s\<lparr>st_disk := fold (close_writer \<circ> snd) (st_open s) (st_disk s), st_open := []\<rparr>"

subsection \<open>Names do not collide\<close>

lemma format_nat_inject [simp]: "format_nat a = format_nat b \<longleftrightarrow> a = b"
  by (metis digits_val_format)

lemma itoa_inject [simp]: "itoa a = itoa b \<longleftrightarrow> a = b"
proof -
  have no_dash: "format_nat k \<noteq> CHR ''-'' # xs" for k xs
    using format_nat_digits [of k] by (cases "format_nat k") (auto simp: is_digit_def)
  show ?thesis
    by (auto simp: itoa_def no_dash no_dash [symmetric])
qed

lemma recordPath_inject [simp]: "recordPath m = recordPath n \<longleftrightarrow> m = n"
  by (simp add: recordPath_def recordVersion_def)

lemma dot_no_digit [simp]: "\<not> is_digit CHR ''.''"
  by (simp add: is_digit_def)

lemma segmentPath_inject [simp]: "segmentPath m a = segmentPath n b \<longleftrightarrow> m = n \<and> a = b"
  by (auto simp: segmentPath_def recordVersion_def format_uint_append_inject)

lemma record_not_segment [simp]: "recordPath m \<noteq> segmentPath n a" "segmentPath n a \<noteq> recordPath m"
  by (auto simp: segmentPath_def recordPath_def recordVersion_def format_uint_append_inject)

lemma staged_not_record [simp]: "stagedPath m tmp \<noteq> recordPath n" "recordPath n \<noteq> stagedPath m tmp"
  by (auto simp: stagedPath_def recordPath_def recordVersion_def format_uint_append_inject)

lemma staged_not_segment [simp]: "stagedPath m tmp \<noteq> segmentPath n a" "segmentPath n a \<noteq> stagedPath m tmp"
  by (auto simp: stagedPath_def segmentPath_def recordPath_def recordVersion_def format_uint_append_inject)

lemma has_suffix_append [simp]: "length q = length q' \<Longrightarrow> has_suffix q (xs @ q') \<longleftrightarrow> q = q'"
  by (auto simp: has_suffix_def)

lemma has_suffix_longer: "has_suffix q xs \<Longrightarrow> \<exists>ys. xs = ys @ q"
  by (metis has_suffix_def append_take_drop_id)

lemma record_id_recordPath [simp]: "record_id (recordPath n) = Some n"
proof -
  have "has_suffix ''.json'' (''v1-'' @ format_uint n @ ''.json'')"
    using has_suffix_append [of "''.json''" "''.json''" "''v1-'' @ format_uint n"] by simp
  moreover have "has_suffix ''.json'' (format_uint n @ ''.json'')" by simp
  ultimately show ?thesis
    by (simp add: record_id_def recordPath_def recordVersion_def has_prefix_def trim_prefix_def
        trim_suffix_def)
qed

lemma record_id_stagedPath [simp]: "record_id (stagedPath n tmp) = None"
proof -
  have "stagedPath n tmp = (recordPath n @ ''.'' @ tmp) @ ''.next''" by (simp add: stagedPath_def)
  then have "\<not> has_suffix ''.json'' (stagedPath n tmp)" by (simp del: append_assoc)
  then show ?thesis by (simp add: record_id_def)
qed

lemma record_id_segmentPath [simp]: "record_id (segmentPath n a) = None"
proof -
  have "\<not> has_suffix ''.json'' (segmentPath n a)"
  proof
    assume "has_suffix ''.json'' (segmentPath n a)"
    then obtain ys where "segmentPath n a = ys @ ''.json''" by (auto dest: has_suffix_longer)
    then have "last (segmentPath n a) = CHR ''n''" by simp
    moreover have "itoa a \<noteq> []" "last (itoa a) \<in> set (format_nat (nat (abs a)))"
      using format_nat_digits [of "nat (abs a)"] by (auto simp: itoa_def)
    ultimately have "CHR ''n'' \<in> set (format_nat (nat (abs a)))" by (simp add: segmentPath_def)
    then show False using format_nat_digits [of "nat (abs a)"] by (auto simp: list_all_iff is_digit_def)
  qed
  then show ?thesis by (simp add: record_id_def)
qed

subsection \<open>Publishing is atomic, whatever fails\<close>

text \<open>
  After a publish, however many of its calls failed and wherever the process died, the record's
  name shows what it showed before or the whole new record, an answer without error means the
  new one, and no name but the staged one is touched besides.
\<close>

lemma abandon_staged_entry:
  assumes "abandon_staged name e d = (x, d')"
  shows "x = Inl e" and "nm \<noteq> name \<Longrightarrow> entry d' nm = entry d nm"
  using assms os_Remove_entry [of name d "fst (os_Remove name d)" "snd (os_Remove name d)"]
  by (auto simp: abandon_staged_def)

lemma os_call_entry [simp]: "entry (snd (os_call d)) = entry d"
  using os_call_files [of d "fst (os_call d)" "snd (os_call d)"] by simp

lemma syncDir_entry: "syncDir d = (x, d') \<Longrightarrow> entry d' = entry d"
  by (auto simp: syncDir_def dest!: os_call_files split: prod.splits sum.splits)

definition published :: "string \<Rightarrow> sessionRecord \<Rightarrow> disk \<Rightarrow> store_error + unit \<Rightarrow> disk \<Rightarrow> bool" where
  "published tmp r d x d' \<longleftrightarrow>
     (\<forall>nm. nm \<noteq> stagedPath (rec_Session r) tmp \<and> nm \<noteq> recordPath (rec_Session r) \<longrightarrow> entry d' nm = entry d nm)
     \<and> (entry d' (recordPath (rec_Session r)) = Some (RecordFile r)
        \<or> x \<noteq> Inr () \<and> entry d' (recordPath (rec_Session r)) = entry d (recordPath (rec_Session r)))
     \<and> (x = Inr () \<longrightarrow> entry d' (stagedPath (rec_Session r) tmp) = entry d (stagedPath (rec_Session r) tmp))"

lemma published_abandon:
  assumes "abandon_staged (stagedPath (rec_Session r) tmp) e d1 = (x, d')"
    and "\<And>nm. nm \<noteq> stagedPath (rec_Session r) tmp \<Longrightarrow> entry d1 nm = entry d nm"
  shows "published tmp r d x d'"
  using abandon_staged_entry [OF assms(1)] assms(2) by (auto simp: published_def)

lemma publish_published:
  assumes "publish tmp r durable d = (x, d')"
  shows "published tmp r d x d'"
proof -
  define name where "name = stagedPath (rec_Session r) tmp"
  define target where "target = recordPath (rec_Session r)"
  have ne: "name \<noteq> target" by (simp add: name_def target_def)
  note ab = published_abandon [of r tmp, folded name_def]
  obtain x1 d1 where 1: "os_CreateTemp name d = (x1, d1)" by fastforce
  show ?thesis
  proof (cases x1)
    case (Inl e)
    then have "x = Inl e" "entry d1 = entry d" "d' = d1"
      using assms 1 os_CreateTemp_entry [OF 1] by (auto simp: publish_def name_def)
    then show ?thesis by (simp add: published_def)
  next
    case (Inr u)
    then have e1: "entry d name = None" "entry d1 = (entry d)(name \<mapsto> RawFile [])"
      using os_CreateTemp_entry [OF 1] by auto
    obtain x2 d2 where 2: "os_WriteRecord name r d1 = (x2, d2)" by fastforce
    have e2: "nm \<noteq> name \<Longrightarrow> entry d2 nm = entry d nm" for nm
      using os_WriteRecord_entry [OF 2] e1 by auto
    show ?thesis
    proof (cases x2)
      case (Inl e)
      then have "abandon_staged name e (snd (os_call d2)) = (x, d')"
        using assms 1 2 Inr by (auto simp: publish_def name_def)
      from ab [OF this] e2 show ?thesis by simp
    next
      case (Inr v)
      note w = this
      then have e2n: "entry d2 name = Some (RecordFile r)" using os_WriteRecord_entry [OF 2] by auto
      obtain x3 d3 where 3: "(if durable then os_call d2 else (Inr (), d2)) = (x3, d3)" by fastforce
      have e3: "entry d3 = entry d2" using 3 os_call_files [of d2 x3 d3] by (auto split: if_splits)
      obtain x4 d4 where 4: "os_call d3 = (x4, d4)" by fastforce
      have e4: "entry d4 = entry d2" using os_call_files [OF 4] e3 by simp
      obtain x5 d5 where 5: "os_Rename name target d4 = (x5, d5)" by fastforce
      note e5 = os_Rename_entry [OF 5 ne]
      show ?thesis
      proof (cases "\<exists>v3 v4 v5. x3 = Inr v3 \<and> x4 = Inr v4 \<and> x5 = Inr v5")
        case True
        then have "(if durable then syncDir d5 else (Inr (), d5)) = (x, d')"
          using assms 1 2 3 4 5 w \<open>x1 = Inr u\<close> by (auto simp: publish_def name_def target_def)
        then have "entry d' = entry d5" using syncDir_entry [of d5 x d'] by (auto split: if_splits)
        with e5 True e4 e2 e2n e1 ne show ?thesis
          by (auto simp: published_def name_def [symmetric] target_def [symmetric])
      next
        case False
        then have "\<exists>e dx. abandon_staged name e dx = (x, d') \<and> entry dx = entry d2"
          using assms 1 2 3 4 5 w \<open>x1 = Inr u\<close> e3 e4 e5
          by (auto simp: publish_def name_def [symmetric] target_def [symmetric] split: sum.splits)
        then show ?thesis using ab e2 by metis
      qed
    qed
  qed
qed

lemma store_read_files: "store_read n d = (x, d') \<Longrightarrow> files d' = files d"
  by (auto simp: store_read_def dest!: os_lookup_files split: prod.splits sum.splits body.splits if_splits)

lemma store_read_Inr:
  "store_read n d = (Inr r, d') \<Longrightarrow> entry d (recordPath n) = Some (RecordFile r) \<and> rec_Session r = n"
  by (auto simp: store_read_def dest!: os_lookup_Inr split: prod.splits sum.splits body.splits if_splits)

lemma rewrite_cases:
  assumes "rewrite writer tmp n change d = (x, d')" and "writer = store_write \<or> writer = writeDurable"
  shows "(\<exists>r. entry d (recordPath n) = Some (RecordFile r) \<and> rec_Session r = n \<and> published tmp (change r) d x d')
    \<or> x \<noteq> Inr () \<and> entry d' = entry d"
proof -
  obtain y d1 where read: "store_read n d = (y, d1)" by fastforce
  show ?thesis
  proof (cases y)
    case (Inl e)
    with assms read store_read_files [OF read] show ?thesis by (auto simp: rewrite_def)
  next
    case (Inr r)
    then have "published tmp (change r) d1 x d'"
      using assms read by (auto simp: rewrite_def store_write_def writeDurable_def intro: publish_published)
    with store_read_Inr [of n d r d1] store_read_files [OF read] read Inr show ?thesis
      by (auto simp: published_def)
  qed
qed

subsection \<open>The two segments as one log\<close>

definition seg_bytes :: "u64 \<Rightarrow> int \<Rightarrow> disk \<Rightarrow> byte list" where
  "seg_bytes n k d = (case entry d (segmentPath n k) of None \<Rightarrow> [] | Some f \<Rightarrow> file_bytes f)"

definition opened :: "u64 \<Rightarrow> sessionRecord \<Rightarrow> segmentWriter \<Rightarrow> disk \<Rightarrow> bool" where
  "opened n r w d \<longleftrightarrow> sw_file w = Some (segmentPath n (rec_Segment r)) \<and> sw_segment w = rec_Segment r
     \<and> sw_written w = int (length (seg_bytes n (rec_Segment r) d))
     \<and> entry d (segmentPath n (rec_Segment r)) \<noteq> None"

definition recorded :: "u64 \<Rightarrow> sessionRecord \<Rightarrow> disk \<Rightarrow> bool" where
  "recorded n r d \<longleftrightarrow> entry d (recordPath n) = Some (RecordFile r) \<and> rec_Session r = n
     \<and> (rec_Segment r = 0 \<or> rec_Segment r = 1)"

definition writing :: "u64 \<Rightarrow> sessionRecord \<Rightarrow> segmentWriter \<Rightarrow> disk \<Rightarrow> bool" where
  "writing n r w d \<longleftrightarrow> recorded n r d \<and> (sw_file w = None \<or> opened n r w d)"

text \<open>
  The segments hold the end of the session's output: the newer one ends it and starts at the
  recorded coordinate, the older one precedes it, and output is missing only when more than the
  bound of one segment is kept.
\<close>

definition segments_hold :: "u64 \<Rightarrow> sessionRecord \<Rightarrow> disk \<Rightarrow> byte list \<Rightarrow> bool" where
  "segments_hold n r d out \<longleftrightarrow>
     (let newer = seg_bytes n (rec_Segment r) d; older = seg_bytes n (1 - rec_Segment r) d
      in unat (rec_Written r) + length newer = length out \<and> length out < 2 ^ 64
         \<and> (\<exists>gone. out = gone @ older @ newer
              \<and> (gone = [] \<or> outputSegmentBound < int (length (older @ newer)))))"

definition untouched :: "u64 \<Rightarrow> string \<Rightarrow> disk \<Rightarrow> disk \<Rightarrow> bool" where
  "untouched n tmp d d' \<longleftrightarrow>
     (\<forall>nm. nm \<noteq> recordPath n \<and> nm \<noteq> stagedPath n tmp \<and> nm \<noteq> segmentPath n 0 \<and> nm \<noteq> segmentPath n 1
        \<longrightarrow> entry d' nm = entry d nm)"

lemma untouched_refl [simp]: "untouched n tmp d d"
  by (simp add: untouched_def)

lemma untouched_trans: "untouched n tmp d d1 \<Longrightarrow> untouched n tmp d1 d2 \<Longrightarrow> untouched n tmp d d2"
  by (simp add: untouched_def)

lemma openInto_cases:
  assumes "openInto w n k d = (x, w', d')"
  shows "(x \<noteq> Inr () \<and> w' = w
      \<or> x = Inr () \<and> w' = \<lparr>sw_file = Some (segmentPath n k), sw_segment = k,
          sw_written = int (length (seg_bytes n k d'))\<rparr>
        \<and> entry d' (segmentPath n k) \<noteq> None)
    \<and> (\<forall>nm. nm \<noteq> segmentPath n k \<longrightarrow> entry d' nm = entry d nm)
    \<and> (\<forall>m j. seg_bytes m j d' = seg_bytes m j d)
    \<and> (k = 0 \<or> k = 1 \<or> entry d' = entry d)"
proof (cases "k = 0 \<or> k = 1")
  case True
  obtain x1 d1 where 1: "os_OpenAppend (segmentPath n k) d = (x1, d1)" by fastforce
  obtain x2 d2 where 2: "os_lookup (segmentPath n k) d1 = (x2, d2)" by fastforce
  have e1: "nm \<noteq> segmentPath n k \<Longrightarrow> entry d1 nm = entry d nm" for nm
    using os_OpenAppend_entry [OF 1] by auto
  have s1: "seg_bytes m j d1 = seg_bytes m j d" for m j
    using os_OpenAppend_entry [OF 1] by (auto simp: seg_bytes_def split: option.splits if_splits)
  have f2: "files d2 = files d1" using os_lookup_files [OF 2] .
  have end2: "entry d' = entry d1"
    using assms True 1 2 f2 by (auto simp: openInto_def split: sum.splits)
  have "x \<noteq> Inr () \<and> w' = w \<or> x = Inr () \<and> w' = \<lparr>sw_file = Some (segmentPath n k), sw_segment = k,
      sw_written = int (length (seg_bytes n k d'))\<rparr> \<and> entry d' (segmentPath n k) \<noteq> None"
  proof (cases "\<exists>f. x2 = Inr f \<and> x1 = Inr ()")
    case True
    then obtain f where f: "x2 = Inr f" "x1 = Inr ()" by blast
    have "entry d1 (segmentPath n k) = Some f" using os_lookup_Inr [of _ d1 f d2] 2 f by simp
    with assms \<open>k = 0 \<or> k = 1\<close> 1 2 f end2 show ?thesis
      by (auto simp: openInto_def seg_bytes_def)
  next
    case False
    with assms True 1 2 show ?thesis by (auto simp: openInto_def split: sum.splits)
  qed
  moreover have "seg_bytes m j d' = seg_bytes m j d" for m j using s1 [of m j] end2 by (simp add: seg_bytes_def)
  ultimately show ?thesis using True end2 e1 by auto
next
  case False
  with assms show ?thesis by (auto simp: openInto_def)
qed

lemma ensure_open_opened:
  assumes "ensure_open n w d = (Inr u, w', d')" and "writing n r w d"
  shows "opened n r w' d' \<and> recorded n r d' \<and> (\<forall>m j. seg_bytes m j d' = seg_bytes m j d) \<and> untouched n tmp d d'"
proof (cases "sw_file w = None")
  case True
  obtain x1 d1 where 1: "store_read n d = (x1, d1)" by fastforce
  with assms(1) True obtain r1 where r1: "x1 = Inr r1" "openInto w n (rec_Segment r1) d1 = (Inr u, w', d')"
    by (cases x1) (auto simp: ensure_open_def)
  then have "r1 = r" and f: "files d1 = files d"
    using store_read_Inr [of n d r1 d1] store_read_files [OF 1] 1 assms(2) by (auto simp: writing_def recorded_def)
  with openInto_cases [OF r1(2)] assms(2) show ?thesis
    by (auto simp: opened_def writing_def recorded_def untouched_def seg_bytes_def)
next
  case False
  with assms show ?thesis by (auto simp: ensure_open_def writing_def)
qed

text \<open>
  A roll that succeeds leaves the record naming the other segment, empty and starting at the
  boundary, and the segment written so far as the older one.
\<close>

lemma roll_rolled:
  assumes "roll tmp n w at d = (Inr u, w', d')" and "opened n r w d" and "recorded n r d"
  defines "r' \<equiv> r\<lparr>rec_Segment := 1 - rec_Segment r, rec_Written := at\<rparr>"
  shows "opened n r' w' d' \<and> recorded n r' d' \<and> seg_bytes n (rec_Segment r') d' = []
    \<and> seg_bytes n (1 - rec_Segment r') d' = seg_bytes n (rec_Segment r) d \<and> untouched n tmp d d'"
proof -
  define nxt where "nxt = 1 - rec_Segment r"
  have seg: "sw_segment w = rec_Segment r" "rec_Segment r = 0 \<or> rec_Segment r = 1"
    using assms(2,3) by (auto simp: opened_def recorded_def)
  obtain x1 d1 where 1: "os_Remove (segmentPath n nxt) (snd (os_call d)) = (x1, d1)" by fastforce
  have "x1 \<noteq> Inl OsError" using assms(1) 1 seg by (auto simp: roll_def Let_def nxt_def)
  then have e1: "entry d1 = (entry d)(segmentPath n nxt := None)" using os_Remove_entry [OF 1] by auto
  obtain x2 d2 where 2: "rewrite store_write tmp n (\<lambda>r. r\<lparr>rec_Segment := nxt, rec_Written := at\<rparr>) d1 = (x2, d2)"
    by fastforce
  have o: "x2 = Inr ()" "openInto (w\<lparr>sw_file := None\<rparr>) n nxt d2 = (Inr u, w', d')"
    using assms(1) 1 2 seg \<open>x1 \<noteq> Inl OsError\<close>
    by (auto simp: roll_def Let_def nxt_def split: sum.splits store_error.splits)
  have "published tmp (r\<lparr>rec_Segment := nxt, rec_Written := at\<rparr>) d1 (Inr ()) d2"
    using rewrite_cases [OF 2] o(1) assms(3) e1 by (auto simp: recorded_def)
  then have e2: "entry d2 (recordPath n) = Some (RecordFile r')"
      "nm \<noteq> recordPath n \<Longrightarrow> nm \<noteq> stagedPath n tmp \<Longrightarrow> entry d2 nm = entry d1 nm" for nm
    using assms(3) by (auto simp: published_def recorded_def r'_def nxt_def)
  have s2: "seg_bytes m j d2 = (if m = n \<and> j = nxt then [] else seg_bytes m j d)" for m j
    using e1 e2(2) [of "segmentPath m j"] by (auto simp: seg_bytes_def)
  note oi = openInto_cases [OF o(2)]
  have k: "nxt = 0 \<and> rec_Segment r = 1 \<or> nxt = 1 \<and> rec_Segment r = 0" using seg(2) by (auto simp: nxt_def)
  have "untouched n tmp d d'" using oi e1 e2(2) k by (auto simp: untouched_def)
  moreover have "entry d' (recordPath n) = Some (RecordFile r')" using oi e2(1) by simp
  moreover have "rec_Session r' = n" "rec_Segment r' = nxt" using assms(3) by (simp_all add: r'_def nxt_def recorded_def)
  ultimately show ?thesis using oi s2 k by (auto simp: opened_def recorded_def)
qed

definition rolls :: "segmentWriter \<Rightarrow> byte list \<Rightarrow> bool" where
  "rolls w data \<longleftrightarrow> sw_written w + int (length data) > outputSegmentBound \<and> sw_written w > 0"

definition after_room :: "segmentWriter \<Rightarrow> byte list \<Rightarrow> u64 \<Rightarrow> sessionRecord \<Rightarrow> sessionRecord" where
  "after_room w data through r = (if rolls w data
     then r\<lparr>rec_Segment := 1 - rec_Segment r, rec_Written := through - len64 data\<rparr> else r)"

lemma ensure_room_opened:
  assumes "ensure_room tmp n data through w d = (Inr u, w', d')" and "opened n r w d" and "recorded n r d"
  defines "r' \<equiv> after_room w data through r"
  shows "opened n r' w' d' \<and> recorded n r' d' \<and> untouched n tmp d d'
    \<and> seg_bytes n (rec_Segment r') d' = (if rolls w data then [] else seg_bytes n (rec_Segment r) d)
    \<and> seg_bytes n (1 - rec_Segment r') d' = (if rolls w data then seg_bytes n (rec_Segment r) d
         else seg_bytes n (1 - rec_Segment r) d)"
proof (cases "rolls w data")
  case True
  with assms(1) have "roll tmp n w (through - len64 data) d = (Inr u, w', d')"
    by (simp add: ensure_room_def rolls_def)
  from roll_rolled [OF this assms(2,3)] True show ?thesis by (simp add: r'_def after_room_def)
next
  case False
  with assms show ?thesis by (auto simp: ensure_room_def rolls_def after_room_def)
qed

lemma append_into_appended:
  assumes "append_into tmp n data through w d = (Inr u, w', d')" and "writing n r w d"
  shows "\<exists>r'. opened n r' w' d' \<and> recorded n r' d' \<and> untouched n tmp d d'
    \<and> (r' = r \<and> seg_bytes n (rec_Segment r) d' = seg_bytes n (rec_Segment r) d @ data
          \<and> seg_bytes n (1 - rec_Segment r) d' = seg_bytes n (1 - rec_Segment r) d
          \<and> (seg_bytes n (rec_Segment r) d = []
              \<or> int (length (seg_bytes n (rec_Segment r) d)) + int (length data) \<le> outputSegmentBound)
        \<or> r' = r\<lparr>rec_Segment := 1 - rec_Segment r, rec_Written := through - len64 data\<rparr>
          \<and> seg_bytes n (rec_Segment r') d' = data
          \<and> seg_bytes n (1 - rec_Segment r') d' = seg_bytes n (rec_Segment r) d
          \<and> int (length (seg_bytes n (rec_Segment r) d)) + int (length data) > outputSegmentBound)"
proof -
  obtain x1 w1 d1 where 1: "ensure_open n w d = (x1, w1, d1)" by (metis prod_cases3)
  obtain x2 w2 d2 where 2: "ensure_room tmp n data through w1 d1 = (x2, w2, d2)" by (metis prod_cases3)
  have x: "x1 = Inr ()" "x2 = Inr ()"
    using assms(1) 1 2 by (auto simp: append_into_def split: sum.splits)
  have o1: "opened n r w1 d1" "recorded n r d1" "untouched n tmp d d1" "seg_bytes m j d1 = seg_bytes m j d" for m j
    using ensure_open_opened [OF 1 [unfolded x(1)] assms(2), of tmp] by auto
  define r' where "r' = after_room w1 data through r"
  note o2 = ensure_room_opened [OF 2 [unfolded x(2)] o1(1,2), folded r'_def, unfolded o1(4)]
  obtain wrote err where 3: "os_Append (segmentPath n (rec_Segment r')) data d2 = (wrote, err, d')"
      and w': "w' = w2\<lparr>sw_written := sw_written w2 + int wrote\<rparr>" and err: "err = None"
    using assms(1) 1 2 x o2 by (auto simp: append_into_def opened_def split: prod.splits option.splits)
  have full: "wrote = length data" and e3: "entry d' = (entry d2)(segmentPath n (rec_Segment r') \<mapsto>
      RawFile (seg_bytes n (rec_Segment r') d2 @ data))"
    using os_Append_entry [OF 3] err o2 by (auto simp: opened_def seg_bytes_def split: option.splits)
  have k: "rec_Segment r' = 0 \<or> rec_Segment r' = 1" using o2 by (simp add: recorded_def)
  have "seg_bytes n (rec_Segment r') d' = seg_bytes n (rec_Segment r') d2 @ data"
    "seg_bytes n (1 - rec_Segment r') d' = seg_bytes n (1 - rec_Segment r') d2"
    using k by (auto simp: seg_bytes_def e3)
  moreover have "opened n r' w' d' \<and> recorded n r' d'"
    using o2 calculation(1) full by (auto simp: opened_def recorded_def w' e3)
  moreover have "untouched n tmp d2 d'" using k by (auto simp: untouched_def e3)
  then have "untouched n tmp d d'" using o1(3) o2 by (blast intro: untouched_trans)
  moreover have "rolls w1 data \<longleftrightarrow> seg_bytes n (rec_Segment r) d \<noteq> []
      \<and> int (length (seg_bytes n (rec_Segment r) d)) + int (length data) > outputSegmentBound"
    using o1(1,4) by (auto simp: rolls_def opened_def)
  ultimately show ?thesis
    using o2 by (cases "rolls w1 data") (auto simp: r'_def after_room_def intro!: exI [of _ r'])
qed

definition stored_log :: "u64 \<Rightarrow> store \<Rightarrow> byte list \<Rightarrow> bool" where
  "stored_log n s out \<longleftrightarrow> (\<exists>r. recorded n r (st_disk s) \<and> segments_hold n r (st_disk s) out
     \<and> (\<forall>w. heldWriter n s = Some w \<longrightarrow> sw_file w = None \<or> opened n r w (st_disk s)))"

lemma segments_hold_append:
  assumes "segments_hold n r d out" and "length out + length data < 2 ^ 64"
    and "seg_bytes n (rec_Segment r) d' = seg_bytes n (rec_Segment r) d @ data"
    and "seg_bytes n (1 - rec_Segment r) d' = seg_bytes n (1 - rec_Segment r) d"
  shows "segments_hold n r d' (out @ data)"
  using assms by (fastforce simp: segments_hold_def Let_def)

lemma segments_hold_roll:
  assumes "segments_hold n r d out" and "length out + length data < 2 ^ 64"
    and "rec_Written r' = of_nat (length out + length data) - len64 data"
    and "seg_bytes n (rec_Segment r') d' = data"
    and "seg_bytes n (1 - rec_Segment r') d' = seg_bytes n (rec_Segment r) d"
    and "int (length (seg_bytes n (rec_Segment r) d)) + int (length data) > outputSegmentBound"
  shows "segments_hold n r' d' (out @ data)"
proof -
  have "unat (rec_Written r') = length out"
    using assms(2,3) by (simp add: unat_of_nat_small)
  with assms show ?thesis by (fastforce simp: segments_hold_def Let_def)
qed

lemma writerFor_disk: "writerFor n s = (w, s') \<Longrightarrow> st_disk s' = st_disk s"
  by (auto simp: writerFor_def Let_def split: option.splits)

lemma stored_log_append:
  assumes "store_append tmp n data (of_nat (length out + length data)) s = (Inr u, s')"
    and "stored_log n s out" and "length out + length data < 2 ^ 64"
  shows "stored_log n s' (out @ data)"
proof -
  obtain r where r: "recorded n r (st_disk s)" "segments_hold n r (st_disk s) out"
      "\<And>w. heldWriter n s = Some w \<Longrightarrow> sw_file w = None \<or> opened n r w (st_disk s)"
    using assms(2) by (auto simp: stored_log_def)
  obtain w s1 where 1: "writerFor n s = (w, s1)" by fastforce
  obtain w' d' where 2: "append_into tmp n data (of_nat (length out + length data)) w (st_disk s) = (Inr u, w', d')"
      and s': "s' = s1\<lparr>st_disk := d', st_open := AList.update n w' (st_open s1)\<rparr>"
    using assms(1) 1 by (auto simp: store_append_def writerFor_disk [OF 1] split: prod.splits)
  have "heldWriter n s = Some w \<or> sw_file w = None"
    using 1 by (auto simp: writerFor_def heldWriter_def Let_def split: option.splits)
  then have "writing n r w (st_disk s)" using r(1) r(3) [of w] by (auto simp: writing_def)
  from append_into_appended [OF 2 this] obtain r' where r': "opened n r' w' d'" "recorded n r' d'"
    and "r' = r \<and> seg_bytes n (rec_Segment r) d' = seg_bytes n (rec_Segment r) (st_disk s) @ data
          \<and> seg_bytes n (1 - rec_Segment r) d' = seg_bytes n (1 - rec_Segment r) (st_disk s)
      \<or> rec_Written r' = of_nat (length out + length data) - len64 data
          \<and> seg_bytes n (rec_Segment r') d' = data
          \<and> seg_bytes n (1 - rec_Segment r') d' = seg_bytes n (rec_Segment r) (st_disk s)
          \<and> int (length (seg_bytes n (rec_Segment r) (st_disk s))) + int (length data) > outputSegmentBound"
    by (elim exE conjE disjE) simp_all
  then have "segments_hold n r' d' (out @ data)"
    using segments_hold_append [OF r(2) assms(3)] segments_hold_roll [OF r(2) assms(3)] by blast
  with r' have "\<exists>r. recorded n r d' \<and> segments_hold n r d' (out @ data) \<and> opened n r w' d'" by blast
  then show ?thesis
    by (auto simp: stored_log_def s' heldWriter_def AList.update_conv')
qed

subsection \<open>What is read back\<close>

lemma store_tail_Inr:
  assumes "store_tail path k d = (Inr bs, d')"
  shows "bs = tail_of (nat k) (case entry d path of None \<Rightarrow> [] | Some f \<Rightarrow> file_bytes f) \<and> files d' = files d"
proof (cases "k \<le> 0")
  case True
  with assms show ?thesis by (simp add: store_tail_def tail_of_def)
next
  case False
  obtain x1 d1 where 1: "os_lookup path d = (x1, d1)" by fastforce
  note f1 = os_lookup_files [OF 1]
  show ?thesis
  proof (cases x1)
    case (Inl e)
    then have "x1 = Inl NotExist" "bs = []" "d' = d1"
      using assms 1 False by (auto simp: store_tail_def split: store_error.splits)
    with os_lookup_NotExist [of path d d1] 1 f1 show ?thesis by (simp add: tail_of_def)
  next
    case (Inr f)
    have e: "entry d path = Some f" using os_lookup_Inr [of path d f d1] 1 Inr by simp
    have "bs = tail_of (nat k) (file_bytes f) \<and> files d' = files d1"
      using assms 1 Inr False os_call_files
      by (auto simp: store_tail_def Let_def tail_of_def nat_diff_distrib split: prod.splits sum.splits if_splits)
         (metis snd_conv prod.collapse os_call_files)+
    with e f1 show ?thesis by simp
  qed
qed

lemma store_size_Inr:
  assumes "store_size path d = (Inr k, d')"
  shows "k = int (length (case entry d path of None \<Rightarrow> [] | Some f \<Rightarrow> file_bytes f)) \<and> files d' = files d"
proof -
  obtain x1 d1 where 1: "os_lookup path d = (x1, d1)" by fastforce
  with assms os_lookup_files [OF 1] os_lookup_Inr [of path d] os_lookup_NotExist [of path d] show ?thesis
    by (cases x1) (auto simp: store_size_def split: store_error.splits)
qed

lemma tail_of_split:
  "tail_of (k - length (tail_of k ys)) xs @ tail_of k ys = tail_of k (xs @ ys)"
  by (cases "k \<le> length ys") (auto simp: tail_of_def)

lemma read_segments_Inr:
  assumes "read_segments n r k m d = (Inr (bs, through), d')" and "0 \<le> m"
  shows "bs = tail_of (nat m) (seg_bytes n (1 - k) d @ seg_bytes n k d)
    \<and> through = rec_Written r + len64 (seg_bytes n k d) \<and> files d' = files d"
proof -
  obtain sz d1 newer d2 older where
    1: "store_size (segmentPath n k) d = (Inr sz, d1)" and
    2: "store_tail (segmentPath n k) m d1 = (Inr newer, d2)" and
    3: "store_tail (segmentPath n (1 - k)) (m - int (length newer)) d2 = (Inr older, d')" and
    r: "bs = older @ newer" "through = rec_Written r + of_int sz"
    using assms(1) by (auto simp: read_segments_def split: prod.splits sum.splits)
  note s1 = store_size_Inr [OF 1, folded seg_bytes_def] and s2 = store_tail_Inr [OF 2, folded seg_bytes_def]
    and s3 = store_tail_Inr [OF 3, folded seg_bytes_def]
  have same: "seg_bytes n j d1 = seg_bytes n j d" "seg_bytes n j d2 = seg_bytes n j d" for j
    using s1 s2 by (simp_all add: seg_bytes_def)
  have nm: "nat (m - int c) = nat m - c" for c using assms(2) by linarith
  have "older = tail_of (nat m - length (tail_of (nat m) (seg_bytes n k d))) (seg_bytes n (1 - k) d)"
    using s2 s3 nm by (simp add: same del: length_tail_of)
  with s1 s2 s3 r show ?thesis by (simp add: same nm tail_of_split del: length_tail_of)
qed

lemma tail_of_append_tail: "m \<le> length ys \<Longrightarrow> tail_of m (xs @ ys) = tail_of m ys"
  by (simp add: tail_of_def)

lemma tail_of_min: "tail_of (min k (length ys)) ys = tail_of k ys"
  by (simp add: tail_of_def min_def)

lemma stored_log_output:
  assumes "stored_log n s out" and "store_output n k s = (Inr (bs, through), s')" and "0 \<le> k"
  shows "unat through = length out \<and> bs = tail_of (length bs) out
    \<and> (k \<le> outputSegmentBound \<longrightarrow> bs = tail_of (nat k) out)
    \<and> s' = s\<lparr>st_disk := st_disk s'\<rparr> \<and> files (st_disk s') = files (st_disk s)"
proof -
  obtain r where r: "recorded n r (st_disk s)" "segments_hold n r (st_disk s) out"
      "\<And>w. heldWriter n s = Some w \<Longrightarrow> sw_file w = None \<or> opened n r w (st_disk s)"
    using assms(1) by (auto simp: stored_log_def)
  obtain r1 d1 where 1: "store_read n (st_disk s) = (Inr r1, d1)"
    using assms(2) by (auto simp: store_output_def split: prod.splits sum.splits)
  have "r1 = r" using store_read_Inr [OF 1] r(1) by (simp add: recorded_def)
  moreover have "current_segment n r s = rec_Segment r"
    using r(3) by (auto simp: current_segment_def opened_def split: option.splits)
  ultimately obtain d' where 2: "read_segments n r (rec_Segment r) k d1 = (Inr (bs, through), d')"
      and s': "s' = s\<lparr>st_disk := d'\<rparr>"
    using assms(2) 1 by (auto simp: store_output_def split: prod.splits)
  define older where "older = seg_bytes n (1 - rec_Segment r) (st_disk s)"
  define newer where "newer = seg_bytes n (rec_Segment r) (st_disk s)"
  have f1: "files d1 = files (st_disk s)" using store_read_files [OF 1] .
  then have bs: "bs = tail_of (nat k) (older @ newer)" "through = rec_Written r + len64 newer"
      "files d' = files (st_disk s)"
    using read_segments_Inr [OF 2 assms(3)] by (auto simp: older_def newer_def seg_bytes_def)
  obtain gone where g: "out = gone @ older @ newer" "gone = [] \<or> outputSegmentBound < int (length (older @ newer))"
      "unat (rec_Written r) + length newer = length out" "length out < 2 ^ 64"
    using r(2) by (auto simp: segments_hold_def older_def newer_def Let_def)
  have "unat through = length out" using bs(2) g(3,4) by (simp add: unat_add_len)
  moreover have "bs = tail_of (length bs) out"
    using g(1) bs(1) tail_of_append_tail [of "length bs" "older @ newer" gone]
      tail_of_min [of "nat k" "older @ newer"] by simp
  moreover have "bs = tail_of (nat k) out" if "k \<le> outputSegmentBound"
    using that g(1,2) bs(1) tail_of_append_tail [of "nat k" "older @ newer" gone] by auto
  ultimately show ?thesis using s' bs(3) by simp
qed

subsection \<open>Sessions do not touch each other's files\<close>

definition writer_named :: "u64 \<Rightarrow> segmentWriter \<Rightarrow> bool" where
  "writer_named n w \<longleftrightarrow> sw_file w = None
     \<or> (sw_segment w = 0 \<or> sw_segment w = 1) \<and> sw_file w = Some (segmentPath n (sw_segment w))"

definition store_ok :: "store \<Rightarrow> bool" where
  "store_ok s \<longleftrightarrow> (\<forall>n w. map_of (st_open s) n = Some w \<longrightarrow> writer_named n w)"

lemma published_untouched:
  assumes "published tmp r d x d'"
  shows "untouched (rec_Session r) tmp d d'"
    and "seg_bytes m j d' = seg_bytes m j d"
  using assms by (auto simp: published_def untouched_def seg_bytes_def)

lemma rewrite_untouched:
  assumes "rewrite writer tmp n change d = (x, d')" and "writer = store_write \<or> writer = writeDurable"
    and "\<And>r. rec_Session (change r) = rec_Session r"
  shows "untouched n tmp d d'"
  using rewrite_cases [OF assms(1,2)] assms(3) published_untouched(1) by (metis untouched_def)

lemma openInto_untouched:
  assumes "openInto w n k d = (x, w', d')" and "writer_named n w"
  shows "untouched n tmp d d' \<and> writer_named n w'"
proof (cases "k = 0 \<or> k = 1")
  case True
  with openInto_cases [OF assms(1)] have "untouched n tmp d d'" by (auto simp: untouched_def)
  moreover have "w' = w \<or> sw_file w' = Some (segmentPath n k) \<and> sw_segment w' = k"
    using openInto_cases [OF assms(1)] by auto
  ultimately show ?thesis using assms(2) True by (auto simp: writer_named_def)
next
  case False
  with assms show ?thesis by (auto simp: openInto_def)
qed

lemma openInto_file: "openInto w n k d = (Inr u, w', d') \<Longrightarrow> sw_file w' = Some (segmentPath n k)"
  by (drule openInto_cases) simp

lemma roll_untouched:
  assumes "roll tmp n w at d = (x, w', d')" and "sw_segment w = 0 \<or> sw_segment w = 1"
  shows "untouched n tmp d d' \<and> writer_named n w'"
proof -
  define nxt where "nxt = 1 - sw_segment w"
  have k: "nxt = 0 \<or> nxt = 1" using assms(2) by (auto simp: nxt_def)
  obtain x1 d1 where 1: "os_Remove (segmentPath n nxt) (snd (os_call d)) = (x1, d1)" by fastforce
  have u1: "untouched n tmp d d1" using os_Remove_entry [OF 1] k by (auto simp: untouched_def)
  obtain x2 d2 where 2: "rewrite store_write tmp n (\<lambda>r. r\<lparr>rec_Segment := nxt, rec_Written := at\<rparr>) d1 = (x2, d2)"
    by fastforce
  have u2: "untouched n tmp d1 d2" using rewrite_untouched [OF 2] by simp
  obtain x3 w3 d3 where 3: "openInto (w\<lparr>sw_file := None\<rparr>) n nxt d2 = (x3, w3, d3)" by (metis prod_cases3)
  have named: "writer_named n (w\<lparr>sw_file := None\<rparr>)" by (simp add: writer_named_def)
  have u3: "untouched n tmp d2 d3 \<and> writer_named n w3" using openInto_untouched [OF 3 named] .
  have "d' = d1 \<and> w' = w\<lparr>sw_file := None\<rparr> \<or> d' = d2 \<and> w' = w\<lparr>sw_file := None\<rparr> \<or> d' = d3 \<and> w' = w3"
    using assms(1) 1 2 3 by (auto simp: roll_def Let_def nxt_def split: sum.splits store_error.splits)
  with u1 u2 u3 named show ?thesis by (blast intro: untouched_trans)
qed

lemma append_into_untouched:
  assumes "append_into tmp n data through w d = (x, w', d')" and "writer_named n w"
  shows "untouched n tmp d d' \<and> writer_named n w'"
proof -
  obtain x1 w1 d1 where 1: "ensure_open n w d = (x1, w1, d1)" by (metis prod_cases3)
  obtain y d0 where 0: "store_read n d = (y, d0)" by fastforce
  have u0: "untouched n tmp d d0" using store_read_files [OF 0] by (simp add: untouched_def)
  have u1: "untouched n tmp d d1 \<and> writer_named n w1"
    using 1 0 u0 assms(2) openInto_untouched [of w n _ d0 x1 w1 d1 tmp]
    by (auto simp: ensure_open_def split: if_splits sum.splits intro: untouched_trans)
  obtain x2 w2 d2 where 2: "ensure_room tmp n data through w1 d1 = (x2, w2, d2)" by (metis prod_cases3)
  have u2: "untouched n tmp d1 d2 \<and> writer_named n w2" if "sw_file w1 \<noteq> None"
    using 2 that u1 roll_untouched [of tmp n w1 "through - len64 data" d1 x2 w2 d2]
    by (auto simp: ensure_room_def writer_named_def split: if_splits)
  have o1: "x1 = Inr () \<Longrightarrow> sw_file w1 \<noteq> None"
    using 1 0 by (auto simp: ensure_open_def dest: openInto_file split: if_splits sum.splits)
  show ?thesis
  proof (cases "x1 = Inr () \<and> x2 = Inr () \<and> sw_file w2 \<noteq> None")
    case True
    then obtain name where name: "sw_file w2 = Some name" by auto
    obtain wrote err where 3: "os_Append name data d2 = (wrote, err, d')"
      and w': "w' = w2\<lparr>sw_written := sw_written w2 + int wrote\<rparr>"
      using assms(1) 1 2 True name by (auto simp: append_into_def split: prod.splits)
    have named: "\<exists>k. (k = 0 \<or> k = 1) \<and> name = segmentPath n k"
      using u2 o1 True name by (auto simp: writer_named_def)
    have "untouched n tmp d2 d'"
      using os_Append_entry [OF 3] named by (auto simp: untouched_def split: option.splits if_splits)
    with u1 u2 o1 True w' show ?thesis by (auto simp: writer_named_def intro: untouched_trans)
  next
    case False
    then have "d' = d1 \<and> w' = w1 \<and> x1 \<noteq> Inr () \<or> d' = d2 \<and> w' = w2 \<and> x1 = Inr ()"
      using assms(1) 1 2 by (auto simp: append_into_def split: sum.splits option.splits)
    with u1 u2 o1 show ?thesis by (blast intro: untouched_trans)
  qed
qed

end
