(* ===== verification/StoreLog.thy ===== *)
theory StoreLog
  imports Store
begin

section \<open>The store as a log that outlives the process\<close>

text \<open>
  Sequences of store operations of all sessions, as the daemon's goroutines issue them, and what
  they leave to be read: the output of one session survives whatever the others do and whichever
  record writes of its own fail; a record is always an old or a new whole one; a removal that
  stops half way can be taken up again; the listing is the set of sessions recorded.
\<close>

subsection \<open>Operations as steps\<close>

datatype record_write =
    WriteForeground string string
  | WriteClear
  | WriteSize u16 u16
  | WriteModes "byte list"
  | WriteMark int "int option" u64

fun store_rewrite :: "string \<Rightarrow> u64 \<Rightarrow> record_write \<Rightarrow> store \<Rightarrow> (store_error + unit) \<times> store" where
  "store_rewrite tmp n (WriteForeground command cwd) s = setForeground tmp n command cwd s"
| "store_rewrite tmp n WriteClear s = clearStopMark tmp n s"
| "store_rewrite tmp n (WriteSize cols rows) s = setSize tmp n cols rows s"
| "store_rewrite tmp n (WriteModes report) s = setModes tmp n report s"
| "store_rewrite tmp n (WriteMark at exitCode through) s = markEnded tmp n at exitCode through s"

text \<open>What each writer means to do to the record.\<close>

fun intended :: "record_write \<Rightarrow> sessionRecord \<Rightarrow> sessionRecord" where
  "intended (WriteForeground command cwd) r = r\<lparr>rec_Foreground := command, rec_ForegroundCWD := cwd\<rparr>"
| "intended WriteClear r = r\<lparr>rec_EndedAtUnixMs := None, rec_ExitCode := None, rec_EndedThrough := 0\<rparr>"
| "intended (WriteSize cols rows) r = r\<lparr>rec_Cols := cols, rec_Rows := rows\<rparr>"
| "intended (WriteModes report) r = r\<lparr>rec_Modes := report\<rparr>"
| "intended (WriteMark at exitCode through) r =
     r\<lparr>rec_EndedThrough := through, rec_EndedAtUnixMs := Some at, rec_ExitCode := exitCode\<rparr>"

datatype store_op =
    StCreate sessionRecord
  | StWrite u64 record_write
  | StAppend u64 "byte list" u64
  | StRemove u64
  | StOutput u64 int
  | StClose

fun store_step :: "string \<Rightarrow> store \<Rightarrow> store_op \<Rightarrow> (store_error + unit) \<times> store" where
  "store_step tmp s (StCreate r) = store_create tmp r s"
| "store_step tmp s (StWrite n w) = store_rewrite tmp n w s"
| "store_step tmp s (StAppend n data through) = store_append tmp n data through s"
| "store_step tmp s (StRemove n) = store_remove n s"
| "store_step tmp s (StOutput n k) = (case store_output n k s of (x, s) \<Rightarrow> (map_sum id (\<lambda>_. ()) x, s))"
| "store_step tmp s StClose = (Inr (), store_close s)"

subsection \<open>Record writes\<close>

text \<open>The record of a session as a reader finds it, and the one a rewrite of it produces.\<close>

definition shown :: "u64 \<Rightarrow> store \<Rightarrow> sessionRecord option" where
  "shown n s = (case entry (st_disk s) (recordPath n) of
     Some (RecordFile r) \<Rightarrow> if rec_Session r = n then Some r else None | _ \<Rightarrow> None)"

definition held_segment_agrees :: "u64 \<Rightarrow> store \<Rightarrow> bool" where
  "held_segment_agrees n s \<longleftrightarrow> (\<forall>w r. heldWriter n s = Some w \<longrightarrow> sw_file w \<noteq> None \<longrightarrow> shown n s = Some r
     \<longrightarrow> sw_segment w = rec_Segment r)"

lemma recordLock_frame [simp]:
  "st_disk (recordLock n s) = st_disk s" "st_open (recordLock n s) = st_open s"
  by (simp_all add: recordLock_def)

definition record_written :: "string \<Rightarrow> u64 \<Rightarrow> (sessionRecord \<Rightarrow> sessionRecord) \<Rightarrow> store \<Rightarrow> store_error + unit \<Rightarrow> store \<Rightarrow> bool" where
  "record_written tmp n change s x s' \<longleftrightarrow> st_open s' = st_open s
     \<and> ((\<exists>r. shown n s = Some r \<and> published tmp (change r) (st_disk s) x (st_disk s'))
        \<or> x \<noteq> Inr () \<and> entry (st_disk s') = entry (st_disk s))"

lemma update_record_written:
  assumes "update_record writer tmp n change s = (x, s')" and "writer = store_write \<or> writer = writeDurable"
  shows "record_written tmp n change s x s'"
proof -
  obtain d where d: "rewrite writer tmp n change (st_disk s) = (x, d)"
      and s': "s' = (recordLock n s)\<lparr>st_disk := d\<rparr>"
    using assms(1) by (auto simp: update_record_def split: prod.splits)
  with rewrite_cases [OF d assms(2)] show ?thesis
    by (auto simp: record_written_def shown_def)
qed

lemma markEnded_written:
  assumes "markEnded tmp n at exitCode through s = (x, s')"
  shows "\<exists>k. record_written tmp n (mark_record at exitCode through k) s x s'
    \<and> (k = - 1 \<or> (\<exists>w. heldWriter n s = Some w \<and> sw_file w \<noteq> None \<and> k = sw_segment w))"
proof -
  define kd where "kd = (case heldWriter n s of
      Some w \<Rightarrow> (case sw_file w of
        Some _ \<Rightarrow> (sw_segment w, snd (os_call (st_disk s)))
      | None \<Rightarrow> (- 1, st_disk s))
    | None \<Rightarrow> (- 1, st_disk s))"
  have k: "fst kd = - 1 \<or> (\<exists>w. heldWriter n s = Some w \<and> sw_file w \<noteq> None \<and> fst kd = sw_segment w)"
    by (simp add: kd_def split: option.splits)
  have d: "entry (snd kd) = entry (st_disk s)"
    by (simp add: kd_def split: option.splits)
  have "update_record writeDurable tmp n (mark_record at exitCode through (fst kd)) (s\<lparr>st_disk := snd kd\<rparr>) = (x, s')"
    using assms unfolding markEnded_def kd_def [symmetric] by (simp add: split_beta Let_def)
  from update_record_written [OF this] have "record_written tmp n (mark_record at exitCode through (fst kd)) s x s'"
    using d by (simp add: record_written_def shown_def published_def)
  with k show ?thesis by blast
qed

text \<open>Every writer is a rewrite of the record by what it intends.\<close>

lemma store_rewrite_unmarked:
  assumes "store_rewrite tmp n w s = (x, s')" and "\<And>at exitCode through. w \<noteq> WriteMark at exitCode through"
  shows "record_written tmp n (intended w) s x s'"
proof -
  have "update_record store_write tmp n (intended w) s = (x, s')"
    using assms(1) by (cases w)
      (simp_all add: assms(2) setForeground_def clearStopMark_def setSize_def setModes_def update_record_def
        rewrite_def split: prod.splits sum.splits)
  then show ?thesis by (rule update_record_written) simp
qed

lemma store_rewrite_written:
  assumes "store_rewrite tmp n w s = (x, s')" and "held_segment_agrees n s"
  shows "record_written tmp n (intended w) s x s'"
proof (cases w)
  case (WriteMark at exitCode through)
  then obtain k where k: "record_written tmp n (mark_record at exitCode through k) s x s'"
      "k = - 1 \<or> (\<exists>w. heldWriter n s = Some w \<and> sw_file w \<noteq> None \<and> k = sw_segment w)"
    using assms(1) markEnded_written by fastforce
  have "mark_record at exitCode through k r = intended w r" if "shown n s = Some r" for r
  proof -
    have "k = - 1 \<or> k = rec_Segment r"
      using k(2) assms(2) that unfolding held_segment_agrees_def by blast
    then show ?thesis by (cases r) (auto simp: mark_record_def WriteMark)
  qed
  with k(1) show ?thesis unfolding record_written_def by metis
qed (use store_rewrite_unmarked [OF assms(1)] in auto)

lemma intended_frame [simp]:
  "rec_Session (intended w r) = rec_Session r" "rec_Segment (intended w r) = rec_Segment r"
  "rec_Written (intended w r) = rec_Written r"
  by (cases w; simp)+

subsection \<open>One session's output under everyone's operations\<close>

fun op_session :: "store_op \<Rightarrow> u64 option" where
  "op_session (StCreate r) = Some (rec_Session r)"
| "op_session (StWrite n _) = Some n"
| "op_session (StAppend n _ _) = Some n"
| "op_session (StRemove n) = Some n"
| "op_session (StOutput n _) = Some n"
| "op_session StClose = None"

lemma drop_entry_entry:
  assumes "drop_entry name d = (x, d')"
  shows "x = Inr () \<and> entry d' = (entry d)(name := None) \<or> x \<noteq> Inr () \<and> entry d' = entry d"
proof -
  obtain y d1 where 1: "os_Remove name d = (y, d1)" by fastforce
  with os_Remove_entry [OF 1] assms show ?thesis
    by (auto simp: drop_entry_def split: sum.splits store_error.splits)
qed

text \<open>The removal goes output first, record last, and stops at the first call that fails.\<close>

lemma remove_files_entry:
  assumes "remove_files n d = (x, d')"
  shows "(x = Inr () \<and> entry d' = (entry d)(segmentPath n 0 := None, segmentPath n 1 := None, recordPath n := None))
    \<or> (x \<noteq> Inr () \<and> entry d' (recordPath n) = entry d (recordPath n) \<and> untouched n tmp d d')"
proof -
  obtain x1 d1 where 1: "drop_entry (segmentPath n 0) d = (x1, d1)" by fastforce
  obtain x2 d2 where 2: "drop_entry (segmentPath n 1) d1 = (x2, d2)" by fastforce
  obtain x3 d3 where 3: "drop_entry (recordPath n) d2 = (x3, d3)" by fastforce
  note e = drop_entry_entry [OF 1] drop_entry_entry [OF 2] drop_entry_entry [OF 3]
  have "x1 \<noteq> Inr () \<and> x = x1 \<and> d' = d1 \<or> x1 = Inr () \<and> x2 \<noteq> Inr () \<and> x = x2 \<and> d' = d2
      \<or> x1 = Inr () \<and> x2 = Inr () \<and> x = x3 \<and> d' = d3"
    using assms 1 2 3 by (cases x1; cases x2) (auto simp: remove_files_def)
  then consider "x1 \<noteq> Inr ()" "x = x1" "d' = d1" | "x1 = Inr ()" "x2 \<noteq> Inr ()" "x = x2" "d' = d2"
    | "x1 = Inr ()" "x2 = Inr ()" "x = x3" "d' = d3" by blast
  then show ?thesis
  proof cases
    case 3
    then show ?thesis using e by (cases "x3 = Inr ()") (simp_all add: untouched_def fun_eq_iff)
  qed (use e in \<open>simp_all add: untouched_def\<close>)
qed

lemma remove_files_untouched:
  assumes "remove_files n d = (x, d')"
  shows "untouched n tmp d d'"
  using remove_files_entry [OF assms, of tmp] by (auto simp: untouched_def)

lemma close_writer_entry [simp]: "entry (close_writer w d) = entry d"
  by (simp add: close_writer_def)

lemma fold_close_entry [simp]: "entry (fold (close_writer \<circ> snd) ws d) = entry d"
  by (induction ws arbitrary: d) simp_all

lemma store_output_entry:
  assumes "store_output n k s = (x, s')"
  shows "st_open s' = st_open s \<and> entry (st_disk s') = entry (st_disk s)"
proof -
  have tail: "store_tail path m d = (y, d') \<Longrightarrow> entry d' = entry d" for path m d y d'
    by (auto simp: store_tail_def Let_def dest!: os_lookup_files os_call_files
        split: if_splits prod.splits sum.splits store_error.splits)
  have size: "store_size path d = (y, d') \<Longrightarrow> entry d' = entry d" for path d y d'
    by (auto simp: store_size_def dest!: os_lookup_files split: prod.splits sum.splits store_error.splits)
  have segs: "read_segments n r j m d = (y, d') \<Longrightarrow> entry d' = entry d" for r j m d y d'
    by (auto simp: read_segments_def dest!: tail size split: prod.splits sum.splits)
  show ?thesis
    using assms by (auto simp: store_output_def dest!: segs store_read_files split: prod.splits sum.splits)
qed

text \<open>What a step of one session leaves alone.\<close>

definition leaves_alone :: "u64 \<Rightarrow> string \<Rightarrow> store \<Rightarrow> store \<Rightarrow> bool" where
  "leaves_alone n tmp s s' \<longleftrightarrow> untouched n tmp (st_disk s) (st_disk s')
     \<and> (\<forall>m. m \<noteq> n \<longrightarrow> heldWriter m s' = heldWriter m s)"

lemma record_written_leaves:
  assumes "record_written tmp n change s x s'" and "\<And>r. rec_Session (change r) = rec_Session r"
  shows "leaves_alone n tmp s s'"
proof -
  have "rec_Session r = n" if "shown n s = Some r" for r
    using that by (auto simp: shown_def split: option.splits body.splits if_splits)
  with assms published_untouched(1) have "untouched n tmp (st_disk s) (st_disk s')"
    by (auto simp: record_written_def untouched_def published_def)
  with assms(1) show ?thesis by (simp add: leaves_alone_def record_written_def heldWriter_def)
qed

lemma store_rewrite_leaves:
  assumes "store_rewrite tmp n w s = (x, s')"
  shows "leaves_alone n tmp s s' \<and> st_open s' = st_open s"
proof -
  have "\<exists>change. record_written tmp n change s x s' \<and> (\<forall>r. rec_Session (change r) = rec_Session r)"
  proof (cases w)
    case (WriteMark at exitCode through)
    then obtain k where "record_written tmp n (mark_record at exitCode through k) s x s'"
      using assms markEnded_written by fastforce
    moreover have "rec_Session (mark_record at exitCode through k r) = rec_Session r" for r
      by (simp add: mark_record_def)
    ultimately show ?thesis by blast
  qed (use store_rewrite_unmarked [OF assms] intended_frame(1) in blast)+
  then obtain change where c: "record_written tmp n change s x s'"
      "\<And>r. rec_Session (change r) = rec_Session r" by blast
  with record_written_leaves [OF c] show ?thesis by (simp add: record_written_def)
qed

lemma store_append_leaves:
  assumes "store_append tmp n data through s = (x, s')" and "store_ok s"
  shows "leaves_alone n tmp s s' \<and> store_ok s'"
proof -
  obtain w s1 where 1: "writerFor n s = (w, s1)" by fastforce
  have w: "writer_named n w" "\<And>m. m \<noteq> n \<Longrightarrow> map_of (st_open s1) m = map_of (st_open s) m"
    using 1 assms(2) by (auto simp: writerFor_def store_ok_def writer_named_def Let_def AList.update_conv'
        split: option.splits)
  obtain w' d' where 2: "append_into tmp n data through w (st_disk s) = (x, w', d')"
      and s': "s' = s1\<lparr>st_disk := d', st_open := AList.update n w' (st_open s1)\<rparr>"
    using assms(1) 1 by (auto simp: store_append_def writerFor_disk [OF 1] split: prod.splits)
  from append_into_untouched [OF 2 w(1)] w(2) assms(2) show ?thesis
    by (auto simp: leaves_alone_def s' heldWriter_def store_ok_def AList.update_conv' split: if_splits)
qed

lemma store_remove_leaves:
  assumes "store_remove n s = (x, s')"
  shows "leaves_alone n tmp s s'"
proof -
  define d where "d = (case map_of (st_open s) n of None \<Rightarrow> st_disk s | Some w \<Rightarrow> close_writer w (st_disk s))"
  obtain d' where d': "remove_files n d = (x, d')"
      and s': "s' = (recordLock n s)\<lparr>st_disk := d', st_open := AList.delete n (st_open s)\<rparr>"
    using assms by (auto simp: store_remove_def d_def Let_def split: prod.splits)
  have "entry d = entry (st_disk s)" by (simp add: d_def split: option.splits)
  with remove_files_untouched [OF d', of tmp] show ?thesis
    by (simp add: leaves_alone_def s' heldWriter_def untouched_def AList.delete_conv')
qed

lemma store_create_leaves:
  assumes "store_create tmp r s = (x, s')"
  shows "leaves_alone (rec_Session r) tmp s s' \<and> st_open s' = st_open s"
proof -
  obtain d' where d': "publish tmp r False (st_disk s) = (x, d')"
      and s': "s' = (recordLock (rec_Session r) s)\<lparr>st_disk := d'\<rparr>"
    using assms by (auto simp: store_create_def store_write_def split: prod.splits)
  from published_untouched(1) [OF publish_published [OF d']] show ?thesis
    by (simp add: leaves_alone_def s' heldWriter_def)
qed

lemma store_ok_open: "store_ok s \<Longrightarrow> st_open s' = st_open s \<Longrightarrow> store_ok s'"
  by (simp add: store_ok_def)

lemma store_step_leaves:
  assumes "store_step tmp s a = (x, s')" and "store_ok s" and "op_session a = Some n"
  shows "leaves_alone n tmp s s' \<and> store_ok s'"
proof (cases a)
  case (StCreate r)
  with assms store_create_leaves [of tmp r s x s'] show ?thesis by (auto intro: store_ok_open)
next
  case (StWrite m w)
  with assms store_rewrite_leaves [of tmp m w s x s'] show ?thesis by (auto intro: store_ok_open)
next
  case (StAppend m data through)
  with assms store_append_leaves [of tmp m data through s x s'] show ?thesis by auto
next
  case (StRemove m)
  with assms(1) have "st_open s' = AList.delete m (st_open s)"
    by (auto simp: store_remove_def Let_def split: prod.splits)
  with StRemove assms store_remove_leaves [of m s x s' tmp] show ?thesis
    by (auto simp: store_ok_def AList.delete_conv' split: if_splits)
next
  case (StOutput m k)
  with assms(1) obtain y where "store_output m k s = (y, s')" by (auto split: prod.splits)
  from store_output_entry [OF this] assms StOutput show ?thesis
    by (auto simp: leaves_alone_def untouched_def heldWriter_def intro: store_ok_open)
qed (use assms in auto)

lemma stored_log_frame:
  assumes "stored_log n s out" and "leaves_alone m tmp s s'" and "m \<noteq> n"
  shows "stored_log n s' out"
proof -
  obtain r where r: "recorded n r (st_disk s)" "segments_hold n r (st_disk s) out"
      "\<And>w. heldWriter n s = Some w \<Longrightarrow> sw_file w = None \<or> opened n r w (st_disk s)"
    using assms(1) by (auto simp: stored_log_def)
  have e: "entry (st_disk s') (recordPath n) = entry (st_disk s) (recordPath n)"
      "entry (st_disk s') (segmentPath n k) = entry (st_disk s) (segmentPath n k)" for k
    using assms(2,3) by (auto simp: leaves_alone_def untouched_def stagedPath_def recordPath_def segmentPath_def
        recordVersion_def format_uint_append_inject)
  then have b: "seg_bytes n k (st_disk s') = seg_bytes n k (st_disk s)" for k by (simp add: seg_bytes_def)
  have "heldWriter n s' = heldWriter n s" using assms(2,3) by (simp add: leaves_alone_def)
  with r e b show ?thesis
    by (auto simp: stored_log_def recorded_def segments_hold_def opened_def intro!: exI [of _ r])
qed

text \<open>A session's own record writes, failing or not, keep its output.\<close>

lemma stored_log_agrees: "stored_log n s out \<Longrightarrow> held_segment_agrees n s"
  by (fastforce simp: stored_log_def held_segment_agrees_def shown_def recorded_def opened_def)

lemma stored_log_rewrite:
  assumes "store_rewrite tmp n w s = (x, s')" and "stored_log n s out"
  shows "stored_log n s' out"
proof -
  obtain r where r: "recorded n r (st_disk s)" "segments_hold n r (st_disk s) out"
      "\<And>w. heldWriter n s = Some w \<Longrightarrow> sw_file w = None \<or> opened n r w (st_disk s)"
    using assms(2) by (auto simp: stored_log_def)
  have sh: "shown n s = Some r" and id: "rec_Session r = n" using r(1) by (simp_all add: shown_def recorded_def)
  note w = store_rewrite_written [OF assms(1) stored_log_agrees [OF assms(2)]]
  have e: "entry (st_disk s') (recordPath n) = entry (st_disk s) (recordPath n)
       \<or> entry (st_disk s') (recordPath n) = Some (RecordFile (intended w r))"
      "entry (st_disk s') (segmentPath n k) = entry (st_disk s) (segmentPath n k)" for k
    using w id by (auto simp: record_written_def sh published_def)
  then have b: "seg_bytes n k (st_disk s') = seg_bytes n k (st_disk s)" for k by (simp add: seg_bytes_def)
  have h: "heldWriter n s' = heldWriter n s" using w by (simp add: heldWriter_def record_written_def)
  obtain r' where "recorded n r' (st_disk s')" "r' = r \<or> r' = intended w r"
    using e(1) r(1) id by (auto simp: recorded_def)
  then show ?thesis
    using r(2,3) h b e(2)
    by (auto simp: stored_log_def segments_hold_def opened_def intro!: exI [of _ r'])
qed

lemma stored_log_entries:
  assumes "stored_log n s out" and "entry (st_disk s') = entry (st_disk s)"
    and "heldWriter n s' = heldWriter n s \<or> heldWriter n s' = None"
  shows "stored_log n s' out"
  using assms
  by (auto simp: stored_log_def recorded_def segments_hold_def opened_def seg_bytes_def)

text \<open>
  A run of operations that keeps one session: the session is neither created anew nor removed,
  and each of its appends continues the output and succeeds. Everything else, and every failure
  of everything else, is allowed.
\<close>

fun store_run :: "store \<Rightarrow> (string \<times> store_op) list \<Rightarrow> store" where
  "store_run s [] = s"
| "store_run s ((tmp, a) # as) = store_run (snd (store_step tmp s a)) as"

fun run_keeps :: "u64 \<Rightarrow> store \<Rightarrow> byte list \<Rightarrow> (string \<times> store_op) list \<Rightarrow> bool" where
  "run_keeps n s out [] = True"
| "run_keeps n s out ((tmp, a) # as) =
     (case store_step tmp s a of (x, s') \<Rightarrow>
       (case a of
          StAppend m data through \<Rightarrow>
            if m = n then x = Inr () \<and> length out + length data < 2 ^ 64
              \<and> through = of_nat (length out + length data) \<and> run_keeps n s' (out @ data) as
            else run_keeps n s' out as
        | StCreate r \<Rightarrow> rec_Session r \<noteq> n \<and> run_keeps n s' out as
        | StRemove m \<Rightarrow> m \<noteq> n \<and> run_keeps n s' out as
        | _ \<Rightarrow> run_keeps n s' out as))"

fun appended_to :: "u64 \<Rightarrow> store_op \<Rightarrow> byte list" where
  "appended_to n (StAppend m data _) = (if m = n then data else [])"
| "appended_to n _ = []"

definition run_appends :: "u64 \<Rightarrow> (string \<times> store_op) list \<Rightarrow> byte list" where
  "run_appends n as = concat (map (appended_to n \<circ> snd) as)"

lemma store_close_facts:
  "entry (st_disk (store_close s)) = entry (st_disk s)" "heldWriter n (store_close s) = None"
  "store_ok (store_close s)"
  by (simp_all add: store_close_def heldWriter_def store_ok_def)

lemma run_keeps_step:
  assumes "stored_log n s out" and "store_ok s" and "run_keeps n s out ((tmp, a) # as)"
    and "store_step tmp s a = (x, s')"
  shows "stored_log n s' (out @ appended_to n a) \<and> store_ok s' \<and> run_keeps n s' (out @ appended_to n a) as"
proof (cases "op_session a")
  case None
  then have "a = StClose" by (cases a) auto
  with assms show ?thesis
    using stored_log_entries [OF assms(1), of "store_close s"] by (auto simp: store_close_facts)
next
  case (Some m)
  note lv = store_step_leaves [OF assms(4,2) Some]
  show ?thesis
  proof (cases "m = n")
    case False
    with stored_log_frame [OF assms(1) _ False] lv have "stored_log n s' out" by blast
    with False lv Some assms(3,4) show ?thesis by (cases a) auto
  next
    case True
    show ?thesis
    proof (cases a)
      case (StAppend m' data through)
      with True Some assms(3,4) have "through = of_nat (length out + length data)" "m' = n" "x = Inr ()"
          "length out + length data < 2 ^ 64" "run_keeps n s' (out @ data) as" by auto
      with stored_log_append [of tmp n data out s "()" s'] assms(1,4) StAppend lv show ?thesis by simp
    next
      case (StWrite m' w)
      with stored_log_rewrite [of tmp n w s x s' out] True Some assms lv show ?thesis by auto
    next
      case (StOutput m' k)
      with assms(4) obtain y where "store_output m' k s = (y, s')" by (auto split: prod.splits)
      from store_output_entry [OF this] stored_log_entries [OF assms(1), of s'] StOutput assms(3,4) lv
      show ?thesis by (auto simp: heldWriter_def)
    qed (use True Some assms(3,4) in auto)
  qed
qed

lemma run_keeps_log:
  assumes "stored_log n s out" and "store_ok s" and "run_keeps n s out as"
  shows "stored_log n (store_run s as) (out @ run_appends n as)"
  using assms
proof (induction as arbitrary: s out)
  case Nil
  then show ?case by (simp add: run_appends_def)
next
  case (Cons ta as)
  obtain tmp a where ta: "ta = (tmp, a)" by fastforce
  obtain x s' where st: "store_step tmp s a = (x, s')" by fastforce
  from run_keeps_step [OF Cons.prems(1,2) _ st, of as] Cons.prems(3) ta
  have "stored_log n s' (out @ appended_to n a)" "store_ok s'" "run_keeps n s' (out @ appended_to n a) as" by auto
  from Cons.IH [OF this] show ?case by (simp add: ta st run_appends_def)
qed

subsection \<open>On a disk without faults every operation answers\<close>

named_theorems healthy_simps \<open>calls that cannot fail\<close>

lemma os_call_healthy [healthy_simps]: "faults d = [] \<Longrightarrow> os_call d = (Inr (), d)"
  by (simp add: os_call_def)

lemma os_lookup_healthy [healthy_simps]:
  "faults d = [] \<Longrightarrow> os_lookup name d = ((case entry d name of None \<Rightarrow> Inl NotExist | Some f \<Rightarrow> Inr f), d)"
  by (simp add: os_lookup_def split: option.splits)

lemma store_read_healthy [healthy_simps]:
  "faults d = [] \<Longrightarrow> recorded n r d \<Longrightarrow> store_read n d = (Inr r, d)"
  by (simp add: store_read_def recorded_def healthy_simps)

lemma store_tail_healthy [healthy_simps]:
  "faults d = [] \<Longrightarrow> store_tail path k d =
     (Inr (tail_of (nat k) (case entry d path of None \<Rightarrow> [] | Some f \<Rightarrow> file_bytes f)), d)"
  by (auto simp: store_tail_def healthy_simps Let_def tail_of_def nat_diff_distrib split: option.splits)

lemma store_size_healthy [healthy_simps]:
  "faults d = [] \<Longrightarrow> store_size path d =
     (Inr (int (length (case entry d path of None \<Rightarrow> [] | Some f \<Rightarrow> file_bytes f))), d)"
  by (auto simp: store_size_def healthy_simps split: option.splits)

lemma store_output_healthy:
  assumes "stored_log n s out" and "faults (st_disk s) = []"
  shows "\<exists>v. store_output n k s = (Inr v, s)"
proof -
  obtain r where "recorded n r (st_disk s)" using assms(1) by (auto simp: stored_log_def)
  with assms(2) show ?thesis
    by (cases s) (simp add: store_output_def read_segments_def healthy_simps)
qed

lemma publish_healthy:
  assumes "faults d = []" and "entry d (stagedPath (rec_Session r) tmp) = None"
  shows "\<exists>d'. publish tmp r durable d = (Inr (), d') \<and> faults d' = []"
  using assms
  by (simp add: publish_def os_CreateTemp_def os_WriteRecord_def os_Rename_def os_call_def syncDir_def
      AList.update_conv' AList.delete_conv' Let_def)

lemma openInto_healthy:
  assumes "faults d = []" and "k = 0 \<or> k = 1"
  shows "\<exists>w' d'. openInto w n k d = (Inr (), w', d') \<and> faults d' = [] \<and> sw_file w' = Some (segmentPath n k)"
  using assms
  by (auto simp: openInto_def os_OpenAppend_def os_lookup_def AList.update_conv' split: option.splits)

lemma rewrite_healthy:
  assumes "faults d = []" and "recorded n r d" and "entry d (stagedPath n tmp) = None"
    and "rec_Session (change r) = rec_Session r"
  shows "\<exists>d'. rewrite store_write tmp n change d = (Inr (), d') \<and> faults d' = []"
proof -
  have "rec_Session r = n" using assms(2) by (simp add: recorded_def)
  with publish_healthy [OF assms(1), of "change r" tmp False] assms(3,4) show ?thesis
    by (simp add: rewrite_def store_write_def store_read_healthy [OF assms(1,2)])
qed

lemma roll_healthy:
  assumes "faults d = []" and "recorded n r d" and "entry d (stagedPath n tmp) = None"
    and "sw_segment w = 0 \<or> sw_segment w = 1"
  shows "\<exists>w' d'. roll tmp n w at d = (Inr (), w', d') \<and> faults d' = [] \<and> sw_file w' \<noteq> None"
proof -
  define nxt where "nxt = 1 - sw_segment w"
  define d1 where "d1 = snd (os_Remove (segmentPath n nxt) d)"
  have 1: "fst (os_Remove (segmentPath n nxt) d) \<noteq> Inl OsError" "faults d1 = []"
      "entry d1 = (entry d)(segmentPath n nxt := None)"
    using assms(1) by (auto simp: d1_def os_Remove_def AList.delete_conv')
  obtain d2 where 2: "rewrite store_write tmp n (\<lambda>r. r\<lparr>rec_Segment := nxt, rec_Written := at\<rparr>) d1 = (Inr (), d2)"
      "faults d2 = []"
    using rewrite_healthy [of d1 n r tmp "\<lambda>r. r\<lparr>rec_Segment := nxt, rec_Written := at\<rparr>"] 1 assms(2,3)
    by (auto simp: recorded_def)
  obtain w' d' where 3: "openInto (w\<lparr>sw_file := None\<rparr>) n nxt d2 = (Inr (), w', d')" "faults d' = []" "sw_file w' \<noteq> None"
    using openInto_healthy [OF 2(2), of nxt "w\<lparr>sw_file := None\<rparr>" n] assms(4) by (auto simp: nxt_def)
  from 1(1) 2 3 show ?thesis
    by (cases "os_Remove (segmentPath n nxt) d"; cases "fst (os_Remove (segmentPath n nxt) d)";
        cases "projl (fst (os_Remove (segmentPath n nxt) d))")
       (auto simp: roll_def Let_def nxt_def [symmetric] os_call_healthy assms(1) d1_def)
qed

lemma store_append_healthy:
  assumes "stored_log n s out" and "store_ok s" and "faults (st_disk s) = []"
    and "entry (st_disk s) (stagedPath n tmp) = None"
  shows "\<exists>s'. store_append tmp n data through s = (Inr (), s')"
proof -
  obtain r where r: "recorded n r (st_disk s)" using assms(1) by (auto simp: stored_log_def)
  then have seg: "rec_Segment r = 0 \<or> rec_Segment r = 1" by (simp add: recorded_def)
  obtain w s1 where 1: "writerFor n s = (w, s1)" by fastforce
  have w: "writer_named n w"
    using 1 assms(2) by (auto simp: writerFor_def store_ok_def writer_named_def Let_def split: option.splits)
  obtain w1 d1 where 2: "ensure_open n w (st_disk s) = (Inr (), w1, d1)" "faults d1 = []" "sw_file w1 \<noteq> None"
    using openInto_healthy [OF assms(3), of "rec_Segment r" w n] seg assms(3)
    by (cases "sw_file w") (auto simp: ensure_open_def store_read_healthy [OF assms(3) r])
  have u: "writer_named n w1 \<and> recorded n r d1 \<and> entry d1 (stagedPath n tmp) = None"
  proof (cases "sw_file w = None")
    case True
    with 2(1) r assms(3) have "openInto w n (rec_Segment r) (st_disk s) = (Inr (), w1, d1)"
      by (simp add: ensure_open_def healthy_simps)
    from openInto_cases [OF this] openInto_untouched [OF this w, of tmp] r assms(4) show ?thesis
      by (auto simp: recorded_def)
  qed (use 2(1) w r assms(4) in \<open>auto simp: ensure_open_def\<close>)
  then have "sw_segment w1 = 0 \<or> sw_segment w1 = 1" using 2(3) by (auto simp: writer_named_def)
  with roll_healthy [OF 2(2), of n r tmp w1 "through - len64 data"] u 2 obtain w2 d2 where
    3: "ensure_room tmp n data through w1 d1 = (Inr (), w2, d2)" "faults d2 = []" "sw_file w2 \<noteq> None"
    by (cases "rolls w1 data") (auto simp: ensure_room_def rolls_def)
  with 2 have "fst (append_into tmp n data through w (st_disk s)) = Inr ()"
    by (auto simp: append_into_def os_Append_def Let_def)
  with 1 show ?thesis
    by (auto simp: store_append_def writerFor_disk [OF 1] split: prod.splits)
qed

subsection \<open>From creation to the next process\<close>

text \<open>What the next process opens: the directory as it was left, and nothing held.\<close>

definition reopened :: "store \<Rightarrow> store" where
  "reopened s = \<lparr>st_disk = (st_disk s)\<lparr>faults := []\<rparr>, st_open = [], st_records = []\<rparr>"

definition creates_fresh :: "sessionRecord \<Rightarrow> store \<Rightarrow> bool" where
  "creates_fresh r s \<longleftrightarrow> rec_Segment r = 0 \<and> rec_Written r = 0 \<and> heldWriter (rec_Session r) s = None
     \<and> entry (st_disk s) (segmentPath (rec_Session r) 0) = None
     \<and> entry (st_disk s) (segmentPath (rec_Session r) 1) = None"

lemma store_create_log:
  assumes "store_create tmp r s = (Inr u, s')" and "creates_fresh r s"
  shows "stored_log (rec_Session r) s' []"
proof -
  obtain d' where d': "publish tmp r False (st_disk s) = (Inr (), d')"
      and s': "s' = (recordLock (rec_Session r) s)\<lparr>st_disk := d'\<rparr>"
    using assms(1) by (auto simp: store_create_def store_write_def split: prod.splits)
  from publish_published [OF d'] assms(2) show ?thesis
    by (auto simp: stored_log_def recorded_def segments_hold_def seg_bytes_def published_def s'
        creates_fresh_def heldWriter_def)
qed

lemma stored_log_reopened: "stored_log n s out \<Longrightarrow> stored_log n (reopened s) out"
  by (rule stored_log_entries) (auto simp: reopened_def heldWriter_def)

lemma stored_log_read:
  assumes "stored_log n s out" and "faults (st_disk s) = []" and "0 \<le> k" and "k \<le> outputSegmentBound"
  shows "fst (store_output n k s) = Inr (tail_of (nat k) out, len64 out)"
proof -
  obtain bs through where out: "store_output n k s = (Inr (bs, through), s)"
    using store_output_healthy [OF assms(1,2), of k] by auto
  from stored_log_output [OF assms(1) out assms(3)] assms(4)
  have "bs = tail_of (nat k) out" "unat through = length out" by auto
  moreover have "through = of_nat (unat through)" by simp
  ultimately show ?thesis by (simp add: out)
qed

text \<open>C9. A session's output outlives its process. After the record of a session was created,
  whatever operations all sessions issue in whatever order and whichever of them fail, as long as
  this session's appends succeed and it is not removed: the next process reads exactly the last
  bytes of everything appended, as many as it asks for up to one segment, and the coordinate it
  is told is the number of bytes the session ever appended, rotations included.\<close>

theorem stored_output_survives:
  assumes "store_create tmp r s = (Inr (), s0)" and "creates_fresh r s" and "store_ok s"
    and "run_keeps (rec_Session r) s0 [] as" and "0 \<le> k" and "k \<le> outputSegmentBound"
  shows "fst (store_output (rec_Session r) k (reopened (store_run s0 as)))
    = Inr (tail_of (nat k) (run_appends (rec_Session r) as), len64 (run_appends (rec_Session r) as))"
proof -
  let ?n = "rec_Session r" and ?s = "reopened (store_run s0 as)"
  have "store_ok s0" using store_create_leaves [OF assms(1)] assms(3) by (auto intro: store_ok_open)
  then have "stored_log ?n (store_run s0 as) (run_appends ?n as)"
    using run_keeps_log [OF store_create_log [OF assms(1,2)] _ assms(4)] by simp
  then have "stored_log ?n ?s (run_appends ?n as)" by (rule stored_log_reopened)
  then show ?thesis by (rule stored_log_read [OF _ _ assms(5,6)]) (simp add: reopened_def)
qed

definition sample_record :: sessionRecord where
  "sample_record = \<lparr>rec_Session = 7, rec_PaneID = ''p'', rec_WindowLabel = '''', rec_CWD = ''/'',
     rec_Command = ''sh -l'', rec_Environment = [], rec_Cols = 80, rec_Rows = 24, rec_StartedAtUnixMs = 0,
     rec_EndedAtUnixMs = None, rec_ExitCode = None, rec_EndedThrough = 0, rec_Segment = 0, rec_Written = 0,
     rec_Foreground = '''', rec_ForegroundCWD = '''', rec_Modes = []\<rparr>"

definition empty_store :: store where
  "empty_store = \<lparr>st_disk = \<lparr>files = [], faults = []\<rparr>, st_open = [], st_records = []\<rparr>"

definition created_store :: store where
  "created_store = \<lparr>st_disk = \<lparr>files = [(recordPath 7, RecordFile sample_record)], faults = []\<rparr>,
     st_open = [], st_records = [7]\<rparr>"

lemma sample_created: "store_create ''x'' sample_record empty_store = (Inr (), created_store)"
  by (simp add: store_create_def store_write_def publish_def empty_store_def sample_record_def created_store_def
      os_CreateTemp_def os_WriteRecord_def os_call_def os_Rename_def recordLock_def)

lemma created_store_log: "stored_log 7 created_store []"
  using store_create_log [OF sample_created]
  by (simp add: creates_fresh_def sample_record_def empty_store_def heldWriter_def)

theorem stored_output_survives_witness:
  "fst (store_output 7 2 (reopened (store_run created_store [(''y'', StAppend 7 [1, 2, 3] 3)]))) = Inr ([2, 3], 3)"
proof -
  let ?as = "[(''y'', StAppend 7 [1, 2, 3] 3)] :: (string \<times> store_op) list"
  have id: "rec_Session sample_record = 7" by (simp add: sample_record_def)
  have fresh: "creates_fresh sample_record empty_store" "store_ok empty_store"
    by (simp_all add: creates_fresh_def sample_record_def empty_store_def heldWriter_def store_ok_def)
  obtain s' where "store_append ''y'' 7 [1, 2, 3] 3 created_store = (Inr (), s')"
    using store_append_healthy [OF created_store_log, of "''y''" "[1, 2, 3]" 3]
    by (auto simp: created_store_def store_ok_def)
  then have keeps: "run_keeps (rec_Session sample_record) created_store [] ?as" by (simp add: id)
  have k: "0 \<le> (2 :: int)" "2 \<le> outputSegmentBound" by (simp_all add: outputSegmentBound_def)
  from stored_output_survives [OF sample_created fresh keeps k] show ?thesis
    by (simp add: id run_appends_def tail_of_def)
qed

text \<open>C10. A record is never torn. Whatever of its calls fail and wherever the process dies in it, a
  record write leaves for every session the record it had, except that the session it is for may
  show the intended new one instead; and when the write answers no error it does.\<close>

theorem record_write_atomic:
  assumes "store_rewrite tmp n w s = (x, s')" and "held_segment_agrees n s"
  shows "(\<forall>m. m \<noteq> n \<longrightarrow> shown m s' = shown m s)
    \<and> (shown n s' = shown n s \<or> shown n s' = map_option (intended w) (shown n s))
    \<and> (x = Inr () \<longrightarrow> shown n s \<noteq> None \<and> shown n s' = map_option (intended w) (shown n s))"
proof -
  have id: "rec_Session r = n" if "shown n s = Some r" for r
    using that by (auto simp: shown_def split: option.splits body.splits if_splits)
  note w = store_rewrite_written [OF assms]
  show ?thesis
  proof (cases "\<exists>r. shown n s = Some r \<and> published tmp (intended w r) (st_disk s) x (st_disk s')")
    case True
    then obtain r where r: "shown n s = Some r" "published tmp (intended w r) (st_disk s) x (st_disk s')" by blast
    have "m \<noteq> n \<Longrightarrow> shown m s' = shown m s" for m
      using r id [OF r(1)] by (auto simp: shown_def published_def)
    moreover have "entry (st_disk s') (recordPath n) = Some (RecordFile (intended w r))
        \<or> x \<noteq> Inr () \<and> entry (st_disk s') (recordPath n) = entry (st_disk s) (recordPath n)"
      using r(2) id [OF r(1)] by (auto simp: published_def)
    ultimately show ?thesis using r(1) id [OF r(1)] by (auto simp: shown_def)
  next
    case False
    with w have "x \<noteq> Inr ()" "entry (st_disk s') = entry (st_disk s)" by (auto simp: record_written_def)
    then show ?thesis by (simp add: shown_def)
  qed
qed

theorem record_write_atomic_witness:
  "shown 7 (snd (store_rewrite ''y'' 7 (WriteSize 100 30) created_store))
     = Some (sample_record\<lparr>rec_Cols := 100, rec_Rows := 30\<rparr>)
   \<and> shown 7 (snd (store_rewrite ''y'' 7 (WriteSize 100 30)
        (created_store\<lparr>st_disk := (st_disk created_store)\<lparr>faults := [Passes, Passes, Fails 3, Crashed]\<rparr>\<rparr>)))
     \<in> {Some sample_record, Some (sample_record\<lparr>rec_Cols := 100, rec_Rows := 30\<rparr>)}"
proof -
  let ?w = "WriteSize 100 30"
  let ?f = "created_store\<lparr>st_disk := (st_disk created_store)\<lparr>faults := [Passes, Passes, Fails 3, Crashed]\<rparr>\<rparr>"
  have agrees: "held_segment_agrees 7 created_store" "held_segment_agrees 7 ?f"
    by (simp_all add: held_segment_agrees_def heldWriter_def created_store_def)
  have sh: "shown 7 created_store = Some sample_record" "shown 7 ?f = Some sample_record"
    by (simp_all add: shown_def created_store_def sample_record_def)
  obtain x s' where 1: "store_rewrite ''y'' 7 ?w created_store = (x, s')" by fastforce
  obtain y t' where 2: "store_rewrite ''y'' 7 ?w ?f = (y, t')" by fastforce
  have "x = Inr ()"
    using 1 by (auto simp: setSize_def update_record_def rewrite_def store_read_def os_lookup_def created_store_def
        store_write_def publish_def os_CreateTemp_def os_WriteRecord_def os_call_def os_Rename_def sample_record_def)
  with record_write_atomic [OF 1 agrees(1)] record_write_atomic [OF 2 agrees(2)] 1 2 sh show ?thesis by auto
qed

text \<open>C11. A removal can always be taken up again. Whatever of its calls fail and wherever the process
  dies in it: the removal touches no other session, an answer without error means nothing of the
  session is left, and while any output of the session is left its record is left too, so the
  listing still names it and a later removal finds it.\<close>

theorem remove_is_resumable:
  assumes "store_remove n s = (x, s')"
  shows "leaves_alone n tmp s s' \<and> heldWriter n s' = None
    \<and> (x = Inr () \<longrightarrow> entry (st_disk s') (recordPath n) = None
         \<and> entry (st_disk s') (segmentPath n 0) = None \<and> entry (st_disk s') (segmentPath n 1) = None)
    \<and> (entry (st_disk s') (segmentPath n 0) \<noteq> None \<or> entry (st_disk s') (segmentPath n 1) \<noteq> None
         \<longrightarrow> entry (st_disk s') (recordPath n) = entry (st_disk s) (recordPath n))"
proof -
  define d where "d = (case map_of (st_open s) n of None \<Rightarrow> st_disk s | Some w \<Rightarrow> close_writer w (st_disk s))"
  obtain d' where d': "remove_files n d = (x, d')"
      and s': "s' = (recordLock n s)\<lparr>st_disk := d', st_open := AList.delete n (st_open s)\<rparr>"
    using assms by (auto simp: store_remove_def d_def Let_def split: prod.splits)
  have "entry d = entry (st_disk s)" by (simp add: d_def split: option.splits)
  with remove_files_entry [OF d', of tmp] store_remove_leaves [OF assms, of tmp] show ?thesis
    by (auto simp: s' heldWriter_def AList.delete_conv')
qed

theorem remove_is_resumable_witness:
  "\<exists>x s'. store_remove 7 created_store = (x, s') \<and> entry (st_disk s') (recordPath 7) = None"
proof -
  obtain x s' where 1: "store_remove 7 created_store = (x, s')" by fastforce
  then have "x = Inr ()"
    by (auto simp: store_remove_def remove_files_def drop_entry_def os_Remove_def created_store_def Let_def)
  with remove_is_resumable [OF 1, of "[]"] 1 show ?thesis by blast
qed

subsection \<open>The listing\<close>

text \<open>
  \<open>names_ok\<close>: no foreign file of the directory parses as a record's name. (A name such as
  \<open>v1-007.json\<close> would.) The store itself never makes one.
\<close>

definition names_ok :: "disk \<Rightarrow> bool" where
  "names_ok d \<longleftrightarrow> (\<forall>name n. entry d name \<noteq> None \<longrightarrow> record_id name = Some n \<longrightarrow> name = recordPath n)"

lemma names_ok_untouched:
  assumes "names_ok d" and "untouched n tmp d d'"
  shows "names_ok d'"
proof -
  have "name = recordPath m" if "entry d' name \<noteq> None" "record_id name = Some m" for name m
  proof (cases "name = recordPath n \<or> name = stagedPath n tmp \<or> name = segmentPath n 0 \<or> name = segmentPath n 1")
    case True
    with that(2) show ?thesis by auto
  next
    case False
    with assms that show ?thesis by (auto simp: names_ok_def untouched_def)
  qed
  then show ?thesis by (simp add: names_ok_def)
qed

lemma names_ok_run:
  assumes "names_ok (st_disk s)" and "store_ok s"
  shows "names_ok (st_disk (store_run s as)) \<and> store_ok (store_run s as)"
  using assms
proof (induction as arbitrary: s)
  case (Cons ta as)
  obtain tmp a where ta: "ta = (tmp, a)" by fastforce
  obtain x s' where st: "store_step tmp s a = (x, s')" by fastforce
  have "names_ok (st_disk s') \<and> store_ok s'"
  proof (cases "op_session a")
    case None
    then have "a = StClose" by (cases a) auto
    with st Cons.prems show ?thesis by (auto simp: names_ok_def store_close_facts)
  next
    case (Some n)
    with store_step_leaves [OF st Cons.prems(2)] Cons.prems(1) show ?thesis
      by (auto simp: leaves_alone_def intro: names_ok_untouched)
  qed
  with Cons.IH [of s'] show ?case by (simp add: ta st)
qed simp

text \<open>The listing names exactly the sessions with a record. After any sequence of operations
  with any failures, staged leftovers and output files included, what the listing answers is the
  set of ids whose record's name is in the directory.\<close>

lemma list_is_exact:
  assumes "names_ok (st_disk s)" and "store_ok s"
    and "store_list (st_disk (store_run s as)) = (Inr ids, d')"
  shows "set ids = {n. entry (st_disk (store_run s as)) (recordPath n) \<noteq> None}"
proof -
  let ?d = "st_disk (store_run s as)"
  obtain names d1 where 1: "os_ReadDir ?d = (Inr names, d1)" and ids: "ids = List.map_filter record_id names"
    using assms(3) by (auto simp: store_list_def split: prod.splits sum.splits)
  have names: "set names = {name. entry ?d name \<noteq> None}"
    using os_ReadDir_Inr [OF 1] by (simp add: dom_map_of_conv_image_fst [symmetric] dom_def)
  have "set ids = {n. \<exists>name \<in> set names. record_id name = Some n}"
    by (force simp: ids List.map_filter_def)
  moreover have ok: "names_ok ?d" using names_ok_run [OF assms(1,2)] by simp
  have "(\<exists>name \<in> set names. record_id name = Some n) \<longleftrightarrow> entry ?d (recordPath n) \<noteq> None" for n
  proof
    assume "\<exists>name \<in> set names. record_id name = Some n"
    then show "entry ?d (recordPath n) \<noteq> None" using ok unfolding names names_ok_def by blast
  next
    assume "entry ?d (recordPath n) \<noteq> None"
    then show "\<exists>name \<in> set names. record_id name = Some n"
      unfolding names by (intro bexI [of _ "recordPath n"]) simp_all
  qed
  ultimately show ?thesis by simp
qed

lemma list_is_exact_witness:
  "set (projr (fst (store_list (st_disk (store_run empty_store [(''x'', StCreate sample_record)]))))) = {7}"
proof -
  let ?s = "store_run empty_store [(''x'', StCreate sample_record)]"
  have s: "?s = created_store" by (simp add: sample_created)
  obtain ids d' where l: "store_list (st_disk ?s) = (Inr ids, d')"
    unfolding s by (auto simp: store_list_def os_ReadDir_def created_store_def)
  have ok: "names_ok (st_disk empty_store)" "store_ok empty_store"
    by (simp_all add: names_ok_def store_ok_def empty_store_def)
  have "set ids = {n. entry (st_disk ?s) (recordPath n) \<noteq> None}" using list_is_exact [OF ok l] .
  also have "\<dots> = {7}" by (auto simp: sample_created created_store_def split: if_splits)
  finally show ?thesis unfolding l by simp
qed

end
