(* ===== verification/Sink.thy ===== *)
theory Sink
  imports Feed StoreLog
begin

section \<open>The feed's sink is the store (session.go, storeFeedFor)\<close>

text \<open>
  What the feed relies on in the function it hands its chunks to: a call that succeeds, with a
  chunk that continues what is held, holds the chunk too. The store's \<open>append\<close> provides it for
  every session, so a feed that drained has put everything it accepted where the next process
  reads it.
\<close>

text \<open>Chunks that continue each other from a coordinate on, each naming the coordinate it ends at.\<close>

fun contiguous :: "nat \<Rightarrow> chunk list \<Rightarrow> bool" where
  "contiguous at [] = True"
| "contiguous at (c # cs) \<longleftrightarrow> at + length (chunk_data c) < 2 ^ 64
     \<and> chunk_through c = of_nat (at + length (chunk_data c)) \<and> contiguous (at + length (chunk_data c)) cs"

definition chunk_bytes :: "chunk list \<Rightarrow> byte list" where
  "chunk_bytes cs = concat (map chunk_data cs)"

locale chunk_sink =
  fixes holds :: "'s \<Rightarrow> byte list \<Rightarrow> bool"
    and put :: "'t \<Rightarrow> 's \<Rightarrow> byte list \<Rightarrow> u64 \<Rightarrow> bool \<times> 's"
  assumes put_holds: "holds s out \<Longrightarrow> length out + length d < 2 ^ 64 \<Longrightarrow>
      put t s d (of_nat (length out + length d)) = (True, s') \<Longrightarrow> holds s' (out @ d)"
begin

fun put_all :: "'s \<Rightarrow> ('t \<times> chunk) list \<Rightarrow> bool \<times> 's" where
  "put_all s [] = (True, s)"
| "put_all s ((t, c) # cs) = (case put t s (chunk_data c) (chunk_through c) of
     (ok, s') \<Rightarrow> (case put_all s' cs of (oks, s'') \<Rightarrow> (ok \<and> oks, s'')))"

lemma put_all_holds:
  assumes "holds s out" and "contiguous (length out) (map snd cs)" and "put_all s cs = (True, s')"
  shows "holds s' (out @ chunk_bytes (map snd cs))"
  using assms
proof (induction cs arbitrary: s out)
  case (Cons tc cs)
  obtain t c where tc: "tc = (t, c)" by fastforce
  with Cons.prems(3) obtain s1 where 1: "put t s (chunk_data c) (chunk_through c) = (True, s1)"
      and 2: "put_all s1 cs = (True, s')" by (auto split: prod.splits)
  have "holds s1 (out @ chunk_data c)"
    using put_holds [OF Cons.prems(1), of "chunk_data c" t s1] Cons.prems(2) 1 tc by auto
  from Cons.IH [OF this _ 2] Cons.prems(2) tc show ?case by (simp add: chunk_bytes_def)
qed (simp add: chunk_bytes_def)

end

text \<open>The closure \<open>storeFeedFor\<close> builds, with the random part of a staged name as its index.\<close>

definition storeFeedFor :: "u64 \<Rightarrow> string \<Rightarrow> store \<Rightarrow> byte list \<Rightarrow> u64 \<Rightarrow> bool \<times> store" where
  "storeFeedFor n tmp s data through = (case store_append tmp n data through s of
     (Inr _, s') \<Rightarrow> (True, s') | (Inl _, s') \<Rightarrow> (False, s'))"

interpretation store_sink: chunk_sink "stored_log n" "storeFeedFor n" for n
proof
  fix s out d t s'
  assume "stored_log n s out" "length out + length d < 2 ^ 64"
    "storeFeedFor n t s d (of_nat (length out + length d)) = (True, s')"
  then show "stored_log n s' (out @ d)"
    using stored_log_append [of t n d out s] by (auto simp: storeFeedFor_def split: prod.splits sum.splits)
qed

text \<open>C12. What the feed accepted is what a restore reads. When the goroutine of a session's feed has
  returned and every one of its calls of the store succeeded, and the accepted chunks continued each
  other from the session's start, the next process reads from the store the end of exactly the
  bytes the feed accepted, at the coordinate where they end.\<close>

theorem drained_feed_is_stored:
  assumes "feed_step\<^sup>*\<^sup>* (feed_start n) f" and "fs_run f = Returned" and "contiguous 0 (fs_offered f)"
    and "stored_log n s []" and "length tmps = length (fs_sunk f)"
    and "chunk_sink.put_all (storeFeedFor n) s (zip tmps (map fst (fs_sunk f))) = (True, s')"
    and "0 \<le> k" and "k \<le> outputSegmentBound"
  shows "fst (store_output n k (reopened s'))
    = Inr (tail_of (nat k) (chunk_bytes (fs_offered f)), len64 (chunk_bytes (fs_offered f)))"
proof -
  have sunk: "map fst (fs_sunk f) = fs_offered f"
    using feed_ok_run [OF assms(1) feed_ok_start] assms(2) by (auto simp: feed_ok_def)
  have order: "map snd (zip tmps (map fst (fs_sunk f))) = fs_offered f"
    using sunk assms(5) by (metis length_map map_snd_zip)
  have "stored_log n s' (chunk_bytes (fs_offered f))"
    using store_sink.put_all_holds [OF assms(4) _ assms(6)] assms(3) by (simp only: order) simp
  then have "stored_log n (reopened s') (chunk_bytes (fs_offered f))" by (rule stored_log_reopened)
  then show ?thesis by (rule stored_log_read [OF _ _ assms(7,8)]) (simp add: reopened_def)
qed

definition sample_feed :: feed_sys where
  "sample_feed = \<lparr>fs_feed = (newStoreFeed 7)\<lparr>feed_closed := True\<rparr>, fs_run = Returned,
     fs_offered = [\<lparr>chunk_data = [1, 2, 3], chunk_through = 3\<rparr>],
     fs_sunk = [(\<lparr>chunk_data = [1, 2, 3], chunk_through = 3\<rparr>, False)]\<rparr>"

lemma sample_feed_reached: "feed_step\<^sup>*\<^sup>* (feed_start 7) sample_feed"
proof -
  let ?c = "\<lparr>chunk_data = [1, 2, 3], chunk_through = 3\<rparr>"
  let ?s1 = "(feed_start 7)\<lparr>fs_feed := (newStoreFeed 7)\<lparr>feed_pending := [?c], feed_queued := 3\<rparr>, fs_offered := [?c]\<rparr>"
  let ?s2 = "?s1\<lparr>fs_feed := newStoreFeed 7, fs_run := Sinking ?c\<rparr>"
  let ?s3 = "?s2\<lparr>fs_run := AtHead, fs_sunk := [(?c, False)]\<rparr>"
  let ?s4 = "?s3\<lparr>fs_feed := (newStoreFeed 7)\<lparr>feed_closed := True\<rparr>\<rparr>"
  have 1: "feed_step (feed_start 7) ?s1"
    using feed_step.offer_accepted [of "feed_start 7" "[1, 2, 3]" 3]
    by (simp add: feed_start_def newStoreFeed_def feed_offer_def feedDepth_def)
  have 2: "feed_step ?s1 ?s2"
    using feed_step.take_chunk [of ?s1 ?c "newStoreFeed 7"]
    by (simp add: feed_start_def newStoreFeed_def feed_run_head_def)
  have 3: "feed_step ?s2 ?s3" using feed_step.sink_answers [of ?s2 ?c False] by (simp add: feed_start_def)
  have 4: "feed_step ?s3 ?s4"
    using feed_step.close_feed [of ?s3 True] by (simp add: newStoreFeed_def feed_close_def)
  have "feed_step ?s4 (?s4\<lparr>fs_run := Returned\<rparr>)"
    by (rule feed_step.run_returns) (simp_all add: newStoreFeed_def feed_run_head_def)
  moreover have "?s4\<lparr>fs_run := Returned\<rparr> = sample_feed" by (simp add: sample_feed_def feed_start_def)
  ultimately show ?thesis using 1 2 3 4 by (auto intro: converse_rtranclp_into_rtranclp)
qed

theorem drained_feed_is_stored_witness:
  "\<exists>s'. fst (store_output 7 2 (reopened s')) = Inr ([2, 3], 3)"
proof -
  have "\<exists>s'. store_append ''y'' 7 [1, 2, 3] 3 created_store = (Inr (), s')"
    using store_append_healthy [OF created_store_log, of "''y''" "[1, 2, 3]" 3]
    by (auto simp: created_store_def store_ok_def)
  then obtain s' where "store_append ''y'' 7 [1, 2, 3] 3 created_store = (Inr (), s')" by blast
  then have puts: "chunk_sink.put_all (storeFeedFor 7) created_store (zip [''y''] (map fst (fs_sunk sample_feed))) = (True, s')"
    by (simp add: sample_feed_def store_sink.put_all.simps storeFeedFor_def)
  have side: "fs_run sample_feed = Returned" "contiguous 0 (fs_offered sample_feed)"
      "length [''y''] = length (fs_sunk sample_feed)" "0 \<le> (2 :: int)" "2 \<le> outputSegmentBound"
    by (simp_all add: sample_feed_def outputSegmentBound_def)
  from drained_feed_is_stored [OF sample_feed_reached side(1,2) created_store_log side(3) puts side(4,5)]
  show ?thesis by (intro exI [of _ s']) (simp add: sample_feed_def chunk_bytes_def tail_of_def)
qed

end
