(* ===== verification/Session.thy ===== *)
theory Session
  imports Ring Observer Sink
begin

section \<open>Sessions (session.go)\<close>

text \<open>
  One shell with a tty, its ring, its observers and its way to the store. The record is the Go
  struct. Observers are shared by pointer between the session and the connections that take from
  them, so they live in a heap and the session holds their addresses. Of the process its
  number and the calls made to it are kept (\<open>ses_process\<close>, oldest first) and whether a call fails is an argument;
  the shared store is passed through the operations that write to it. The clock is an argument
  too, and a Go zero time is \<open>None\<close>. Every operation is what it does under the session's lock
  followed by what it does after releasing it; the interleaving of the pump with the others is
  the subject of theory Flow.
\<close>

type_synonym time = int

definition UnixMilli :: "time \<Rightarrow> int" where
  "UnixMilli t = t div 1000000"

datatype proc_call = ProcWrite "byte list" | ProcResize u16 u16 | ProcTerminate | ProcClose | ProcWait

record obs_heap =
  oh_obs :: "nat \<Rightarrow> observer"
  oh_next :: nat

record session =
  ses_id :: u64
  ses_paneID :: string
  ses_windowLabel :: string
  ses_cwd :: string
  ses_command :: string
  ses_startedAt :: time
  ses_generation :: u64
  ses_process :: "proc_call list"
  ses_pid :: u32
  ses_ring :: ring
  ses_observers :: "nat list"
  ses_observerTokens :: "(string \<times> nat) list"
  ses_displaying :: "nat list"
  ses_written :: u64
  ses_closed :: bool
  ses_paused :: bool
  ses_rendererGeneration :: u64
  ses_rendererAttached :: bool
  ses_detachedAt :: "time option"
  ses_writtenAt :: "time option"
  ses_resume :: bool
  ses_eventSequence :: u64
  ses_cols :: u16
  ses_rows :: u16
  ses_environment :: "string list"
  ses_store :: bool
  ses_feed :: "storeFeed option"

datatype session_error = SessionEnded u64 | SizeRefused u16 u16 | ProcessFailed | TokenUnbound u64

subsection \<open>Observers in the heap\<close>

text \<open>A loop that publishes to each observer of a set, in whatever order the map iterates.\<close>

definition publish_all :: "(observer \<Rightarrow> observer) \<Rightarrow> nat list \<Rightarrow> obs_heap \<Rightarrow> obs_heap" where
  "publish_all f ids h = h\<lparr>oh_obs := (\<lambda>i. if i \<in> set ids then f (oh_obs h i) else oh_obs h i)\<rparr>"

definition obs_update :: "nat \<Rightarrow> (observer \<Rightarrow> observer) \<Rightarrow> obs_heap \<Rightarrow> obs_heap" where
  "obs_update i f h = h\<lparr>oh_obs := (oh_obs h)(i := f (oh_obs h i))\<rparr>"

definition obs_alloc :: "int \<Rightarrow> obs_heap \<Rightarrow> nat \<times> obs_heap" where
  "obs_alloc capacity h = (oh_next h,
     h\<lparr>oh_obs := (oh_obs h)(oh_next h := newObserver capacity), oh_next := Suc (oh_next h)\<rparr>)"

subsection \<open>Presence and the renderer\<close>

definition presenceLocked :: "session \<Rightarrow> bool" where
  "presenceLocked s \<longleftrightarrow> ses_rendererAttached s \<or> ses_displaying s \<noteq> []"

text \<open>The send on \<open>resume\<close> with a default: the channel buffers one and a full one is left alone.\<close>

definition signal_resume :: "session \<Rightarrow> session" where
  "signal_resume s = s\<lparr>ses_resume := True\<rparr>"

definition next_generation :: "u64 \<Rightarrow> u64" where
  "next_generation g = (if g + 1 = 0 then 1 else g + 1)"

definition attachRenderer :: "session \<Rightarrow> u64 \<times> session" where
  "attachRenderer s =
     (let g = next_generation (ses_rendererGeneration s)
      in (g, s\<lparr>ses_rendererGeneration := g, ses_rendererAttached := True, ses_detachedAt := None\<rparr>))"

definition replaceRenderer :: "session \<Rightarrow> u64 \<times> session" where
  "replaceRenderer s =
     (let g = next_generation (ses_rendererGeneration s)
      in (g, s\<lparr>ses_rendererGeneration := g, ses_rendererAttached := True, ses_detachedAt := None\<rparr>))"

text \<open>A detach, up to the release of the lock and then with the signal.\<close>

definition detach_locked :: "time \<Rightarrow> u64 \<Rightarrow> session \<Rightarrow> session" where
  "detach_locked now g s =
     (if ses_rendererAttached s \<and> ses_rendererGeneration s = g then
        (let s = s\<lparr>ses_rendererAttached := False\<rparr>
         in if \<not> presenceLocked s then s\<lparr>ses_detachedAt := Some now\<rparr> else s)
      else s)"

definition detachRenderer :: "time \<Rightarrow> u64 \<Rightarrow> session \<Rightarrow> session" where
  "detachRenderer now g s = signal_resume (detach_locked now g s)"

definition detach_active_locked :: "time \<Rightarrow> session \<Rightarrow> session" where
  "detach_active_locked now s =
     (let detached = ses_rendererAttached s;
          s = s\<lparr>ses_rendererAttached := False\<rparr>
      in if detached \<and> \<not> presenceLocked s then s\<lparr>ses_detachedAt := Some now\<rparr> else s)"

definition detachActiveRenderer :: "time \<Rightarrow> session \<Rightarrow> bool \<times> session" where
  "detachActiveRenderer now s =
     (let detached = ses_rendererAttached s; s = detach_active_locked now s
      in (detached, if detached then signal_resume s else s))"

definition abandonedSince :: "time \<Rightarrow> session \<Rightarrow> bool" where
  "abandonedSince moment s =
     (if presenceLocked s then False
      else case ses_detachedAt s of
        None \<Rightarrow> False
      | Some at \<Rightarrow> if \<not> at < moment then False
          else (case ses_writtenAt s of None \<Rightarrow> True | Some w \<Rightarrow> w < moment))"

definition rendererIsAttached :: "session \<Rightarrow> bool" where
  "rendererIsAttached s = ses_rendererAttached s"

definition shouldPause :: "contract \<Rightarrow> u64 \<Rightarrow> session \<Rightarrow> bool" where
  "shouldPause c written s \<longleftrightarrow> ses_rendererAttached s \<and> ring_paused c (ses_ring s) written"

subsection \<open>The pump's critical section\<close>

definition pump_chunk :: "contract \<Rightarrow> time \<Rightarrow> byte list \<Rightarrow> session \<times> obs_heap \<Rightarrow> session \<times> obs_heap" where
  "pump_chunk c now data sh =
     (case sh of (s, h) \<Rightarrow>
       (case ring_write c (ses_ring s) data of (r, live, _) \<Rightarrow>
         (let from = ses_written s;
              s = s\<lparr>ses_ring := r, ses_written := live,
                    ses_feed := map_option (\<lambda>f. snd (feed_offer f data live)) (ses_feed s),
                    ses_writtenAt := Some now, ses_eventSequence := ses_eventSequence s + 1\<rparr>
          in (s, publish_all (\<lambda>v. publishOutput v
                \<lparr>out_EventSequence = ses_eventSequence s, out_FromSequence = from,
                 out_ThroughSequence = live, out_Bytes = data\<rparr>) (ses_observers s) h))))"

subsection \<open>Input and size\<close>

definition session_write :: "bool \<Rightarrow> byte list \<Rightarrow> session \<Rightarrow> (session_error + unit) \<times> session" where
  "session_write proc_ok data s =
     (if ses_closed s then (Inl (SessionEnded (ses_id s)), s)
      else ((if proc_ok then Inr () else Inl ProcessFailed),
            s\<lparr>ses_process := ses_process s @ [ProcWrite data]\<rparr>))"

definition session_resize :: "bool \<Rightarrow> string \<Rightarrow> u16 \<Rightarrow> u16 \<Rightarrow> session \<times> obs_heap \<times> store
    \<Rightarrow> (session_error + unit) \<times> session \<times> obs_heap \<times> store" where
  "session_resize proc_ok tmp cols rows shd =
     (case shd of (s, h, d) \<Rightarrow>
       if cols = 0 \<or> rows = 0 then (Inl (SizeRefused cols rows), s, h, d)
       else (let s = s\<lparr>ses_process := ses_process s @ [ProcResize cols rows]\<rparr>
         in if \<not> proc_ok then (Inl ProcessFailed, s, h, d)
            else (let s = s\<lparr>ses_eventSequence := ses_eventSequence s + 1, ses_cols := cols, ses_rows := rows\<rparr>;
                      h = publish_all (\<lambda>v. publishResize v
                        \<lparr>rsz_EventSequence = ses_eventSequence s, rsz_Cols = cols, rsz_Rows = rows\<rparr>)
                        (ses_observers s) h
              in (Inr (), s, h, if ses_store s then snd (setSize tmp (ses_id s) cols rows d) else d))))"

subsection \<open>Observers of a session\<close>

record Observed =
  obd_Session :: u64
  obd_Generation :: u64
  obd_StartEventSequence :: u64
  obd_StartOutputSequence :: u64

definition show_to :: "bool \<Rightarrow> nat \<Rightarrow> session \<Rightarrow> session" where
  "show_to displays i s = (if displays
     then s\<lparr>ses_displaying := List.insert i (ses_displaying s), ses_detachedAt := None\<rparr> else s)"

definition start_gap :: "u64 \<Rightarrow> u64 \<Rightarrow> GapObservation" where
  "start_gap eventSequence low = \<lparr>gap_FromEventSequence = 0, gap_ThroughEventSequence = eventSequence,
     gap_FromSequence = 0, gap_ThroughSequence = low\<rparr>"

definition replay_output :: "u64 \<Rightarrow> u64 \<Rightarrow> u64 \<Rightarrow> byte list \<Rightarrow> OutputObservation" where
  "replay_output eventSequence low through retained = \<lparr>out_EventSequence = eventSequence,
     out_FromSequence = low, out_ThroughSequence = through, out_Bytes = retained\<rparr>"

definition session_observe :: "contract \<Rightarrow> string \<Rightarrow> bool \<Rightarrow> session \<times> obs_heap
    \<Rightarrow> (session_error + nat \<times> Observed) \<times> session \<times> obs_heap" where
  "session_observe c token displays sh =
     (case sh of (s, h) \<Rightarrow>
       if token \<noteq> [] then
         (case map_of (ses_observerTokens s) token of
            None \<Rightarrow> (Inl (TokenUnbound (ses_id s)), s, h)
          | Some i \<Rightarrow>
              (let s = show_to displays i (s\<lparr>ses_observerTokens := AList.delete token (ses_observerTokens s)\<rparr>)
               in (Inr (i, \<lparr>obd_Session = ses_id s, obd_Generation = ses_generation s,
                      obd_StartEventSequence = ses_eventSequence s, obd_StartOutputSequence = ses_written s\<rparr>), s, h)))
       else
         (case obs_alloc (int (ObserverBufferBytes c)) h of (i, h) \<Rightarrow>
           (let s = show_to displays i (s\<lparr>ses_observers := i # ses_observers s\<rparr>);
                (low, through, retained) = ring_snapshot (ses_ring s);
                h = (if low > 0 then obs_update i (\<lambda>v. publishGapLocked v (start_gap (ses_eventSequence s) low)) h else h);
                h = (if retained \<noteq> [] then obs_update i
                       (\<lambda>v. publishOutput v (replay_output (ses_eventSequence s) low through retained)) h else h)
            in (Inr (i, \<lparr>obd_Session = ses_id s, obd_Generation = ses_generation s,
                   obd_StartEventSequence = ses_eventSequence s, obd_StartOutputSequence = low\<rparr>), s, h))))"

definition removeObserver :: "time \<Rightarrow> nat \<Rightarrow> session \<times> obs_heap \<Rightarrow> session \<times> obs_heap" where
  "removeObserver now i sh =
     (case sh of (s, h) \<Rightarrow>
       (let showed = i \<in> set (ses_displaying s);
            s = s\<lparr>ses_observers := removeAll i (ses_observers s), ses_displaying := removeAll i (ses_displaying s),
                  ses_observerTokens := filter (\<lambda>(_, j). j \<noteq> i) (ses_observerTokens s)\<rparr>;
            s = (if showed \<and> \<not> presenceLocked s \<and> ses_detachedAt s = None
                 then s\<lparr>ses_detachedAt := Some now\<rparr> else s)
        in (s, obs_update i obs_close h)))"

definition setDisplays :: "time \<Rightarrow> string \<Rightarrow> bool \<Rightarrow> session \<Rightarrow> (session_error + unit) \<times> session" where
  "setDisplays now token displays s =
     (case map_of (ses_observerTokens s) token of
        None \<Rightarrow> (Inl (TokenUnbound (ses_id s)), s)
      | Some i \<Rightarrow>
          if displays then (Inr (), show_to True i s)
          else if i \<in> set (ses_displaying s) then
            (let s = s\<lparr>ses_displaying := removeAll i (ses_displaying s)\<rparr>
             in (Inr (), if \<not> presenceLocked s then s\<lparr>ses_detachedAt := Some now\<rparr> else s))
          else (Inr (), s))"

definition adoptObserver :: "string \<Rightarrow> nat \<Rightarrow> bool \<Rightarrow> session \<times> obs_heap \<Rightarrow> session \<times> obs_heap" where
  "adoptObserver token i displays sh =
     (case sh of (s, h) \<Rightarrow>
       (let s = s\<lparr>ses_observers := List.insert i (ses_observers s),
                  ses_observerTokens := AList.update token i (ses_observerTokens s),
                  ses_displaying := (if displays then List.insert i (ses_displaying s) else ses_displaying s)\<rparr>;
            (low, through, retained) = ring_snapshot (ses_ring s);
            h = obs_update i (\<lambda>v. publishOpened v
                  \<lparr>opn_Session = ses_id s, opn_Generation = ses_generation s,
                   opn_EventSequence = ses_eventSequence s, opn_OutputSequence = low\<rparr>) h;
            h = (if low > 0 then obs_update i (\<lambda>v. publishGap v (start_gap (ses_eventSequence s) low)) h else h);
            h = (if retained \<noteq> [] then obs_update i
                   (\<lambda>v. publishOutput v (replay_output (ses_eventSequence s) low through retained)) h else h)
        in (s, h)))"

subsection \<open>Flow control and the end\<close>

definition session_ack :: "contract \<Rightarrow> u64 \<Rightarrow> session \<Rightarrow> session" where
  "session_ack c bytes s =
     (let written = ses_written s;
          bytes = (if bytes > written then written else bytes);
          s = s\<lparr>ses_ring := ring_ack (ses_ring s) bytes\<rparr>
      in if ring_resumed c (ses_ring s) written then signal_resume s else s)"

text \<open>
  The close of the feed waits until its goroutine has put every accepted chunk into the store or
  the deadline has passed: one chunk for each staged name in \<open>tmps\<close>.
\<close>

fun drain :: "u64 \<Rightarrow> string list \<Rightarrow> storeFeed \<Rightarrow> store \<Rightarrow> storeFeed \<times> store" where
  "drain n [] f d = (f, d)"
| "drain n (tmp # tmps) f d =
     (case feed_run_head f of
        RunTake ch f' \<Rightarrow> drain n tmps f' (snd (storeFeedFor n tmp d (chunk_data ch) (chunk_through ch)))
      | _ \<Rightarrow> (f, d))"

definition close_feed :: "string list \<Rightarrow> session \<Rightarrow> store \<Rightarrow> session \<times> store" where
  "close_feed tmps s d = (case ses_feed s of
     None \<Rightarrow> (s, d)
   | Some f \<Rightarrow> (case feed_close f of
       (False, _) \<Rightarrow> (s, d)
     | (True, f) \<Rightarrow> (case drain (ses_id s) tmps f d of (f, d) \<Rightarrow> (s\<lparr>ses_feed := Some f\<rparr>, d))))"

definition end_process :: "session \<Rightarrow> session" where
  "end_process s = s\<lparr>ses_process := ses_process s @ [ProcTerminate, ProcClose, ProcWait],
     ses_ring := fst (ring_end (ses_ring s))\<rparr>"

text \<open>\<open>reap\<close> also answers what it told the process ledger: the session and the moment it ended.\<close>

definition reap :: "time \<Rightarrow> string list \<Rightarrow> bool \<Rightarrow> session \<times> obs_heap \<times> store
    \<Rightarrow> (u64 \<times> int) option \<times> session \<times> obs_heap \<times> store" where
  "reap now tmps ended shd =
     (case shd of (s, h, d) \<Rightarrow>
       if ses_closed s then (None, s, h, d)
       else (let s = s\<lparr>ses_closed := True, ses_eventSequence := ses_eventSequence s + 1\<rparr>;
                 h = publish_all (\<lambda>v. publishEnd v \<lparr>end_EventSequence = ses_eventSequence s, end_ExitCode = 0\<rparr>)
                       (ses_observers s) h;
                 (s, d) = close_feed tmps s d;
                 d = (if ended \<and> ses_store s then snd (store_remove (ses_id s) d) else d)
             in (Some (ses_id s, UnixMilli now), signal_resume (end_process s), h, d)))"

definition creationFacts :: "session \<Rightarrow> sessionRecord" where
  "creationFacts s = \<lparr>rec_Session = ses_id s, rec_PaneID = ses_paneID s, rec_WindowLabel = ses_windowLabel s,
     rec_CWD = ses_cwd s, rec_Command = ses_command s, rec_Environment = ses_environment s,
     rec_Cols = ses_cols s, rec_Rows = ses_rows s, rec_StartedAtUnixMs = UnixMilli (ses_startedAt s),
     rec_EndedAtUnixMs = None, rec_ExitCode = None, rec_EndedThrough = 0, rec_Segment = 0, rec_Written = 0,
     rec_Foreground = [], rec_ForegroundCWD = [], rec_Modes = []\<rparr>"

end
