(* ===== verification/SessionRuns.thy ===== *)
theory SessionRuns
  imports Session
begin

section \<open>What a session keeps, whatever is done to it\<close>

text \<open>
  All operations on one session as steps of one function, with three things kept as history:
  the session's whole output, what each connection was given by its observer, and the last
  moments at which something showed the session and at which it wrote. Each step is one critical
  section, so a run of steps is an interleaving of the daemon's goroutines.
\<close>

subsection \<open>Steps\<close>

record ses_world =
  sw_ses :: session
  sw_heap :: obs_heap
  sw_store :: store
  sw_out :: "byte list"
  sw_taken :: "nat \<Rightarrow> observation list"

datatype session_op =
    SPump "byte list"
  | SAttach
  | SReplace
  | SDetach u64
  | SDetachActive
  | SWrite bool "byte list"
  | SResize bool string u16 u16
  | SPrepare
  | SObserve string bool
  | SRemove nat
  | SDisplays string bool
  | SAdopt string nat bool
  | SAck u64
  | SReap "string list" bool
  | STake nat
  | SRing ring_op

abbreviation set_ses :: "ses_world \<Rightarrow> session \<Rightarrow> ses_world" where
  "set_ses w s \<equiv> w\<lparr>sw_ses := s\<rparr>"

fun session_step :: "contract \<Rightarrow> time \<Rightarrow> ses_world \<Rightarrow> session_op \<Rightarrow> ses_world" where
  "session_step c now w (SPump data) = (case pump_chunk c now data (sw_ses w, sw_heap w) of
     (s, h) \<Rightarrow> w\<lparr>sw_ses := s, sw_heap := h, sw_out := sw_out w @ data\<rparr>)"
| "session_step c now w SAttach = set_ses w (snd (attachRenderer (sw_ses w)))"
| "session_step c now w SReplace = set_ses w (snd (replaceRenderer (sw_ses w)))"
| "session_step c now w (SDetach g) = set_ses w (detachRenderer now g (sw_ses w))"
| "session_step c now w SDetachActive = set_ses w (snd (detachActiveRenderer now (sw_ses w)))"
| "session_step c now w (SWrite ok data) = set_ses w (snd (session_write ok data (sw_ses w)))"
| "session_step c now w (SResize ok tmp cols rows) =
     (case session_resize ok tmp cols rows (sw_ses w, sw_heap w, sw_store w) of
        (_, s, h, d) \<Rightarrow> w\<lparr>sw_ses := s, sw_heap := h, sw_store := d\<rparr>)"
| "session_step c now w SPrepare = w\<lparr>sw_heap := snd (obs_alloc (int (ObserverBufferBytes c)) (sw_heap w))\<rparr>"
| "session_step c now w (SObserve token displays) =
     (case session_observe c token displays (sw_ses w, sw_heap w) of
        (_, s, h) \<Rightarrow> w\<lparr>sw_ses := s, sw_heap := h\<rparr>)"
| "session_step c now w (SRemove i) = (case removeObserver now i (sw_ses w, sw_heap w) of
     (s, h) \<Rightarrow> w\<lparr>sw_ses := s, sw_heap := h\<rparr>)"
| "session_step c now w (SDisplays token displays) = set_ses w (snd (setDisplays now token displays (sw_ses w)))"
| "session_step c now w (SAdopt token i displays) = (case adoptObserver token i displays (sw_ses w, sw_heap w) of
     (s, h) \<Rightarrow> w\<lparr>sw_ses := s, sw_heap := h\<rparr>)"
| "session_step c now w (SAck bytes) = set_ses w (session_ack c bytes (sw_ses w))"
| "session_step c now w (SReap tmps ended) = (case reap now tmps ended (sw_ses w, sw_heap w, sw_store w) of
     (_, s, h, d) \<Rightarrow> w\<lparr>sw_ses := s, sw_heap := h, sw_store := d\<rparr>)"
| "session_step c now w (STake i) = (case obs_next (oh_obs (sw_heap w) i) of
     None \<Rightarrow> w
   | Some (e, v) \<Rightarrow> w\<lparr>sw_heap := obs_update i (\<lambda>_. v) (sw_heap w),
       sw_taken := (sw_taken w)(i := sw_taken w i @ [e])\<rparr>)"
| "session_step c now w (SRing a) = set_ses w ((sw_ses w)\<lparr>ses_ring := ring_step c (ses_ring (sw_ses w)) a\<rparr>)"

text \<open>
  Which steps can occur: the pump writes while coordinates are left, an adopted observer was
  prepared and used for nothing else, and connections do to the ring what only they do.
\<close>

definition unused_observer :: "ses_world \<Rightarrow> nat \<Rightarrow> bool" where
  "unused_observer w i \<longleftrightarrow> i < oh_next (sw_heap w) \<and> i \<notin> set (ses_observers (sw_ses w)) \<and> sw_taken w i = []
     \<and> obs_events (oh_obs (sw_heap w) i) = [] \<and> observer_ok (oh_obs (sw_heap w) i)"

fun enabled :: "ses_world \<Rightarrow> session_op \<Rightarrow> bool" where
  "enabled w (SPump data) \<longleftrightarrow> data \<noteq> [] \<and> length (sw_out w) + length data < 2 ^ 64"
| "enabled w (SAdopt token i displays) \<longleftrightarrow> unused_observer w i"
| "enabled w (SRing a) \<longleftrightarrow> op_output a = []"
| "enabled w (STake i) \<longleftrightarrow> i < oh_next (sw_heap w)"
| "enabled w _ \<longleftrightarrow> True"

inductive session_reaches :: "contract \<Rightarrow> ses_world \<Rightarrow> ses_world \<Rightarrow> bool" for c where
  here: "session_reaches c w w"
| step: "session_reaches c w v \<Longrightarrow> enabled v a \<Longrightarrow> session_reaches c w (session_step c now v a)"

subsection \<open>The invariant\<close>

definition observer_fine :: "byte list \<Rightarrow> u64 \<Rightarrow> observation list \<Rightarrow> observer \<Rightarrow> bool" where
  "observer_fine out written taken v \<longleftrightarrow> observer_ok v
     \<and> (\<not> obs_closed v \<longrightarrow> spans out 0 (taken @ obs_events v) written)"

definition session_ok :: "contract \<Rightarrow> ses_world \<Rightarrow> bool" where
  "session_ok c w \<longleftrightarrow> (let s = sw_ses w in
     ring_ok c (ses_ring s) \<and> ring_holds (ses_ring s) (sw_out w)
     \<and> ses_written s = ring_live (ses_ring s)
     \<and> distinct (ses_observers s) \<and> set (ses_displaying s) \<subseteq> set (ses_observers s)
     \<and> snd ` set (ses_observerTokens s) \<subseteq> set (ses_observers s)
     \<and> (\<forall>i \<in> set (ses_observers s). i < oh_next (sw_heap w)
          \<and> observer_fine (sw_out w) (ses_written s) (sw_taken w i) (oh_obs (sw_heap w) i))
     \<and> (\<forall>i. oh_next (sw_heap w) \<le> i \<longrightarrow> sw_taken w i = []))"

named_theorems ses_simps \<open>what an operation leaves of a session\<close>

lemma presence_detach [ses_simps]:
  "ses_ring (detachRenderer now g s) = ses_ring s" "ses_observers (detachRenderer now g s) = ses_observers s"
  "ses_written (detachRenderer now g s) = ses_written s" "ses_displaying (detachRenderer now g s) = ses_displaying s"
  "ses_observerTokens (detachRenderer now g s) = ses_observerTokens s"
  by (simp_all add: detachRenderer_def detach_locked_def signal_resume_def presenceLocked_def Let_def)

lemma presence_detach_active [ses_simps]:
  "ses_ring (snd (detachActiveRenderer now s)) = ses_ring s"
  "ses_observers (snd (detachActiveRenderer now s)) = ses_observers s"
  "ses_written (snd (detachActiveRenderer now s)) = ses_written s"
  "ses_displaying (snd (detachActiveRenderer now s)) = ses_displaying s"
  "ses_observerTokens (snd (detachActiveRenderer now s)) = ses_observerTokens s"
  by (simp_all add: detachActiveRenderer_def detach_active_locked_def signal_resume_def presenceLocked_def Let_def)

lemma attach_frame [ses_simps]:
  "ses_ring (snd (attachRenderer s)) = ses_ring s" "ses_observers (snd (attachRenderer s)) = ses_observers s"
  "ses_written (snd (attachRenderer s)) = ses_written s" "ses_displaying (snd (attachRenderer s)) = ses_displaying s"
  "ses_observerTokens (snd (attachRenderer s)) = ses_observerTokens s" "replaceRenderer s = attachRenderer s"
  by (simp_all add: attachRenderer_def replaceRenderer_def Let_def)

lemma write_frame [ses_simps]:
  "ses_ring (snd (session_write ok data s)) = ses_ring s"
  "ses_observers (snd (session_write ok data s)) = ses_observers s"
  "ses_written (snd (session_write ok data s)) = ses_written s"
  "ses_displaying (snd (session_write ok data s)) = ses_displaying s"
  "ses_observerTokens (snd (session_write ok data s)) = ses_observerTokens s"
  by (simp_all add: session_write_def)

lemma ack_frame [ses_simps]:
  "ses_ring (session_ack c b s) = ring_ack (ses_ring s) (if b > ses_written s then ses_written s else b)"
  "ses_observers (session_ack c b s) = ses_observers s"
  "ses_written (session_ack c b s) = ses_written s" "ses_displaying (session_ack c b s) = ses_displaying s"
  "ses_observerTokens (session_ack c b s) = ses_observerTokens s"
  by (simp_all add: session_ack_def signal_resume_def Let_def)

lemma show_to_frame [ses_simps]:
  "ses_ring (show_to b i s) = ses_ring s" "ses_observers (show_to b i s) = ses_observers s"
  "ses_written (show_to b i s) = ses_written s" "ses_eventSequence (show_to b i s) = ses_eventSequence s"
  "ses_observerTokens (show_to b i s) = ses_observerTokens s" "ses_id (show_to b i s) = ses_id s" "ses_generation (show_to b i s) = ses_generation s"
  "set (ses_displaying (show_to b i s)) = (if b then insert i (set (ses_displaying s)) else set (ses_displaying s))"
  by (simp_all add: show_to_def)

lemma session_ok_frame:
  assumes "session_ok c w" and "ses_ring s = ses_ring (sw_ses w)" and "ses_observers s = ses_observers (sw_ses w)"
    and "ses_written s = ses_written (sw_ses w)" and "set (ses_displaying s) \<subseteq> set (ses_observers s)"
    and "ses_observerTokens s = ses_observerTokens (sw_ses w)"
  shows "session_ok c (set_ses w s)"
  using assms by (auto simp: session_ok_def Let_def)

subsection \<open>Observers stay truthful\<close>

lemma fine_publishOutput:
  assumes "observer_fine out written taken v" and "out_FromSequence x = written"
    and "out_ThroughSequence x = written'" and "true_output (out @ d) x"
  shows "observer_fine (out @ d) written' taken (publishOutput v x)"
proof (cases "obs_closed v")
  case True
  with assms(1) show ?thesis by (simp add: observer_fine_def publishOutput_ok)
next
  case False
  with assms publishOutput_spans [of v "out @ d" 0 taken written x] show ?thesis
    by (simp add: observer_fine_def publishOutput_ok spans_grow)
qed

lemma fine_neutral:
  assumes "observer_fine out written taken v" and "case e of Output _ \<Rightarrow> False | Gap _ \<Rightarrow> False | _ \<Rightarrow> True"
  shows "observer_fine out written taken (obs_publish v e)"
proof -
  have "event_size e = 0" using assms(2) by (cases e) simp_all
  moreover have "spans out written [e] written" using spans_neutral [OF assms(2)] .
  moreover have "taken @ obs_events v @ [e] = (taken @ obs_events v) @ [e]" by simp
  ultimately show ?thesis
    using assms(1) obs_publish_ok [of v e] unfolding observer_fine_def
    by (auto simp: obs_publish_def spans_append simp del: append_assoc)
qed

lemma fine_next:
  assumes "observer_fine out written taken v" and "obs_next v = Some (e, v')"
  shows "observer_fine out written (taken @ [e]) v'"
proof (cases "obs_closed v")
  case True
  then have "obs_closed v'" using assms(2) by (auto simp: obs_next_def split: list.splits observation.splits if_splits)
  with assms show ?thesis by (auto simp: observer_fine_def obs_next_ok)
next
  case False
  with assms obs_next_open [OF False assms(2)] show ?thesis by (auto simp: observer_fine_def obs_next_ok)
qed

text \<open>What a session publishes to an observer that starts now: from the beginning to the live edge.\<close>

lemma fine_replay:
  assumes "ring_ok c r" and "ring_holds r out" and "ring_snapshot r = (low, through, retained)"
    and "observer_ok v" and "\<not> obs_closed v \<longrightarrow> spans out 0 (taken @ obs_events v) 0"
    and "v1 = (if low > 0 then publishGapLocked v (start_gap es low) else v) \<or> obs_closed v \<and> v1 = v"
    and "v2 = (if retained \<noteq> [] then publishOutput v1 (replay_output es low through retained) else v1)"
  shows "observer_fine out (ring_live r) taken v2"
proof -
  have snap: "low = ring_floor r" "through = ring_live r" "retained = ring_bytes r"
    using assms(3) by (simp_all add: ring_snapshot_def)
  have wf: "ring_wf r" using assms(1) by (simp add: ring_ok_def)
  have v1: "observer_fine out low taken v1"
    using assms(4,5,6) publishGapLocked_spans [of out 0 taken v 0 "start_gap es low"]
    by (auto simp: observer_fine_def publishGapLocked_ok start_gap_def word_gt_0)
  show ?thesis
  proof (cases "retained = []")
    case True
    then show ?thesis using v1 assms(7) snap by (simp add: ring_live_def)
  next
    case False
    have "true_output out (replay_output es low through retained)"
      using assms(2) floor_le_live [OF wf] ring_holds_live [OF wf assms(2)] unat_ring_live [OF wf]
      by (auto simp: true_output_def replay_output_def snap ring_holds_def word_le_nat_alt)
    with fine_publishOutput [OF v1, of "replay_output es low through retained" through "[]"] False assms(7) snap
    show ?thesis by (simp add: replay_output_def)
  qed
qed

lemma fine_chunk:
  assumes "unat written = length out" and "length out + length d < 2 ^ 64" and "unat written' = length out + length d"
  shows "true_output (out @ d) \<lparr>out_EventSequence = es, out_FromSequence = written,
    out_ThroughSequence = written', out_Bytes = d\<rparr>"
  using assms by (simp add: true_output_def)

subsection \<open>Every step keeps the invariant\<close>

lemma ring_live_silent:
  assumes "ring_ok c r" and "ring_holds r out" and "op_output a = []"
  shows "ring_ok c (ring_step c r a) \<and> ring_holds (ring_step c r a) out \<and> ring_live (ring_step c r a) = ring_live r"
proof -
  have len: "unat (ring_live r) = length out" using assms by (simp add: ring_ok_def ring_holds_live)
  then have "length out < 2 ^ 64" using unat_u64_bound [of "ring_live r"] by simp
  with ring_step_rep [OF assms(1,2), of a] assms(3)
  have r: "ring_ok c (ring_step c r a)" "ring_holds (ring_step c r a) out" by simp_all
  then have "unat (ring_live (ring_step c r a)) = length out" by (simp add: ring_ok_def ring_holds_live)
  with len have "ring_live (ring_step c r a) = ring_live r" by (simp add: word_unat_eq_iff)
  with r show ?thesis by simp
qed

lemma session_ok_ring:
  assumes "session_ok c w" and "op_output a = []" and "ses_ring s = ring_step c (ses_ring (sw_ses w)) a"
    and "ses_observers s = ses_observers (sw_ses w)" and "ses_written s = ses_written (sw_ses w)"
    and "ses_displaying s = ses_displaying (sw_ses w)" and "ses_observerTokens s = ses_observerTokens (sw_ses w)"
  shows "session_ok c (set_ses w s)"
proof -
  have "ring_ok c (ses_ring s) \<and> ring_holds (ses_ring s) (sw_out w) \<and> ring_live (ses_ring s) = ring_live (ses_ring (sw_ses w))"
    using assms ring_live_silent [of c "ses_ring (sw_ses w)" "sw_out w" a] by (simp add: session_ok_def Let_def)
  with assms show ?thesis by (auto simp: session_ok_def Let_def)
qed

lemma session_ok_pump:
  assumes "session_ok c w" and "enabled w (SPump data)"
  shows "session_ok c (session_step c now w (SPump data))"
proof -
  let ?s = "sw_ses w" and ?out = "sw_out w"
  obtain r live woken where rw: "ring_write c (ses_ring ?s) data = (r, live, woken)" by (metis prod_cases3)
  have ok: "ring_ok c (ses_ring ?s)" "ring_holds (ses_ring ?s) ?out" "ses_written ?s = ring_live (ses_ring ?s)"
      and len: "length ?out + length data < 2 ^ 64"
    using assms by (simp_all add: session_ok_def Let_def)
  have r: "ring_ok c r" "ring_holds r (?out @ data)"
    using ring_step_rep [OF ok(1,2), of "OpWrite data"] len rw by simp_all
  have live: "live = ring_live r" using rw by (auto simp: ring_write_def wakeLocked_def Let_def ring_live_def)
  have "unat (ses_written ?s) = length ?out" "unat live = length ?out + length data"
    using ok r live ring_holds_live [of "ses_ring ?s" ?out] ring_holds_live [of r "?out @ data"]
    by (simp_all add: ring_ok_def)
  then have x: "true_output (?out @ data) \<lparr>out_EventSequence = es, out_FromSequence = ses_written ?s,
      out_ThroughSequence = live, out_Bytes = data\<rparr>" for es
    using len by (intro fine_chunk) simp_all
  have "observer_fine (?out @ data) live (sw_taken w i) (publishOutput (oh_obs (sw_heap w) i)
      \<lparr>out_EventSequence = es, out_FromSequence = ses_written ?s, out_ThroughSequence = live, out_Bytes = data\<rparr>)"
    if "i \<in> set (ses_observers ?s)" for i es
    using that assms(1) x by (intro fine_publishOutput) (auto simp: session_ok_def Let_def)
  with assms(1) r live show ?thesis
    by (simp add: rw pump_chunk_def session_ok_def Let_def publish_all_def)
qed

lemma session_ok_neutral:
  assumes "session_ok c w" and "ses_ring s = ses_ring (sw_ses w)" and "ses_observers s = ses_observers (sw_ses w)"
    and "ses_written s = ses_written (sw_ses w)" and "ses_displaying s = ses_displaying (sw_ses w)"
    and "ses_observerTokens s = ses_observerTokens (sw_ses w)"
    and "case e of Output _ \<Rightarrow> False | Gap _ \<Rightarrow> False | _ \<Rightarrow> True"
  shows "session_ok c (w\<lparr>sw_ses := s, sw_heap := publish_all (\<lambda>v. obs_publish v e) (ses_observers s) (sw_heap w),
    sw_store := d\<rparr>)"
  using assms fine_neutral [OF _ assms(7)] by (auto simp: session_ok_def Let_def publish_all_def)

lemma session_ok_reap:
  assumes "session_ok c w"
  shows "session_ok c (session_step c now w (SReap tmps ended))"
proof (cases "ses_closed (sw_ses w)")
  case True
  with assms show ?thesis by (simp add: reap_def)
next
  case False
  define s1 where "s1 = (sw_ses w)\<lparr>ses_closed := True, ses_eventSequence := ses_eventSequence (sw_ses w) + 1\<rparr>"
  define e where "e = End \<lparr>end_EventSequence = ses_eventSequence s1, end_ExitCode = 0\<rparr>"
  define h1 where "h1 = publish_all (\<lambda>v. obs_publish v e) (ses_observers s1) (sw_heap w)"
  obtain s2 d2 where 2: "close_feed tmps s1 (sw_store w) = (s2, d2)" by fastforce
  then have s2: "\<exists>f. s2 = s1\<lparr>ses_feed := f\<rparr>"
    by (auto simp: close_feed_def split: option.splits prod.splits bool.splits intro: exI [of _ "ses_feed s1"])
  have ok1: "session_ok c (w\<lparr>sw_ses := s2, sw_heap := h1, sw_store := d\<rparr>)" for d
    using session_ok_neutral [OF assms, of s2 e d] s2 by (auto simp: h1_def e_def s1_def)
  define s3 where "s3 = signal_resume (end_process s2)"
  define d where "d = (if ended \<and> ses_store s2 then snd (store_remove (ses_id s2) d2) else d2)"
  have step: "session_step c now w (SReap tmps ended) = w\<lparr>sw_ses := s3, sw_heap := h1, sw_store := d\<rparr>"
    using False 2
    by (simp add: reap_def s1_def [symmetric] publishEnd_def e_def [symmetric] h1_def s3_def d_def Let_def)
  have "session_ok c (set_ses (w\<lparr>sw_ses := s2, sw_heap := h1, sw_store := d\<rparr>) s3)"
    by (rule session_ok_ring [OF ok1, of OpEnd]) (simp_all add: s3_def signal_resume_def end_process_def)
  then show ?thesis unfolding step by (cases w) simp
qed

lemma obs_update_other [simp]: "j \<noteq> i \<Longrightarrow> oh_obs (obs_update i f h) j = oh_obs h j"
  by (simp add: obs_update_def)

lemma obs_update_same [simp]: "oh_obs (obs_update i f h) i = f (oh_obs h i)"
  by (simp add: obs_update_def)

lemma obs_update_next [simp]: "oh_next (obs_update i f h) = oh_next h"
  by (simp add: obs_update_def)

text \<open>One more observer, showing the session from its beginning on.\<close>

lemma session_ok_added:
  assumes "session_ok c w" and "ses_ring s = ses_ring (sw_ses w)" and "ses_written s = ses_written (sw_ses w)"
    and "set (ses_observers s) = insert i (set (ses_observers (sw_ses w)))" and "distinct (ses_observers s)"
    and "set (ses_displaying s) \<subseteq> insert i (set (ses_displaying (sw_ses w)))"
    and "oh_next (sw_heap w) \<le> oh_next h" and "i < oh_next h" and "sw_taken w i = []"
    and "\<And>j. j \<noteq> i \<Longrightarrow> oh_obs h j = oh_obs (sw_heap w) j"
    and "observer_fine (sw_out w) (ring_live (ses_ring s)) [] (oh_obs h i)"
    and "i \<notin> set (ses_observers (sw_ses w))"
    and "snd ` set (ses_observerTokens s) \<subseteq> insert i (snd ` set (ses_observerTokens (sw_ses w)))"
  shows "session_ok c (w\<lparr>sw_ses := s, sw_heap := h\<rparr>)"
proof -
  have "j < oh_next h \<and> observer_fine (sw_out w) (ses_written s) (sw_taken w j) (oh_obs h j)"
    if "j \<in> set (ses_observers s)" for j
    using that assms by (cases "j = i") (auto simp: session_ok_def Let_def)
  moreover have "insert i (snd ` set (ses_observerTokens (sw_ses w))) \<subseteq> set (ses_observers s)"
    using assms(1,4) by (auto simp: session_ok_def Let_def)
  with assms(13) have "snd ` set (ses_observerTokens s) \<subseteq> set (ses_observers s)" by (rule subset_trans)
  moreover have "set (ses_displaying s) \<subseteq> set (ses_observers s)"
    using assms(1,4,6) by (auto simp: session_ok_def Let_def)
  ultimately show ?thesis using assms(1,2,3,5,7) by (simp add: session_ok_def Let_def)
qed

lemma tokens_delete: "snd ` set (AList.delete t xs) \<subseteq> snd ` set xs"
  by (auto simp: AList.delete_eq)

lemma tokens_update: "snd ` set (AList.update t i xs) \<subseteq> insert i (snd ` set xs)"
  by (induction xs) auto

lemma tokens_bound: "map_of xs t = Some i \<Longrightarrow> i \<in> snd ` set xs"
  by (drule map_of_SomeD) force

lemma session_ok_observe:
  assumes "session_ok c w"
  shows "session_ok c (session_step c now w (SObserve token displays))"
proof (cases "token = []")
  case False
  then show ?thesis
    using assms subset_trans [OF tokens_delete [of token "ses_observerTokens (sw_ses w)"]]
    by (auto simp: session_observe_def session_ok_def Let_def show_to_def split: option.splits dest!: tokens_bound)
next
  case True
  let ?s = "sw_ses w" and ?h = "sw_heap w"
  define i where "i = oh_next ?h"
  define h1 where "h1 = snd (obs_alloc (int (ObserverBufferBytes c)) ?h)"
  define s1 where "s1 = show_to displays i (?s\<lparr>ses_observers := i # ses_observers ?s\<rparr>)"
  obtain low through retained where snap: "ring_snapshot (ses_ring ?s) = (low, through, retained)" by (metis prod_cases3)
  define h2 where "h2 = (if low > 0 then obs_update i (\<lambda>v. publishGapLocked v (start_gap (ses_eventSequence ?s) low)) h1 else h1)"
  define h3 where "h3 = (if retained \<noteq> [] then obs_update i
      (\<lambda>v. publishOutput v (replay_output (ses_eventSequence ?s) low through retained)) h2 else h2)"
  have step: "session_step c now w (SObserve token displays) = w\<lparr>sw_ses := s1, sw_heap := h3\<rparr>"
    using True snap
    by (simp add: session_observe_def obs_alloc_def i_def [symmetric] s1_def h1_def h2_def h3_def ses_simps Let_def)
  have h1: "oh_obs h1 = (oh_obs ?h)(i := newObserver (int (ObserverBufferBytes c)))" "oh_next h1 = Suc i"
    by (simp_all add: h1_def obs_alloc_def i_def)
  have v0: "observer_ok (oh_obs h1 i)" "obs_events (oh_obs h1 i) = []"
    by (simp add: h1 newObserver_ok) (simp add: h1 newObserver_def)
  have o2: "oh_obs h2 i = (if low > 0 then publishGapLocked (oh_obs h1 i) (start_gap (ses_eventSequence ?s) low) else oh_obs h1 i)
      \<or> obs_closed (oh_obs h1 i) \<and> oh_obs h2 i = oh_obs h1 i"
    by (simp add: h2_def)
  have o3: "oh_obs h3 i = (if retained \<noteq> [] then publishOutput (oh_obs h2 i)
      (replay_output (ses_eventSequence ?s) low through retained) else oh_obs h2 i)"
    by (simp add: h3_def)
  have fine: "observer_fine (sw_out w) (ring_live (ses_ring ?s)) [] (oh_obs h3 i)"
    by (rule fine_replay [of c, OF _ _ snap v0(1) _ o2 o3]) (use assms v0 in \<open>simp_all add: session_ok_def Let_def\<close>)
  show ?thesis
    unfolding step
  proof (rule session_ok_added [OF assms, where i = i])
    show "i \<notin> set (ses_observers ?s)" "sw_taken w i = []"
      using assms by (auto simp: session_ok_def Let_def i_def)
    then show "distinct (ses_observers s1)" using assms by (simp add: s1_def ses_simps session_ok_def Let_def)
  qed (use fine in \<open>simp_all add: s1_def ses_simps h2_def h3_def h1 i_def subset_insertI\<close>)
qed

lemma session_ok_adopt:
  assumes "session_ok c w" and "enabled w (SAdopt token i displays)"
  shows "session_ok c (session_step c now w (SAdopt token i displays))"
proof -
  let ?s = "sw_ses w" and ?h = "sw_heap w"
  define s1 where "s1 = ?s\<lparr>ses_observers := List.insert i (ses_observers ?s),
      ses_observerTokens := AList.update token i (ses_observerTokens ?s),
      ses_displaying := (if displays then List.insert i (ses_displaying ?s) else ses_displaying ?s)\<rparr>"
  obtain low through retained where snap: "ring_snapshot (ses_ring ?s) = (low, through, retained)" by (metis prod_cases3)
  define op where "op = \<lparr>opn_Session = ses_id ?s, opn_Generation = ses_generation ?s,
      opn_EventSequence = ses_eventSequence ?s, opn_OutputSequence = low\<rparr>"
  define h1 where "h1 = obs_update i (\<lambda>v. publishOpened v op) ?h"
  define h2 where "h2 = (if low > 0 then obs_update i (\<lambda>v. publishGap v (start_gap (ses_eventSequence ?s) low)) h1 else h1)"
  define h3 where "h3 = (if retained \<noteq> [] then obs_update i
      (\<lambda>v. publishOutput v (replay_output (ses_eventSequence ?s) low through retained)) h2 else h2)"
  have step: "session_step c now w (SAdopt token i displays) = w\<lparr>sw_ses := s1, sw_heap := h3\<rparr>"
    using snap by (simp add: adoptObserver_def s1_def h1_def h2_def h3_def op_def Let_def)
  have u: "unused_observer w i" using assms(2) by simp
  have neutral: "observer_fine (sw_out w) 0 [] (obs_publish (oh_obs ?h i) (Opened op))"
    using u by (intro fine_neutral) (auto simp: observer_fine_def unused_observer_def)
  have v0: "observer_ok (oh_obs h1 i)" "\<not> obs_closed (oh_obs h1 i) \<longrightarrow> spans (sw_out w) 0 ([] @ obs_events (oh_obs h1 i)) 0"
    using neutral by (simp_all add: h1_def publishOpened_def observer_fine_def)
  have o2: "oh_obs h2 i = (if low > 0 then publishGapLocked (oh_obs h1 i) (start_gap (ses_eventSequence ?s) low) else oh_obs h1 i)
      \<or> obs_closed (oh_obs h1 i) \<and> oh_obs h2 i = oh_obs h1 i"
    by (simp add: h2_def publishGap_def)
  have o3: "oh_obs h3 i = (if retained \<noteq> [] then publishOutput (oh_obs h2 i)
      (replay_output (ses_eventSequence ?s) low through retained) else oh_obs h2 i)"
    by (simp add: h3_def)
  have fine: "observer_fine (sw_out w) (ring_live (ses_ring ?s)) [] (oh_obs h3 i)"
    by (rule fine_replay [of c, OF _ _ snap v0 o2 o3]) (use assms(1) in \<open>simp_all add: session_ok_def Let_def\<close>)
  show ?thesis
    unfolding step
  proof (rule session_ok_added [OF assms(1), where i = i])
    show "i \<notin> set (ses_observers ?s)" "sw_taken w i = []" "i < oh_next h3"
      using u by (simp_all add: unused_observer_def h1_def h2_def h3_def)
    show "distinct (ses_observers s1)" using assms(1) by (simp add: s1_def session_ok_def Let_def distinct_insert)
    show "snd ` set (ses_observerTokens s1) \<subseteq> insert i (snd ` set (ses_observerTokens ?s))"
      by (simp add: s1_def tokens_update)
  qed (use fine in \<open>auto simp: s1_def h1_def h2_def h3_def\<close>)
qed

lemma session_ok_remove:
  assumes "session_ok c w"
  shows "session_ok c (session_step c now w (SRemove i))"
proof -
  have "set (ses_observers (sw_ses w)) - {i} \<subseteq> set (ses_observers (sw_ses w))" by blast
  with assms show ?thesis
    by (auto simp: removeObserver_def session_ok_def Let_def distinct_removeAll split: if_splits)
qed

lemma session_ok_displays:
  assumes "session_ok c w"
  shows "session_ok c (session_step c now w (SDisplays token displays))"
proof -
  have "set (ses_displaying (snd (setDisplays now token displays (sw_ses w)))) \<subseteq> set (ses_observers (sw_ses w))"
    using assms by (auto simp: setDisplays_def session_ok_def show_to_def Let_def split: option.splits dest!: tokens_bound)
  moreover have "ses_ring (snd (setDisplays now token displays s)) = ses_ring s"
      "ses_observers (snd (setDisplays now token displays s)) = ses_observers s"
      "ses_written (snd (setDisplays now token displays s)) = ses_written s"
      "ses_observerTokens (snd (setDisplays now token displays s)) = ses_observerTokens s" for s
    by (simp_all add: setDisplays_def show_to_def Let_def split: option.splits)
  ultimately show ?thesis using assms by (simp add: session_ok_frame)
qed

lemma session_ok_take:
  assumes "session_ok c w" and "enabled w (STake i)"
  shows "session_ok c (session_step c now w (STake i))"
proof (cases "obs_next (oh_obs (sw_heap w) i)")
  case None
  with assms show ?thesis by simp
next
  case (Some ev)
  obtain e v where ev: "ev = (e, v)" by fastforce
  with assms Some fine_next [of "sw_out w" "ses_written (sw_ses w)" "sw_taken w i" "oh_obs (sw_heap w) i" e v]
  show ?thesis by (auto simp: session_ok_def Let_def obs_update_def)
qed

lemma session_ok_resize:
  assumes "session_ok c w"
  shows "session_ok c (session_step c now w (SResize ok tmp cols rows))"
proof -
  let ?s = "(sw_ses w)\<lparr>ses_process := ses_process (sw_ses w) @ [ProcResize cols rows],
      ses_eventSequence := ses_eventSequence (sw_ses w) + 1, ses_cols := cols, ses_rows := rows\<rparr>"
  let ?e = "Observer.Resize \<lparr>rsz_EventSequence = ses_eventSequence ?s, rsz_Cols = cols, rsz_Rows = rows\<rparr>"
  have "session_ok c (w\<lparr>sw_ses := ?s, sw_heap := publish_all (\<lambda>v. obs_publish v ?e) (ses_observers ?s) (sw_heap w),
      sw_store := d\<rparr>)" for d
    by (rule session_ok_neutral [OF assms]) simp_all
  moreover have "session_ok c (set_ses w ((sw_ses w)\<lparr>ses_process := p\<rparr>))" for p
    using assms by (rule session_ok_frame) (use assms in \<open>simp_all add: session_ok_def Let_def\<close>)
  moreover have "w\<lparr>sw_ses := s, sw_heap := sw_heap w, sw_store := sw_store w\<rparr> = w\<lparr>sw_ses := s\<rparr>" for s by simp
  ultimately show ?thesis using assms by (simp add: session_resize_def publishResize_def Let_def)
qed

lemma session_ok_plain:
  assumes "session_ok c w"
  shows "session_ok c (session_step c now w SAttach)" "session_ok c (session_step c now w SReplace)"
    "session_ok c (session_step c now w (SDetach g))" "session_ok c (session_step c now w SDetachActive)"
    "session_ok c (session_step c now w (SWrite ok data))"
proof -
  have "set (ses_displaying (sw_ses w)) \<subseteq> set (ses_observers (sw_ses w))" using assms by (simp add: session_ok_def Let_def)
  then show "session_ok c (session_step c now w SAttach)" "session_ok c (session_step c now w SReplace)"
    "session_ok c (session_step c now w (SDetach g))" "session_ok c (session_step c now w SDetachActive)"
    "session_ok c (session_step c now w (SWrite ok data))"
    using assms by (simp_all add: session_ok_frame ses_simps)
qed

lemma session_ok_prepare:
  assumes "session_ok c w"
  shows "session_ok c (session_step c now w SPrepare)"
proof -
  have "i \<noteq> oh_next (sw_heap w)" "i < Suc (oh_next (sw_heap w))" if "i \<in> set (ses_observers (sw_ses w))" for i
    using assms that by (auto simp: session_ok_def Let_def)
  with assms show ?thesis by (auto simp: session_ok_def Let_def obs_alloc_def)
qed

lemma session_ok_ack:
  assumes "session_ok c w"
  shows "session_ok c (session_step c now w (SAck b))"
proof -
  let ?b = "if b > ses_written (sw_ses w) then ses_written (sw_ses w) else b"
  have "session_ok c (set_ses w (session_ack c b (sw_ses w)))"
    by (rule session_ok_ring [OF assms, of "OpAck ?b"]) (simp_all only: ses_simps op_output.simps ring_step.simps)
  then show ?thesis by simp
qed

lemmas session_ok_intros = session_ok_plain session_ok_prepare session_ok_ack session_ok_pump session_ok_observe
  session_ok_adopt session_ok_remove session_ok_displays session_ok_take session_ok_resize session_ok_reap

lemma session_ok_step:
  assumes "session_ok c w" and "enabled w a"
  shows "session_ok c (session_step c now w a)"
proof (cases a)
  case (SRing r)
  have "session_ok c (set_ses w ((sw_ses w)\<lparr>ses_ring := ring_step c (ses_ring (sw_ses w)) r\<rparr>))"
    by (rule session_ok_ring [OF assms(1), of r]) (use assms(2) SRing in simp_all)
  with SRing show ?thesis by simp
qed (use assms in \<open>simp_all only: session_ok_intros\<close>)

lemma session_ok_reaches: "session_reaches c w v \<Longrightarrow> session_ok c w \<Longrightarrow> session_ok c v"
  by (induction rule: session_reaches.induct) (auto intro: session_ok_step simp del: session_step.simps)

subsection \<open>A session as it is opened\<close>

definition born_session :: "contract \<Rightarrow> u64 \<Rightarrow> session" where
  "born_session c n = \<lparr>ses_id = n, ses_paneID = [], ses_windowLabel = [], ses_cwd = [], ses_command = [],
     ses_startedAt = 0, ses_generation = 1, ses_process = [], ses_pid = 0, ses_ring = newRing c (int (HighWatermark c)),
     ses_observers = [], ses_observerTokens = [], ses_displaying = [], ses_written = 0, ses_closed = False,
     ses_paused = False, ses_rendererGeneration = 0, ses_rendererAttached = False, ses_detachedAt = None,
     ses_writtenAt = None, ses_resume = False, ses_eventSequence = 0, ses_cols = 80, ses_rows = 24,
     ses_environment = [], ses_store = False, ses_feed = None\<rparr>"

definition born_world :: "contract \<Rightarrow> u64 \<Rightarrow> ses_world" where
  "born_world c n = \<lparr>sw_ses = born_session c n, sw_heap = \<lparr>oh_obs = (\<lambda>_. newObserver 0), oh_next = 0\<rparr>,
     sw_store = empty_store, sw_out = [], sw_taken = (\<lambda>_. [])\<rparr>"

lemma born_ok:
  assumes "contract_ok c"
  shows "session_ok c (born_world c n)"
proof -
  have "ring_ok c (newRing c (int (HighWatermark c)))"
    by (rule newRing_ok) (use assms in \<open>auto simp: contract_ok_def\<close>)
  then show ?thesis
    by (simp add: session_ok_def born_world_def born_session_def Let_def ring_holds_def newRing_def ring_live_def)
qed

text \<open>C13. Every observer of a session follows the session. In every state the session can reach,
  whatever the pump, renderers, other observers, resizes, adoptions, acknowledgements, leases and
  the end do in whatever order: what an observer's connection was given, followed by what is still
  queued for it, spans from the session's first byte to its last without a hole, the bytes in it
  are the session's bytes at their coordinates, and its queue is within its bound. The session's
  coordinate is the number of bytes its shell ever wrote.\<close>

theorem observers_follow_session:
  assumes "session_ok c w" and "session_reaches c w v"
    and "i \<in> set (ses_observers (sw_ses v))" and "\<not> obs_closed (oh_obs (sw_heap v) i)"
  shows "spans (sw_out v) 0 (sw_taken v i @ obs_events (oh_obs (sw_heap v) i)) (ses_written (sw_ses v))
    \<and> unat (ses_written (sw_ses v)) = length (sw_out v)
    \<and> obs_queued (oh_obs (sw_heap v) i) \<le> obs_capacity (oh_obs (sw_heap v) i)"
proof -
  have ok: "session_ok c v" using session_ok_reaches [OF assms(2,1)] .
  then have "observer_fine (sw_out v) (ses_written (sw_ses v)) (sw_taken v i) (oh_obs (sw_heap v) i)"
    using assms(3) by (auto simp: session_ok_def Let_def)
  moreover have "unat (ses_written (sw_ses v)) = length (sw_out v)"
    using ok ring_holds_live [of "ses_ring (sw_ses v)" "sw_out v"] by (simp add: session_ok_def ring_ok_def Let_def)
  ultimately show ?thesis using assms(4) by (simp add: observer_fine_def observer_ok_def)
qed

theorem observers_follow_session_witness:
  "\<exists>v. session_reaches small_contract (born_world small_contract 5) v \<and> 0 \<in> set (ses_observers (sw_ses v))
    \<and> sw_out v = [1, 2] \<and> spans [1, 2] 0 (sw_taken v 0 @ obs_events (oh_obs (sw_heap v) 0)) (ses_written (sw_ses v))"
proof -
  let ?c = small_contract
  let ?w = "born_world ?c 5"
  let ?v1 = "session_step ?c 0 ?w (SPump [1, 2])"
  let ?v = "session_step ?c 0 ?v1 (SObserve [] True)"
  have "session_reaches ?c ?w ?v1" by (rule session_reaches.step [OF session_reaches.here]) (simp add: born_world_def)
  then have r: "session_reaches ?c ?w ?v" by (rule session_reaches.step) simp
  have out: "sw_out ?v = [1, 2]" "0 \<in> set (ses_observers (sw_ses ?v))" "\<not> obs_closed (oh_obs (sw_heap ?v) 0)"
    by (simp_all add: born_world_def born_session_def pump_chunk_def session_observe_def obs_alloc_def show_to_def
        newObserver_def ring_write_def wakeLocked_def publish_all_def obs_update_def Let_def split: prod.splits)
  from observers_follow_session [OF born_ok [OF small_contract_ok] r out(2,3)] r out show ?thesis by metis
qed

subsection \<open>A renderer that left cannot take the one that replaced it\<close>

fun session_run :: "contract \<Rightarrow> ses_world \<Rightarrow> (time \<times> session_op) list \<Rightarrow> ses_world" where
  "session_run c w [] = w"
| "session_run c w ((now, a) # as) = session_run c (session_step c now w a) as"

fun attaches :: "(time \<times> session_op) list \<Rightarrow> nat" where
  "attaches [] = 0"
| "attaches ((_, SAttach) # as) = Suc (attaches as)"
| "attaches ((_, SReplace) # as) = Suc (attaches as)"
| "attaches (_ # as) = attaches as"

lemma next_generation_unat:
  assumes "g \<noteq> 0"
  shows "next_generation g \<noteq> 0" and "unat (next_generation g) - 1 = (unat g - 1 + 1) mod (2 ^ 64 - 1)"
proof -
  have g: "0 < unat g" "unat g < 2 ^ 64" using assms by (simp_all add: unat_gt_0)
  have s: "unat (g + 1) = (unat g + 1) mod 2 ^ 64" by (simp add: unat_word_ariths)
  show "next_generation g \<noteq> 0" by (simp add: next_generation_def)
  show "unat (next_generation g) - 1 = (unat g - 1 + 1) mod (2 ^ 64 - 1)"
  proof (cases "unat g = 2 ^ 64 - 1")
    case True
    then have "unat (g + 1) = 0" using s by simp
    then have "g + 1 = 0" by (simp add: unat_eq_0)
    with True show ?thesis by (simp add: next_generation_def)
  next
    case False
    then have "unat g + 1 < 2 ^ 64" using g(2) by linarith
    then have "unat (g + 1) = unat g + 1" using s by (simp only: mod_less)
    moreover have "g + 1 \<noteq> 0" using calculation by auto
    moreover have "unat g < 2 ^ 64 - 1" using False g(2) by linarith
    then have "unat g mod (2 ^ 64 - 1) = unat g" by (rule mod_less)
    ultimately show ?thesis using g by (simp add: next_generation_def)
  qed
qed

lemma generation_bound:
  assumes "(g :: u64) \<noteq> 0"
  shows "unat g - 1 < 2 ^ 64 - 1"
proof -
  have "0 < unat g" "unat g < 2 ^ 64" using assms by (simp_all add: unat_gt_0)
  then show ?thesis by linarith
qed

lemma generations_iterate:
  assumes "g \<noteq> 0"
  shows "(next_generation ^^ n) g \<noteq> 0 \<and> unat ((next_generation ^^ n) g) - 1 = (unat g - 1 + n) mod (2 ^ 64 - 1)"
proof (induction n)
  case 0
  have "unat g - 1 < 2 ^ 64 - 1" using generation_bound [OF assms] .
  then show ?case using assms by simp
next
  case (Suc n)
  then show ?case using next_generation_unat [of "(next_generation ^^ n) g"] by (simp add: mod_Suc_eq)
qed

lemma generations_differ:
  assumes "g \<noteq> 0" and "0 < n" and "n < 2 ^ 64 - 1"
  shows "(next_generation ^^ n) g \<noteq> g"
proof
  assume eq: "(next_generation ^^ n) g = g"
  have "unat g - 1 < 2 ^ 64 - 1" using generation_bound [OF assms(1)] .
  then have "(unat g - 1 + n) mod (2 ^ 64 - 1) = unat g - 1" "unat g - 1 = (unat g - 1) mod (2 ^ 64 - 1)"
    using generations_iterate [OF assms(1), of n] eq by simp_all
  then have "(2 ^ 64 - 1) dvd n" by (metis mod_eq_dvd_iff_nat add_diff_cancel_left' le_add1)
  with assms(2,3) show False by (auto dest: dvd_imp_le)
qed

lemma next_generation_not_zero [simp]: "next_generation g \<noteq> 0"
  by (simp add: next_generation_def)

lemma close_feed_frame: "close_feed tmps s d = (s', d') \<Longrightarrow> \<exists>f. s' = s\<lparr>ses_feed := f\<rparr>"
  by (auto simp: close_feed_def split: option.splits prod.splits bool.splits intro: exI [of _ "ses_feed s"])

lemma step_generation:
  "ses_rendererGeneration (sw_ses (session_step c now w a))
     = (next_generation ^^ attaches [(now, a)]) (ses_rendererGeneration (sw_ses w))"
proof (cases a)
  case (SReap tmps ended)
  then show ?thesis
    by (auto simp: reap_def Let_def signal_resume_def end_process_def split: prod.splits dest!: close_feed_frame)
qed (auto simp: pump_chunk_def attachRenderer_def replaceRenderer_def detachRenderer_def detach_locked_def detachActiveRenderer_def detach_active_locked_def
      session_write_def session_resize_def session_observe_def removeObserver_def setDisplays_def adoptObserver_def
      session_ack_def signal_resume_def show_to_def Let_def split: prod.splits option.splits)

lemma run_generation:
  "ses_rendererGeneration (sw_ses (session_run c w as))
     = (next_generation ^^ attaches as) (ses_rendererGeneration (sw_ses w))"
proof (induction as arbitrary: w)
  case (Cons na as)
  obtain now a where na: "na = (now, a)" by fastforce
  have "attaches ((now, a) # as) = attaches as + attaches [(now, a)]" by (cases a) simp_all
  with Cons.IH [of "session_step c now w a"] show ?case
    by (simp add: na step_generation funpow_add del: session_step.simps)
qed simp

text \<open>C14. A renderer that left cannot take the one that replaced it. Once a connection was made the
  renderer under a generation and at least one other attached since (and fewer than the counter
  has values), the first connection's detach, whenever it comes, leaves the session's renderer
  attached and its abandonment clock where it was.\<close>

theorem stale_detach_is_harmless:
  assumes "attachRenderer (sw_ses w) = (g, s)" and "0 < attaches as" and "attaches as < 2 ^ 64 - 1"
    and "v = session_run c (set_ses w s) as"
  shows "ses_rendererAttached (detachRenderer now g (sw_ses v)) = ses_rendererAttached (sw_ses v)
    \<and> ses_detachedAt (detachRenderer now g (sw_ses v)) = ses_detachedAt (sw_ses v)"
proof -
  have g: "g \<noteq> 0" "ses_rendererGeneration s = g" using assms(1) by (auto simp: attachRenderer_def Let_def)
  then have "ses_rendererGeneration (sw_ses v) = (next_generation ^^ attaches as) g"
    using assms(4) by (simp add: run_generation)
  with generations_differ [OF g(1) assms(2,3)] have "ses_rendererGeneration (sw_ses v) \<noteq> g" by simp
  then show ?thesis by (simp add: detachRenderer_def detach_locked_def signal_resume_def)
qed

theorem stale_detach_is_harmless_witness:
  "ses_rendererAttached (detachRenderer 9 1 (sw_ses (session_run small_contract
     (set_ses (born_world small_contract 5) (snd (attachRenderer (born_session small_contract 5)))) [(3, SReplace)])))"
proof -
  let ?w = "born_world small_contract 5"
  let ?s = "snd (attachRenderer (born_session small_contract 5))"
  have 1: "attachRenderer (sw_ses ?w) = (1, ?s)"
    by (simp add: born_world_def born_session_def attachRenderer_def next_generation_def)
  have 2: "0 < attaches [(3, SReplace)]" "attaches [(3, SReplace)] < 2 ^ 64 - 1" by simp_all
  from stale_detach_is_harmless [OF 1 2 refl, where now = 9 and c = small_contract] show ?thesis
    by (simp add: born_session_def replaceRenderer_def attachRenderer_def Let_def)
qed

subsection \<open>Abandonment\<close>

text \<open>
  History for the abandonment judgment: the last moment at which something showed the session,
  before or after the step at that moment, and the last moment at which its shell wrote.
\<close>

definition later :: "bool \<Rightarrow> time \<Rightarrow> time option \<Rightarrow> time option" where
  "later b now t = (if b then Some now else t)"

fun judged_run :: "contract \<Rightarrow> ses_world \<times> time option \<times> time option \<Rightarrow> (time \<times> session_op) list
    \<Rightarrow> ses_world \<times> time option \<times> time option" where
  "judged_run c (w, shown_at, wrote_at) [] = (w, shown_at, wrote_at)"
| "judged_run c (w, shown_at, wrote_at) ((now, a) # as) =
     (let w' = session_step c now w a
      in judged_run c (w', later (presenceLocked (sw_ses w) \<or> presenceLocked (sw_ses w')) now shown_at,
           later (case a of SPump _ \<Rightarrow> True | _ \<Rightarrow> False) now wrote_at) as)"

text \<open>
  No observer that displays is adopted while the session's abandonment clock runs. The code does
  this (theorem \<open>adopted_display_is_forgotten\<close>), and then the judgment goes wrong.
\<close>

fun no_late_display :: "contract \<Rightarrow> ses_world \<Rightarrow> (time \<times> session_op) list \<Rightarrow> bool" where
  "no_late_display c w [] = True"
| "no_late_display c w ((now, a) # as) \<longleftrightarrow>
     (case a of SAdopt token i displays \<Rightarrow> displays \<longrightarrow> ses_detachedAt (sw_ses w) = None | _ \<Rightarrow> True)
     \<and> no_late_display c (session_step c now w a) as"

definition clock_ok :: "session \<Rightarrow> time option \<Rightarrow> time option \<Rightarrow> bool" where
  "clock_ok s shown_at wrote_at \<longleftrightarrow> (presenceLocked s \<longrightarrow> ses_detachedAt s = None)
     \<and> (\<forall>d t. ses_detachedAt s = Some d \<longrightarrow> shown_at = Some t \<longrightarrow> t \<le> d)
     \<and> ses_writtenAt s = wrote_at"

lemma clock_ok_step:
  assumes "clock_ok (sw_ses w) shown_at wrote_at"
    and "case a of SAdopt token i displays \<Rightarrow> displays \<longrightarrow> ses_detachedAt (sw_ses w) = None | _ \<Rightarrow> True"
  shows "clock_ok (sw_ses (session_step c now w a))
    (later (presenceLocked (sw_ses w) \<or> presenceLocked (sw_ses (session_step c now w a))) now shown_at)
    (later (case a of SPump _ \<Rightarrow> True | _ \<Rightarrow> False) now wrote_at)"
proof (cases a)
  case (SReap tmps ended)
  with assms(1) show ?thesis
    by (auto simp: reap_def Let_def signal_resume_def end_process_def clock_ok_def later_def presenceLocked_def
        split: prod.splits dest!: close_feed_frame)
qed (use assms in \<open>auto simp: pump_chunk_def attachRenderer_def replaceRenderer_def detachRenderer_def detach_locked_def
      detachActiveRenderer_def detach_active_locked_def session_write_def session_resize_def session_observe_def removeObserver_def
      setDisplays_def adoptObserver_def session_ack_def signal_resume_def show_to_def Let_def clock_ok_def later_def
      presenceLocked_def split: prod.splits option.splits if_splits\<close>)

lemma clock_ok_run:
  assumes "clock_ok (sw_ses w) shown_at wrote_at" and "no_late_display c w as"
    and "judged_run c (w, shown_at, wrote_at) as = (v, shown', wrote')"
  shows "clock_ok (sw_ses v) shown' wrote'"
  using assms
proof (induction as arbitrary: w shown_at wrote_at)
  case (Cons na as)
  obtain now a where na: "na = (now, a)" by fastforce
  from clock_ok_step [OF Cons.prems(1), of a c now] Cons.prems(2)
  have "clock_ok (sw_ses (session_step c now w a))
    (later (presenceLocked (sw_ses w) \<or> presenceLocked (sw_ses (session_step c now w a))) now shown_at)
    (later (case a of SPump _ \<Rightarrow> True | _ \<Rightarrow> False) now wrote_at)"
    by (simp add: na del: session_step.simps)
  from Cons.IH [OF this] Cons.prems(2,3) show ?case by (simp add: na Let_def del: session_step.simps)
qed simp

text \<open>C15. Only an unattended session is abandoned. In a run from a session's opening in which no
  displaying observer is adopted while the clock runs: when the sweep judges the session abandoned
  since a moment, the last moment at which a renderer or a displaying observer showed it and the
  last moment at which its shell wrote both lie before that moment, and nothing shows it now.\<close>

theorem abandoned_is_unattended:
  assumes "judged_run c (born_world c n, None, None) as = (v, shown_at, wrote_at)"
    and "no_late_display c (born_world c n) as" and "abandonedSince moment (sw_ses v)"
  shows "\<not> presenceLocked (sw_ses v)
    \<and> (\<forall>t. shown_at = Some t \<longrightarrow> t < moment) \<and> (\<forall>t. wrote_at = Some t \<longrightarrow> t < moment)"
proof -
  have "clock_ok (sw_ses (born_world c n)) None None"
    by (simp add: clock_ok_def born_world_def born_session_def)
  from clock_ok_run [OF this assms(2,1)] assms(3) show ?thesis
    by (fastforce simp: clock_ok_def abandonedSince_def split: if_splits option.splits)
qed

theorem abandoned_is_unattended_witness:
  "\<exists>v. judged_run small_contract (born_world small_contract 5, None, None) [(2, SAttach), (6, SDetachActive)]
      = (v, Some 6, None) \<and> abandonedSince 9 (sw_ses v) \<and> \<not> presenceLocked (sw_ses v)"
proof -
  let ?as = "[(2, SAttach), (6, SDetachActive)]"
  obtain v where run: "judged_run small_contract (born_world small_contract 5, None, None) ?as = (v, Some 6, None)"
      and ab: "abandonedSince 9 (sw_ses v)"
    by (simp add: born_world_def born_session_def attachRenderer_def detachActiveRenderer_def detach_active_locked_def signal_resume_def
        presenceLocked_def later_def abandonedSince_def Let_def)
  have "no_late_display small_contract (born_world small_contract 5) ?as" by simp
  from abandoned_is_unattended [OF run this ab] run ab show ?thesis by blast
qed

text \<open>C16. An adopted display is forgotten. A session whose abandonment clock runs keeps the old
  stamp when an observer that displays it is adopted, and keeps it still when that observer leaves,
  however late: the sweep then ends the session as if it had never been shown in between.\<close>

theorem adopted_display_is_forgotten:
  assumes "\<not> presenceLocked s" and "ses_detachedAt s = Some d" and "d < moment"
    and "ses_writtenAt s = None \<or> ses_writtenAt s = Some t \<and> t < moment"
  shows "presenceLocked (fst (adoptObserver token i True (s, h)))
    \<and> abandonedSince moment (fst (removeObserver now i (adoptObserver token i True (s, h))))"
  using assms
  by (auto simp: adoptObserver_def removeObserver_def presenceLocked_def abandonedSince_def Let_def
      split: prod.splits option.splits)

theorem adopted_display_is_forgotten_witness:
  "abandonedSince 9 (fst (removeObserver 1000 0 (adoptObserver ''t'' 0 True
     ((born_session small_contract 5)\<lparr>ses_detachedAt := Some 6\<rparr>, \<lparr>oh_obs = (\<lambda>_. newObserver 8), oh_next = 1\<rparr>))))"
proof -
  let ?s = "(born_session small_contract 5)\<lparr>ses_detachedAt := Some 6\<rparr>"
  have h: "\<not> presenceLocked ?s" "ses_detachedAt ?s = Some 6" "(6 :: int) < 9"
      "ses_writtenAt ?s = None \<or> ses_writtenAt ?s = Some 0 \<and> (0 :: int) < 9"
    by (simp_all add: presenceLocked_def born_session_def)
  from adopted_display_is_forgotten [OF h] show ?thesis by blast
qed

end
