(* ===== verification/Flow.thy ===== *)
theory Flow
  imports SessionRuns
begin

section \<open>Flow control: the pump and those who release it (session.go, pump and ack)\<close>

text \<open>
  The pump's loop at the grain of its critical sections, beside acknowledgements, detaches and the
  end, each of which acts under a lock first and signals \<open>resume\<close> after releasing it. A pause is
  decided in two reads (is a renderer attached, is the client behind) and recorded in a third
  section before the pump waits, so a release can fall anywhere in between. \<open>fl_checks\<close> are the
  acknowledgements that have acted but not yet asked whether the client is far enough back, with
  the coordinate each captured; \<open>fl_sends\<close> counts signals about to be sent.
\<close>

datatype pump_pc =
    PumpReading
  | PumpChecking u64
  | PumpAsking u64
  | PumpPausing u64
  | PumpParked u64
  | PumpReleased
  | PumpEnded

record flow =
  fl_ses :: session
  fl_heap :: obs_heap
  fl_pump :: pump_pc
  fl_checks :: "u64 list"
  fl_sends :: nat
  fl_checked :: bool

definition bufferBytes :: nat where "bufferBytes = 32 * 1024"

text \<open>
  \<open>pump_step\<close> are the pump's own moves, \<open>release_step\<close> the moves of those who already acted, and
  \<open>flow_step\<close> adds what the outside does. \<open>fl_checked\<close> is history: the last check saw a renderer
  attached and the client near enough.
\<close>

inductive pump_step :: "contract \<Rightarrow> flow \<Rightarrow> flow \<Rightarrow> bool" for c where
  check_unattached: "fl_pump s = PumpChecking w \<Longrightarrow> \<not> ses_rendererAttached (fl_ses s) \<Longrightarrow>
     pump_step c s (s\<lparr>fl_pump := PumpReleased, fl_checked := False\<rparr>)"
| check_attached: "fl_pump s = PumpChecking w \<Longrightarrow> ses_rendererAttached (fl_ses s) \<Longrightarrow>
     pump_step c s (s\<lparr>fl_pump := PumpAsking w\<rparr>)"
| ask_near: "fl_pump s = PumpAsking w \<Longrightarrow> \<not> ring_paused c (ses_ring (fl_ses s)) w \<Longrightarrow>
     pump_step c s (s\<lparr>fl_pump := PumpReleased, fl_checked := True\<rparr>)"
| ask_behind: "fl_pump s = PumpAsking w \<Longrightarrow> ring_paused c (ses_ring (fl_ses s)) w \<Longrightarrow>
     pump_step c s (s\<lparr>fl_pump := PumpPausing w\<rparr>)"
| record_pause: "fl_pump s = PumpPausing w \<Longrightarrow>
     pump_step c s (s\<lparr>fl_pump := PumpParked w, fl_ses := (fl_ses s)\<lparr>ses_paused := True\<rparr>\<rparr>)"
| receive: "fl_pump s = PumpParked w \<Longrightarrow> ses_resume (fl_ses s) \<Longrightarrow>
     pump_step c s (s\<lparr>fl_pump := PumpChecking w, fl_ses := (fl_ses s)\<lparr>ses_resume := False\<rparr>\<rparr>)"
| record_running: "fl_pump s = PumpReleased \<Longrightarrow>
     pump_step c s (s\<lparr>fl_pump := PumpReading, fl_ses := (fl_ses s)\<lparr>ses_paused := False\<rparr>\<rparr>)"

inductive release_step :: "contract \<Rightarrow> flow \<Rightarrow> flow \<Rightarrow> bool" for c where
  check_far: "fl_checks s = pre @ w # post \<Longrightarrow> \<not> ring_resumed c (ses_ring (fl_ses s)) w \<Longrightarrow>
     release_step c s (s\<lparr>fl_checks := pre @ post\<rparr>)"
| check_back: "fl_checks s = pre @ w # post \<Longrightarrow> ring_resumed c (ses_ring (fl_ses s)) w \<Longrightarrow>
     release_step c s (s\<lparr>fl_checks := pre @ post, fl_sends := Suc (fl_sends s)\<rparr>)"
| send: "fl_sends s = Suc n \<Longrightarrow>
     release_step c s (s\<lparr>fl_sends := n, fl_ses := signal_resume (fl_ses s)\<rparr>)"

definition ack_locked :: "u64 \<Rightarrow> session \<Rightarrow> session" where
  "ack_locked bytes s = s\<lparr>ses_ring := ring_ack (ses_ring s) (if bytes > ses_written s then ses_written s else bytes)\<rparr>"

inductive flow_step :: "contract \<Rightarrow> flow \<Rightarrow> flow \<Rightarrow> bool" for c where
  pump_moves: "pump_step c s t \<Longrightarrow> flow_step c s t"
| release_moves: "release_step c s t \<Longrightarrow> flow_step c s t"
| pump_reads: "fl_pump s = PumpReading \<Longrightarrow> data \<noteq> [] \<Longrightarrow> length data \<le> bufferBytes \<Longrightarrow>
     unat (ses_written (fl_ses s)) + length data < 2 ^ 64 \<Longrightarrow>
     pump_chunk c now data (fl_ses s, fl_heap s) = (s', h') \<Longrightarrow>
     flow_step c s (s\<lparr>fl_ses := s', fl_heap := h', fl_pump := PumpChecking (ses_written s')\<rparr>)"
| pump_fails: "fl_pump s = PumpReading \<Longrightarrow>
     flow_step c s (s\<lparr>fl_pump := PumpEnded, fl_ses := (fl_ses s)\<lparr>ses_ring := fst (ring_end (ses_ring (fl_ses s)))\<rparr>\<rparr>)"
| acks: "flow_step c s (s\<lparr>fl_ses := ack_locked bytes (fl_ses s), fl_checks := ses_written (fl_ses s) # fl_checks s\<rparr>)"
| attaches: "flow_step c s (s\<lparr>fl_ses := snd (attachRenderer (fl_ses s))\<rparr>)"
| detaches: "flow_step c s (s\<lparr>fl_ses := detach_locked now g (fl_ses s), fl_sends := Suc (fl_sends s)\<rparr>)"
| detaches_active: "ses_rendererAttached (fl_ses s) \<Longrightarrow>
     flow_step c s (s\<lparr>fl_ses := detach_active_locked now (fl_ses s), fl_sends := Suc (fl_sends s)\<rparr>)"
| reaps: "flow_step c s (s\<lparr>fl_ses := end_process (fl_ses s), fl_sends := Suc (fl_sends s)\<rparr>)"
| ring_moves: "op_output a = [] \<Longrightarrow> (\<And>b. a \<noteq> OpAck b) \<Longrightarrow>
     flow_step c s (s\<lparr>fl_ses := (fl_ses s)\<lparr>ses_ring := ring_step c (ses_ring (fl_ses s)) a\<rparr>\<rparr>)"

text \<open>The acknowledgement is the two halves together.\<close>

lemma session_ack_halves:
  "session_ack c bytes s = (if ring_resumed c (ses_ring (ack_locked bytes s)) (ses_written s)
     then signal_resume (ack_locked bytes s) else ack_locked bytes s)"
  by (simp add: session_ack_def ack_locked_def Let_def)

subsection \<open>The invariant\<close>

definition waiting_at :: "pump_pc \<Rightarrow> u64 option" where
  "waiting_at pc = (case pc of PumpAsking w \<Rightarrow> Some w | PumpPausing w \<Rightarrow> Some w | PumpParked w \<Rightarrow> Some w | _ \<Rightarrow> None)"

definition committed_at :: "pump_pc \<Rightarrow> u64 option" where
  "committed_at pc = (case pc of PumpPausing w \<Rightarrow> Some w | PumpParked w \<Rightarrow> Some w | _ \<Rightarrow> None)"

text \<open>
  The ledger: what was written is the ring's live edge and nothing beyond it is acknowledged. The
  wake-up: a pump that waits while no renderer is attached, or has committed to wait while the
  client is far enough back, has a signal waiting, on its way, or about to be decided.
\<close>

definition ledger_ok :: "contract \<Rightarrow> session \<Rightarrow> bool" where
  "ledger_ok c v \<longleftrightarrow> ring_ok c (ses_ring v) \<and> ses_written v = ring_live (ses_ring v)
     \<and> ring_acked (ses_ring v) \<le> ring_live (ses_ring v)"

definition wake_ok :: "pump_pc \<Rightarrow> u64 \<Rightarrow> bool \<Rightarrow> bool \<Rightarrow> nat \<Rightarrow> u64 list \<Rightarrow> bool \<Rightarrow> bool \<Rightarrow> bool \<Rightarrow> bool" where
  "wake_ok pc written attached token sends checks resumed paused checked \<longleftrightarrow>
     (\<forall>w. waiting_at pc = Some w \<or> pc = PumpChecking w \<longrightarrow> w = written)
     \<and> (waiting_at pc \<noteq> None \<and> \<not> attached \<longrightarrow> token \<or> 0 < sends)
     \<and> (committed_at pc \<noteq> None \<and> resumed \<longrightarrow> token \<or> 0 < sends \<or> written \<in> set checks)
     \<and> (checked \<and> (pc = PumpReleased \<or> pc = PumpReading) \<longrightarrow> \<not> paused)"

definition flow_ok :: "contract \<Rightarrow> flow \<Rightarrow> bool" where
  "flow_ok c s \<longleftrightarrow> ledger_ok c (fl_ses s)
     \<and> wake_ok (fl_pump s) (ses_written (fl_ses s)) (ses_rendererAttached (fl_ses s)) (ses_resume (fl_ses s))
         (fl_sends s) (fl_checks s) (ring_resumed c (ses_ring (fl_ses s)) (ses_written (fl_ses s)))
         (ring_paused c (ses_ring (fl_ses s)) (ses_written (fl_ses s))) (fl_checked s)"

lemma gap_shrinks:
  fixes a b w :: u64
  assumes "a \<le> b" and "b \<le> w"
  shows "w - b \<le> w - a"
  using assms by (simp add: word_le_nat_alt unat_sub_le)

lemma paused_not_resumed:
  assumes "contract_ok c" and "ring_paused c r w"
  shows "\<not> ring_resumed c r w"
proof -
  have "LowWatermark c < HighWatermark c" "HighWatermark c < 2 ^ 64"
    using assms(1) by (auto simp: contract_ok_def)
  then have "unat (of_nat (LowWatermark c) :: u64) < unat (of_nat (HighWatermark c) :: u64)"
    by (simp add: unat_of_nat_small)
  with assms(2) show ?thesis by (auto simp: ring_paused_def ring_resumed_def word_le_nat_alt)
qed

lemma ring_step_acked: "(\<And>b. a \<noteq> OpAck b) \<Longrightarrow> ring_acked (ring_step c r a) = ring_acked r"
  by (cases a) (auto simp: ring_write_def ring_lease_def consumeLease_def expireLease_def ring_read_def
      ring_end_def wakeLocked_def Let_def split: option.splits)

lemma ring_mark_frame:
  assumes "ring_acked r' = ring_acked r"
  shows "ring_paused c r' w = ring_paused c r w" and "ring_resumed c r' w = ring_resumed c r w"
  using assms by (simp_all add: ring_paused_def ring_resumed_def)

lemma ring_holds_some:
  assumes "ring_ok c r"
  shows "\<exists>out. ring_holds r out"
proof -
  have "ring_holds r (replicate (unat (ring_floor r)) 0 @ ring_bytes r)"
    using assms by (auto simp: ring_ok_def ring_holds_def ring_wf_def)
  then show ?thesis by blast
qed

lemma ring_silent:
  assumes "ring_ok c r" and "op_output a = []"
  shows "ring_ok c (ring_step c r a)" and "ring_live (ring_step c r a) = ring_live r"
  using ring_holds_some [OF assms(1)] ring_live_silent [OF assms(1) _ assms(2)] by auto

lemmas pc_simps = waiting_at_def committed_at_def

lemma flow_ok_pump:
  assumes "pump_step c s t" and "contract_ok c" and "flow_ok c s"
  shows "flow_ok c t"
proof -
  have at: "fl_pump s = PumpAsking w \<Longrightarrow> w = ses_written (fl_ses s)" for w
    using assms(3) by (simp add: flow_ok_def wake_ok_def pc_simps)
  show ?thesis
    using assms(1,3) paused_not_resumed [OF assms(2)] at
    by (cases rule: pump_step.cases) (auto simp: flow_ok_def ledger_ok_def wake_ok_def pc_simps)
qed

lemma flow_ok_release:
  assumes "release_step c s t" and "flow_ok c s"
  shows "flow_ok c t"
  using assms
  by (cases rule: release_step.cases) (auto simp: flow_ok_def ledger_ok_def wake_ok_def signal_resume_def)

lemma wake_ok_mono:
  assumes "wake_ok pc written attached token sends checks resumed paused checked"
    and "sends \<le> sends'" and "pc' = pc \<or> pc' = PumpEnded"
  shows "wake_ok pc' written attached token sends' checks resumed paused checked"
  using assms by (auto simp: wake_ok_def pc_simps)

lemma ledger_frame:
  "ledger_ok c (v\<lparr>ses_rendererAttached := a\<rparr>) = ledger_ok c v"
  "ledger_ok c (v\<lparr>ses_detachedAt := d\<rparr>) = ledger_ok c v"
  "ledger_ok c (v\<lparr>ses_rendererGeneration := g\<rparr>) = ledger_ok c v"
  by (simp_all add: ledger_ok_def)

lemma wake_ok_attach:
  "wake_ok pc written attached token sends checks resumed paused checked \<Longrightarrow>
     wake_ok pc written True token sends checks resumed paused checked"
  by (simp add: wake_ok_def)

lemma wake_ok_send:
  "wake_ok pc written attached token sends checks resumed paused checked \<Longrightarrow>
     wake_ok pc written attached' token (Suc sends) checks resumed paused checked"
  by (simp add: wake_ok_def)

lemma flow_ok_ring:
  assumes "flow_ok c s" and "ring_ok c r" and "ring_live r = ring_live (ses_ring (fl_ses s))"
    and "ring_acked r = ring_acked (ses_ring (fl_ses s))" and "fl_sends s \<le> fl_sends t"
    and "fl_ses t = (fl_ses s)\<lparr>ses_ring := r, ses_process := p\<rparr>"
    and "fl_pump t = fl_pump s \<or> fl_pump t = PumpEnded" and "fl_checks t = fl_checks s"
    and "fl_checked t = fl_checked s"
  shows "flow_ok c t"
proof -
  have "ledger_ok c (fl_ses t)" using assms(1,2,3,4,6) by (simp add: flow_ok_def ledger_ok_def)
  moreover have "ring_resumed c r w = ring_resumed c (ses_ring (fl_ses s)) w"
      "ring_paused c r w = ring_paused c (ses_ring (fl_ses s)) w" for w
    using ring_mark_frame [OF assms(4), of c w] by simp_all
  ultimately show ?thesis
    using assms wake_ok_mono [OF _ assms(5,7)] by (simp add: flow_ok_def)
qed

lemma flow_ok_ack:
  assumes "flow_ok c s"
  shows "flow_ok c (s\<lparr>fl_ses := ack_locked bytes (fl_ses s), fl_checks := ses_written (fl_ses s) # fl_checks s\<rparr>)"
proof -
  let ?v = "fl_ses s"
  define b where "b = (if bytes > ses_written ?v then ses_written ?v else bytes)"
  define r where "r = ring_ack (ses_ring ?v) b"
  have b: "b \<le> ses_written ?v" by (simp add: b_def leI)
  have ok: "ring_ok c (ses_ring ?v)" "ring_acked (ses_ring ?v) \<le> ses_written ?v"
    using assms by (auto simp: flow_ok_def ledger_ok_def)
  have acked: "ring_acked (ses_ring ?v) \<le> ring_acked r" "ring_acked r \<le> ses_written ?v"
    using b ok(2) by (auto simp: r_def ring_ack_def)
  have r: "ring_ok c r" "ring_live r = ring_live (ses_ring ?v)"
    using ring_silent [OF ok(1), of "OpAck b"] by (simp_all add: r_def)
  have near: "\<not> ring_paused c (ses_ring ?v) (ses_written ?v) \<Longrightarrow> \<not> ring_paused c r (ses_written ?v)"
    using gap_shrinks [OF acked] by (auto simp: ring_paused_def)
  have "ack_locked bytes ?v = ?v\<lparr>ses_ring := r\<rparr>" by (simp add: ack_locked_def r_def b_def)
  with assms r acked near show ?thesis by (auto simp: flow_ok_def ledger_ok_def wake_ok_def)
qed

lemma pump_chunk_ledger:
  assumes "ledger_ok c v" and "unat (ses_written v) + length data < 2 ^ 64"
    and "pump_chunk c now data (v, h) = (v', h')"
  shows "ring_ok c (ses_ring v')" and "ses_written v' = ring_live (ses_ring v')"
    and "ring_acked (ses_ring v') = ring_acked (ses_ring v)"
    and "unat (ses_written v') = unat (ses_written v) + length data"
proof -
  obtain r live woken where rw: "ring_write c (ses_ring v) data = (r, live, woken)" by (metis prod_cases3)
  have ok: "ring_ok c (ses_ring v)" "ses_written v = ring_live (ses_ring v)"
    using assms(1) by (auto simp: ledger_ok_def)
  obtain out where out: "ring_holds (ses_ring v) out" using ring_holds_some [OF ok(1)] by blast
  have len: "unat (ring_live (ses_ring v)) = length out" using ok(1) out by (simp add: ring_ok_def ring_holds_live)
  have r: "ring_ok c r" "ring_holds r (out @ data)"
    using ring_step_rep [OF ok(1) out, of "OpWrite data"] assms(2) len ok(2) rw by simp_all
  have v': "ses_ring v' = r" "ses_written v' = live"
    using assms(3) rw by (auto simp: pump_chunk_def Let_def)
  have "live = ring_live r" "ring_acked r = ring_acked (ses_ring v)"
    using rw ring_step_acked [of "OpWrite data" c "ses_ring v"]
    by (auto simp: ring_write_def wakeLocked_def Let_def ring_live_def)
  then show "ring_ok c (ses_ring v')" "ses_written v' = ring_live (ses_ring v')"
    "ring_acked (ses_ring v') = ring_acked (ses_ring v)"
    "unat (ses_written v') = unat (ses_written v) + length data"
    using r v' ok(2) len by (simp_all add: ring_ok_def ring_holds_live)
qed

lemma flow_ok_chunk:
  assumes "flow_ok c s" and "fl_pump s = PumpReading" and "unat (ses_written (fl_ses s)) + length data < 2 ^ 64"
    and "pump_chunk c now data (fl_ses s, fl_heap s) = (s', h')"
  shows "flow_ok c (s\<lparr>fl_ses := s', fl_heap := h', fl_pump := PumpChecking (ses_written s')\<rparr>)"
proof -
  have ledger: "ledger_ok c (fl_ses s)" using assms(1) by (simp add: flow_ok_def)
  note after = pump_chunk_ledger [OF this assms(3,4)]
  have "ses_written (fl_ses s) \<le> ses_written s'" using after(4) by (simp add: word_le_nat_alt)
  then have "ledger_ok c s'" using ledger after(1-3) by (auto simp: ledger_ok_def)
  with assms(1) show ?thesis by (auto simp: flow_ok_def wake_ok_def pc_simps)
qed

lemma flow_ok_step:
  assumes "flow_step c s t" and "contract_ok c" and "flow_ok c s"
  shows "flow_ok c t"
  using assms(1)
proof (cases rule: flow_step.cases)
  case pump_moves
  with flow_ok_pump assms show ?thesis by blast
next
  case release_moves
  with flow_ok_release assms show ?thesis by blast
next
  case (pump_reads data now s' h')
  with flow_ok_chunk [OF assms(3)] show ?thesis by simp
next
  case pump_fails
  with flow_ok_ring [OF assms(3), of "fst (ring_end (ses_ring (fl_ses s)))" t "ses_process (fl_ses s)"]
    ring_silent [of c "ses_ring (fl_ses s)" OpEnd] ring_step_acked [of OpEnd c "ses_ring (fl_ses s)"] assms(3)
  show ?thesis by (simp add: flow_ok_def [of c s] ledger_ok_def)
next
  case (acks bytes)
  with flow_ok_ack [OF assms(3)] show ?thesis by simp
next
  case reaps
  with flow_ok_ring [OF assms(3), of "fst (ring_end (ses_ring (fl_ses s)))" t
      "ses_process (fl_ses s) @ [ProcTerminate, ProcClose, ProcWait]"]
    ring_silent [of c "ses_ring (fl_ses s)" OpEnd] ring_step_acked [of OpEnd c "ses_ring (fl_ses s)"] assms(3)
  show ?thesis by (simp add: flow_ok_def [of c s] ledger_ok_def end_process_def)
next
  case (ring_moves a)
  with flow_ok_ring [OF assms(3), of "ring_step c (ses_ring (fl_ses s)) a" t "ses_process (fl_ses s)"]
    ring_silent [of c "ses_ring (fl_ses s)" a] ring_step_acked [of a c "ses_ring (fl_ses s)"] assms(3)
  show ?thesis by (simp add: flow_ok_def [of c s] ledger_ok_def)
next
  case attaches
  with assms(3) show ?thesis by (auto simp: flow_ok_def ledger_frame Let_def attachRenderer_def intro: wake_ok_attach)
next
  case (detaches now g)
  with assms(3) show ?thesis by (auto simp: flow_ok_def ledger_frame Let_def detach_locked_def intro: wake_ok_send)
next
  case (detaches_active now)
  with assms(3) show ?thesis by (auto simp: flow_ok_def ledger_frame Let_def detach_active_locked_def intro: wake_ok_send)
qed

lemma flow_ok_run: "(flow_step c)\<^sup>*\<^sup>* s t \<Longrightarrow> contract_ok c \<Longrightarrow> flow_ok c s \<Longrightarrow> flow_ok c t"
  by (induction rule: rtranclp_induct) (auto intro: flow_ok_step)

subsection \<open>A paused pump is released\<close>

text \<open>The daemon's own moves: nothing of them waits for the client or the shell.\<close>

definition daemon_step :: "contract \<Rightarrow> flow \<Rightarrow> flow \<Rightarrow> bool" where
  "daemon_step c s t \<longleftrightarrow> pump_step c s t \<or> release_step c s t"

lemma daemon_pump: "pump_step c s t \<Longrightarrow> daemon_step c s t"
  by (simp add: daemon_step_def)

lemma daemon_release: "release_step c s t \<Longrightarrow> daemon_step c s t"
  by (simp add: daemon_step_def)

lemma signal_arrives:
  assumes "ses_resume (fl_ses s) \<or> 0 < fl_sends s
    \<or> w \<in> set (fl_checks s) \<and> ring_resumed c (ses_ring (fl_ses s)) w"
  shows "\<exists>t. (daemon_step c)\<^sup>*\<^sup>* s t \<and> ses_resume (fl_ses t) \<and> fl_pump t = fl_pump s
    \<and> fl_ses t = (fl_ses s)\<lparr>ses_resume := True\<rparr>"
proof -
  have sent: "\<exists>t. (daemon_step c)\<^sup>*\<^sup>* u t \<and> ses_resume (fl_ses t) \<and> fl_pump t = fl_pump u
      \<and> fl_ses t = (fl_ses u)\<lparr>ses_resume := True\<rparr>" if "0 < fl_sends u" for u
  proof -
    from that obtain n where "fl_sends u = Suc n" by (cases "fl_sends u") auto
    from daemon_release [OF release_step.send [OF this]] show ?thesis
      by (intro exI [of _ "u\<lparr>fl_sends := n, fl_ses := signal_resume (fl_ses u)\<rparr>"]) (auto simp: signal_resume_def)
  qed
  consider "ses_resume (fl_ses s)" | "0 < fl_sends s" | "w \<in> set (fl_checks s)" "ring_resumed c (ses_ring (fl_ses s)) w"
    using assms by auto
  then show ?thesis
  proof cases
    case 1
    then have "fl_ses s = (fl_ses s)\<lparr>ses_resume := True\<rparr>" by (cases "fl_ses s") simp
    with 1 show ?thesis by blast
  next
    case 2
    with sent show ?thesis by blast
  next
    case 3
    then obtain pre post where sp: "fl_checks s = pre @ w # post" by (meson split_list)
    define u where "u = s\<lparr>fl_checks := pre @ post, fl_sends := Suc (fl_sends s)\<rparr>"
    have "daemon_step c s u" unfolding u_def by (rule daemon_release [OF release_step.check_back [OF sp 3(2)]])
    moreover obtain t where "(daemon_step c)\<^sup>*\<^sup>* u t" "ses_resume (fl_ses t)" "fl_pump t = fl_pump s"
        "fl_ses t = (fl_ses s)\<lparr>ses_resume := True\<rparr>"
      using sent [of u] by (auto simp: u_def)
    ultimately show ?thesis by (blast intro: converse_rtranclp_into_rtranclp)
  qed
qed

lemma released_runs:
  assumes "fl_pump s = PumpChecking w"
    and "\<not> ses_rendererAttached (fl_ses s) \<or> \<not> ring_paused c (ses_ring (fl_ses s)) w"
  shows "\<exists>t. (daemon_step c)\<^sup>*\<^sup>* s t \<and> fl_pump t = PumpReading"
proof -
  have run: "\<exists>t. (daemon_step c)\<^sup>*\<^sup>* u t \<and> fl_pump t = PumpReading" if "fl_pump u = PumpReleased" for u
    using daemon_pump [OF pump_step.record_running [OF that]]
    by (intro exI [of _ "u\<lparr>fl_pump := PumpReading, fl_ses := (fl_ses u)\<lparr>ses_paused := False\<rparr>\<rparr>"]) auto
  show ?thesis
  proof (cases "ses_rendererAttached (fl_ses s)")
    case True
    then have p: "\<not> ring_paused c (ses_ring (fl_ses s)) w" using assms(2) by blast
    define u where "u = s\<lparr>fl_pump := PumpAsking w\<rparr>"
    define v where "v = u\<lparr>fl_pump := PumpReleased, fl_checked := True\<rparr>"
    have "daemon_step c s u" unfolding u_def by (rule daemon_pump [OF pump_step.check_attached [OF assms(1) True]])
    moreover have "daemon_step c u v"
      unfolding v_def by (rule daemon_pump [OF pump_step.ask_near [of u w]]) (use p in \<open>simp_all add: u_def\<close>)
    ultimately show ?thesis using run [of v] by (auto simp: v_def intro: converse_rtranclp_into_rtranclp)
  next
    case False
    from daemon_pump [OF pump_step.check_unattached [OF assms(1) False]]
      run [of "s\<lparr>fl_pump := PumpReleased, fl_checked := False\<rparr>"]
    show ?thesis by (auto intro: converse_rtranclp_into_rtranclp)
  qed
qed

text \<open>C17. No release of the pump is lost. However the pump's check, its decision to pause and its wait
  interleave with acknowledgements, detaches and the end: a pump that is waiting while no renderer
  is attached, or while the client has acknowledged back down to the low mark, comes to read from
  the shell again by the daemon's own moves alone.\<close>

theorem paused_pump_is_released:
  assumes "contract_ok c" and "flow_ok c s" and "(flow_step c)\<^sup>*\<^sup>* s t" and "fl_pump t = PumpParked w"
    and "\<not> ses_rendererAttached (fl_ses t) \<or> ring_resumed c (ses_ring (fl_ses t)) (ses_written (fl_ses t))"
  shows "\<exists>u. (daemon_step c)\<^sup>*\<^sup>* t u \<and> fl_pump u = PumpReading"
proof -
  have ok: "flow_ok c t" using flow_ok_run [OF assms(3,1,2)] .
  then have w: "w = ses_written (fl_ses t)" using assms(4) by (simp add: flow_ok_def wake_ok_def pc_simps)
  have "ses_resume (fl_ses t) \<or> 0 < fl_sends t
      \<or> w \<in> set (fl_checks t) \<and> ring_resumed c (ses_ring (fl_ses t)) w"
    using ok assms(4,5) by (auto simp: w flow_ok_def wake_ok_def pc_simps)
  then obtain u where u: "(daemon_step c)\<^sup>*\<^sup>* t u" "ses_resume (fl_ses u)" "fl_pump u = PumpParked w"
      "fl_ses u = (fl_ses t)\<lparr>ses_resume := True\<rparr>"
    using signal_arrives [of t w c] assms(4) by auto
  define v where "v = u\<lparr>fl_pump := PumpChecking w, fl_ses := (fl_ses u)\<lparr>ses_resume := False\<rparr>\<rparr>"
  have uv: "daemon_step c u v" unfolding v_def by (rule daemon_pump [OF pump_step.receive [OF u(3,2)]])
  have "\<not> ses_rendererAttached (fl_ses v) \<or> \<not> ring_paused c (ses_ring (fl_ses v)) w"
    using assms(5) paused_not_resumed [OF assms(1)] by (auto simp: v_def u(4) w)
  then obtain x where "(daemon_step c)\<^sup>*\<^sup>* v x" "fl_pump x = PumpReading"
    using released_runs [of v w c] by (auto simp: v_def)
  with u(1) uv show ?thesis by (meson converse_rtranclp_into_rtranclp rtranclp_trans)
qed

definition parked_flow :: flow where
  "parked_flow = \<lparr>fl_ses = (born_session small_contract 5)\<lparr>ses_ring := (newRing small_contract 8)\<lparr>ring_bytes := replicate 8 1\<rparr>,
       ses_written := 8, ses_rendererAttached := True, ses_paused := True\<rparr>,
     fl_heap = \<lparr>oh_obs = (\<lambda>_. newObserver 0), oh_next = 0\<rparr>, fl_pump = PumpParked 8, fl_checks = [], fl_sends = 0,
     fl_checked = False\<rparr>"

lemma parked_flow_ok: "flow_ok small_contract parked_flow"
  by (simp add: flow_ok_def ledger_ok_def wake_ok_def pc_simps parked_flow_def born_session_def ring_ok_def ring_wf_def
      newRing_def ring_live_def ring_resumed_def small_contract_def ring_bound_def word_le_nat_alt)

theorem paused_pump_is_released_witness:
  "\<exists>u. (daemon_step small_contract)\<^sup>*\<^sup>*
     (parked_flow\<lparr>fl_ses := ack_locked 6 (fl_ses parked_flow), fl_checks := [8]\<rparr>) u \<and> fl_pump u = PumpReading"
proof -
  let ?t = "parked_flow\<lparr>fl_ses := ack_locked 6 (fl_ses parked_flow), fl_checks := [8]\<rparr>"
  have "flow_step small_contract parked_flow ?t"
    using flow_step.acks [of small_contract parked_flow 6] by (simp add: parked_flow_def)
  then have run: "(flow_step small_contract)\<^sup>*\<^sup>* parked_flow ?t" by blast
  have "ring_resumed small_contract (ses_ring (fl_ses ?t)) (ses_written (fl_ses ?t))"
    by (simp add: parked_flow_def ack_locked_def ring_ack_def newRing_def ring_resumed_def small_contract_def word_le_nat_alt)
  then show ?thesis
    using paused_pump_is_released [OF small_contract_ok parked_flow_ok run, of 8] by (simp add: parked_flow_def)
qed

text \<open>C18. The backlog the pump checked is bounded. Whenever the pump reads and its last check saw a renderer
  attached (so that it asked how far the client is behind), fewer than the high mark's bytes are
  unacknowledged, and the read that follows, of at most one buffer, leaves fewer than the high mark
  and one buffer; acknowledgements never run ahead of what was written. Nothing is claimed of a
  read whose last check saw no renderer: a client that attaches while the pump is already in that
  read may be any distance behind.\<close>

theorem backlog_is_bounded:
  assumes "contract_ok c" and "flow_ok c s" and "(flow_step c)\<^sup>*\<^sup>* s t"
    and "fl_pump t = PumpReading" and "fl_checked t"
  shows "unat (ring_acked (ses_ring (fl_ses t))) \<le> unat (ses_written (fl_ses t))
    \<and> unat (ses_written (fl_ses t)) - unat (ring_acked (ses_ring (fl_ses t))) < HighWatermark c
    \<and> (\<forall>now data v h. length data \<le> bufferBytes \<and> unat (ses_written (fl_ses t)) + length data < 2 ^ 64
        \<and> pump_chunk c now data (fl_ses t, fl_heap t) = (v, h) \<longrightarrow>
          unat (ses_written v) - unat (ring_acked (ses_ring v)) < HighWatermark c + bufferBytes)"
proof -
  let ?v = "fl_ses t"
  have ok: "flow_ok c t" using flow_ok_run [OF assms(3,1,2)] .
  then have ledger: "ledger_ok c ?v" by (simp add: flow_ok_def)
  then have acked: "ring_acked (ses_ring ?v) \<le> ses_written ?v" by (auto simp: ledger_ok_def)
  have "\<not> ring_paused c (ses_ring ?v) (ses_written ?v)" using ok assms(4,5) by (simp add: flow_ok_def wake_ok_def)
  then have "unat (ses_written ?v - ring_acked (ses_ring ?v)) < unat (of_nat (HighWatermark c) :: u64)"
    by (simp add: ring_paused_def word_less_nat_alt not_le)
  also have "\<dots> = HighWatermark c" using assms(1) by (intro unat_of_nat_small) (simp add: contract_ok_def)
  finally have now: "unat (ses_written ?v) - unat (ring_acked (ses_ring ?v)) < HighWatermark c"
    using acked by (simp add: unat_sub_le word_le_nat_alt)
  have "unat (ses_written v) - unat (ring_acked (ses_ring v)) < HighWatermark c + bufferBytes"
    if "length data \<le> bufferBytes" "unat (ses_written ?v) + length data < 2 ^ 64"
      "pump_chunk c now data (?v, fl_heap t) = (v, h)" for now data v h
    using pump_chunk_ledger(3,4) [OF ledger that(2,3)] that(1) now by simp
  with acked now show ?thesis by (auto simp: word_le_nat_alt)
qed

theorem backlog_is_bounded_witness:
  "unat (ses_written (fl_ses (parked_flow\<lparr>fl_pump := PumpReading, fl_checked := True,
     fl_ses := (fl_ses parked_flow)\<lparr>ses_ring := (ses_ring (fl_ses parked_flow))\<lparr>ring_acked := 3\<rparr>\<rparr>\<rparr>))) - 3 < 8"
proof -
  let ?s = "parked_flow\<lparr>fl_pump := PumpReading, fl_checked := True,
     fl_ses := (fl_ses parked_flow)\<lparr>ses_ring := (ses_ring (fl_ses parked_flow))\<lparr>ring_acked := 3\<rparr>\<rparr>\<rparr>"
  have ok: "flow_ok small_contract ?s"
    by (simp add: flow_ok_def ledger_ok_def wake_ok_def pc_simps parked_flow_def born_session_def ring_ok_def ring_wf_def
        newRing_def ring_live_def ring_paused_def small_contract_def ring_bound_def word_le_nat_alt)
  have "HighWatermark small_contract = 8" by (simp add: small_contract_def)
  then show ?thesis
    using backlog_is_bounded [OF small_contract_ok ok rtranclp.rtrancl_refl]
    by (simp add: parked_flow_def)
qed

subsection \<open>The pause comes one read late\<close>

text \<open>C19. A client within its rights can lose output. The ring keeps the high mark's bytes and the
  pause is decided after a read was stored, so with one byte less than the high mark
  unacknowledged the pump still reads; a read of more than one byte then moves the ring's floor
  past the client's acknowledged coordinate, and the next read there is moved to the floor.\<close>

theorem pause_comes_late:
  assumes "contract_ok c" and "ring_ok c r" and "ring_leases r = []" and "ring_capacity r = int (HighWatermark c)"
    and "ring_acked r \<le> ring_live r"
    and "unat (ring_live r) - unat (ring_acked r) = HighWatermark c - 1"
    and "1 < length data" and "unat (ring_live r) + length data < 2 ^ 64"
  shows "\<not> ring_paused c r (ring_live r)
    \<and> (\<forall>r' live woken. ring_write c r data = (r', live, woken) \<longrightarrow> ring_acked r < ring_floor r')"
proof -
  have high: "0 < HighWatermark c" "HighWatermark c < 2 ^ 62" using assms(1) by (auto simp: contract_ok_def)
  have wf: "ring_wf r" using assms(2) by (simp add: ring_ok_def)
  have "unat (ring_live r - ring_acked r) < unat (of_nat (HighWatermark c) :: u64)"
    using high assms(5,6) by (simp add: unat_sub_le unat_of_nat_small)
  then have "\<not> ring_paused c r (ring_live r)" by (simp add: ring_paused_def word_le_nat_alt)
  moreover have "ring_acked r < ring_floor r'" if w: "ring_write c r data = (r', live, woken)" for r' live woken
  proof -
    define r1 where "r1 = r\<lparr>ring_bytes := ring_bytes r @ data\<rparr>"
    have wf1: "ring_wf r1" using ring_wf_append [OF wf, of data] assms(8) by (simp add: r1_def)
    have live1: "unat (ring_live r1) = unat (ring_live r) + length data"
      using wf wf1 by (simp add: unat_ring_live r1_def)
    have "ring_floor r' = ring_floor (trimLocked c r1)"
      using w by (auto simp: ring_write_def r1_def wakeLocked_def Let_def)
    also have "\<dots> = (if trim_target r1 > ring_floor r1 then trim_target r1 else ring_floor r1)"
      using assms(3) by (simp add: trimLocked_def r1_def)
    also have "\<dots> \<ge> trim_target r1" by (simp add: leI)
    finally have "trim_target r1 \<le> ring_floor r'" .
    moreover have "unat (trim_target r1) = unat (ring_live r1) - HighWatermark c"
    proof -
      have cap: "ring_capacity r1 = int (HighWatermark c)" using assms(4) by (simp add: r1_def)
      have h: "unat (of_nat (HighWatermark c) :: u64) = HighWatermark c" using high by (simp add: unat_of_nat_small)
      show ?thesis
        using h by (auto simp: trim_target_def cap unat_sub_le less_imp_le word_less_nat_alt)
    qed
    ultimately show ?thesis
      using live1 assms(5,6,7) high by (simp add: word_le_nat_alt word_less_nat_alt)
  qed
  ultimately show ?thesis by blast
qed

theorem pause_comes_late_witness:
  "\<exists>r' live woken. ring_write small_contract (ses_ring (fl_ses parked_flow)\<lparr>ring_acked := 1\<rparr>) [1, 2] = (r', live, woken)
     \<and> 1 < ring_floor r'"
proof -
  let ?r = "(ses_ring (fl_ses parked_flow))\<lparr>ring_acked := 1\<rparr>"
  have live: "ring_live ?r = 8" by (simp add: parked_flow_def newRing_def ring_live_def)
  have r: "ring_ok small_contract ?r" "ring_leases ?r = []" "ring_capacity ?r = int (HighWatermark small_contract)"
      "ring_acked ?r \<le> ring_live ?r" "unat (ring_live ?r) - unat (ring_acked ?r) = HighWatermark small_contract - 1"
      "1 < length [1, 2 :: byte]" "unat (ring_live ?r) + length [1, 2 :: byte] < 2 ^ 64"
    by (simp_all add: live, simp_all add: parked_flow_def newRing_def ring_ok_def ring_wf_def ring_bound_def small_contract_def
        word_le_nat_alt)
  from pause_comes_late [OF small_contract_ok r] show ?thesis
    by (cases "ring_write small_contract ?r [1, 2]") auto
qed

end
