(* ===== verification/Environment.thy ===== *)
theory Environment
  imports Prelude "HOL-Library.Char_ord" "HOL-Library.List_Lexorder"
begin

section \<open>The environment of a session (environment.go)\<close>

text \<open>
  How a session's environment is put together from the caller's entries (or the daemon's own when
  the caller sends none), the session variables, the names to drop and the terminal defaults.
  Strings are lists of characters, one for each byte, in the byte order \<open>sort.Strings\<close> uses.
  \<open>windows\<close> is whether the build runs on Windows, where names are compared in upper case;
  \<open>upper\<close> is \<open>strings.ToUpper\<close>, whose tables are Unicode's, and nothing is assumed of it.
  The variables are a Go map: an association list with distinct names, in the order one iteration
  happens to visit it.
\<close>

record environment =
  env_Replace :: "(string \<times> string) list"
  env_Variables :: "(string \<times> string) list"

subsection \<open>Entries and pairs\<close>

definition env_entry :: "string \<times> string \<Rightarrow> string" where
  "env_entry p = fst p @ ''='' @ snd p"

text \<open>\<open>strings.Cut(entry, "=")\<close>: what is before the first separator and what is after it.\<close>

fun Cut :: "char \<Rightarrow> string \<Rightarrow> (string \<times> string) option" where
  "Cut sep [] = None"
| "Cut sep (c # s) = (if c = sep then Some ([], s) else map_option (apfst (Cons c)) (Cut sep s))"

fun inherited :: "string list \<Rightarrow> (string \<times> string) list" where
  "inherited [] = []"
| "inherited (entry # own) = (case Cut (CHR ''='') entry of
     None \<Rightarrow> inherited own
   | Some p \<Rightarrow> p # inherited own)"

definition ttyDefaults :: "bool \<Rightarrow> (string \<times> string) list" where
  "ttyDefaults windows =
     [(''TERM'', ''xterm-256color''), (''COLORTERM'', ''truecolor'')]
     @ (if \<not> windows then [(''LANG'', ''en_US.UTF-8''), (''LC_CTYPE'', ''en_US.UTF-8'')] else [])"

subsection \<open>Putting it together\<close>

definition env_normalize :: "(string \<Rightarrow> string) \<Rightarrow> bool \<Rightarrow> string \<Rightarrow> string" where
  "env_normalize upper windows name = (if windows then upper name else name)"

text \<open>The loop over the entries: what was given so far and the result so far.\<close>

fun env_entries :: "(string \<Rightarrow> string) \<Rightarrow> string set \<Rightarrow> string set \<Rightarrow> (string \<times> string) list
    \<Rightarrow> string set \<times> string list \<Rightarrow> string set \<times> string list" where
  "env_entries norm dropped overridden [] acc = acc"
| "env_entries norm dropped overridden (entry # rest) (given, result) =
     (let key = norm (fst entry)
      in if key \<in> dropped then env_entries norm dropped overridden rest (given, result)
         else if key \<in> overridden then env_entries norm dropped overridden rest (given, result)
         else env_entries norm dropped overridden rest (insert key given, result @ [env_entry entry]))"

text \<open>A loop that appends a map's entries under a list of names.\<close>

definition env_named :: "(string \<times> string) list \<Rightarrow> string list \<Rightarrow> string list" where
  "env_named m names = map (\<lambda>name. env_entry (name, the (map_of m name))) names"

definition applyEnvironment :: "(string \<Rightarrow> string) \<Rightarrow> bool \<Rightarrow> (string \<times> string) list
    \<Rightarrow> (string \<times> string) list \<Rightarrow> string list \<Rightarrow> string list" where
  "applyEnvironment upper windows entries variables drops =
     (let norm = env_normalize upper windows;
          dropped = set (map norm drops);
          overridden = set (map (norm \<circ> fst) variables);
          (given, result) = env_entries norm dropped overridden entries ({}, []);
          names = sort (map fst variables);
          given = given \<union> set (map norm names);
          result = result @ env_named variables names;
          defaults = ttyDefaults windows;
          names = sort (filter (\<lambda>name. norm name \<notin> given \<and> norm name \<notin> dropped) (map fst defaults))
      in result @ env_named defaults names)"

definition sessionEnvironment :: "(string \<Rightarrow> string) \<Rightarrow> bool \<Rightarrow> string list \<Rightarrow> environment
    \<Rightarrow> string list \<Rightarrow> string list" where
  "sessionEnvironment upper windows own env drops =
     (let entries = (if length (env_Replace env) = 0 then inherited own else env_Replace env)
      in applyEnvironment upper windows entries (env_Variables env) drops)"

subsection \<open>Reading it back\<close>

lemma Cut_entry [simp]:
  "CHR ''='' \<notin> set name \<Longrightarrow> Cut (CHR ''='') (env_entry (name, content)) = Some (name, content)"
  by (induction name) (auto simp: env_entry_def)

lemma Cut_None_iff: "Cut sep s = None \<longleftrightarrow> sep \<notin> set s"
  by (induction s) auto

lemma Cut_Some: "Cut (CHR ''='') s = Some p \<Longrightarrow> env_entry p = s \<and> CHR ''='' \<notin> set (fst p)"
proof (induction s arbitrary: p)
  case (Cons c s)
  show ?case
  proof (cases "c = CHR ''=''")
    case True
    with Cons.prems show ?thesis by (auto simp: env_entry_def)
  next
    case False
    with Cons.prems obtain q where "Cut (CHR ''='') s = Some q" and "p = apfst (Cons c) q" by auto
    with Cons.IH [of q] False show ?thesis by (auto simp: env_entry_def apfst_def map_prod_def split: prod.splits)
  qed
qed simp

lemma inherited_names: "p \<in> set (inherited own) \<Longrightarrow> CHR ''='' \<notin> set (fst p)"
  by (induction own) (auto split: option.splits dest: Cut_Some)

lemma inherited_entries: "map env_entry (inherited own) = filter (\<lambda>e. CHR ''='' \<in> set e) own"
proof (induction own)
  case (Cons e own)
  then show ?case
    by (cases "Cut (CHR ''='') e") (use Cut_None_iff [of "CHR ''=''" e] in \<open>auto dest: Cut_Some\<close>)
qed simp

lemma inherited_of_entries:
  "\<forall>p \<in> set ps. CHR ''='' \<notin> set (fst p) \<Longrightarrow> inherited (map env_entry ps) = ps"
  by (induction ps) auto

subsection \<open>What each name gets\<close>

lemma env_entries_result:
  "env_entries norm dropped overridden entries (given, result) =
     (let kept = filter (\<lambda>e. norm (fst e) \<notin> dropped \<and> norm (fst e) \<notin> overridden) entries
      in (given \<union> set (map (norm \<circ> fst) kept), result @ map env_entry kept))"
  by (induction entries arbitrary: given result) (auto simp: Let_def)

definition named_pairs :: "(string \<times> string) list \<Rightarrow> string list \<Rightarrow> (string \<times> string) list" where
  "named_pairs m names = map (\<lambda>name. (name, the (map_of m name))) names"

lemma env_named_pairs: "env_named m names = map env_entry (named_pairs m names)"
  by (simp add: env_named_def named_pairs_def)

lemma set_named_pairs: "fst ` set (named_pairs m names) = set names"
  by (auto simp: named_pairs_def image_image)

definition sorted_pairs :: "(string \<times> string) list \<Rightarrow> (string \<times> string) list" where
  "sorted_pairs m = sort_key fst m"

lemma named_pairs_all:
  assumes "distinct (map fst m)"
  shows "named_pairs m (sort (map fst m)) = sorted_pairs m"
proof -
  have "map (\<lambda>p. (fst p, the (map_of m (fst p)))) (sort_key fst m) = sort_key fst m"
    using assms by (intro map_idI) (auto simp: map_of_eq_Some_iff)
  moreover have "sort (map fst m) = map fst (sort_key fst m)"
    by (rule properties_for_sort) simp_all
  ultimately show ?thesis by (simp add: named_pairs_def sorted_pairs_def comp_def)
qed

lemma named_pairs_filter:
  assumes "distinct (map fst m)"
  shows "named_pairs m (sort (filter P (map fst m))) = filter (P \<circ> fst) (sorted_pairs m)"
proof -
  have "sort (filter P (map fst m)) = filter P (sort (map fst m))" by (simp add: filter_sort)
  moreover have "named_pairs m (filter P ns) = filter (P \<circ> fst) (named_pairs m ns)" for ns
    by (simp add: named_pairs_def filter_map comp_def)
  ultimately show ?thesis by (simp add: named_pairs_all [OF assms])
qed

lemma ttyDefaults_distinct [simp]: "distinct (map fst (ttyDefaults windows))"
  by (cases windows) (simp_all add: ttyDefaults_def)

lemma ttyDefaults_names: "p \<in> set (ttyDefaults windows) \<Longrightarrow> CHR ''='' \<notin> set (fst p)"
  by (auto simp: ttyDefaults_def split: if_splits)

lemma set_sorted_pairs [simp]: "set (sorted_pairs m) = set m"
  by (simp add: sorted_pairs_def)

text \<open>The pairs the environment is made of, in three blocks.\<close>

definition kept_entries :: "(string \<Rightarrow> string) \<Rightarrow> (string \<times> string) list \<Rightarrow> string list
    \<Rightarrow> (string \<times> string) list \<Rightarrow> (string \<times> string) list" where
  "kept_entries norm variables drops entries = filter (\<lambda>e. norm (fst e) \<notin> norm ` set drops
     \<and> norm (fst e) \<notin> (norm \<circ> fst) ` set variables) entries"

definition free_defaults :: "(string \<Rightarrow> string) \<Rightarrow> bool \<Rightarrow> (string \<times> string) list \<Rightarrow> string list
    \<Rightarrow> (string \<times> string) list \<Rightarrow> (string \<times> string) list" where
  "free_defaults norm windows variables drops entries = filter (\<lambda>p.
     norm (fst p) \<notin> (norm \<circ> fst) ` set (kept_entries norm variables drops entries)
     \<and> norm (fst p) \<notin> (norm \<circ> fst) ` set variables \<and> norm (fst p) \<notin> norm ` set drops)
     (sorted_pairs (ttyDefaults windows))"

lemma applyEnvironment_blocks:
  assumes "distinct (map fst variables)"
  shows "applyEnvironment upper windows entries variables drops =
    map env_entry (kept_entries (env_normalize upper windows) variables drops entries
      @ sorted_pairs variables
      @ free_defaults (env_normalize upper windows) windows variables drops entries)"
  using assms
  by (simp add: applyEnvironment_def Let_def env_entries_result env_named_pairs named_pairs_all
      named_pairs_filter kept_entries_def free_defaults_def comp_def image_image)

text \<open>The entries a session starts from: the caller's when it sends any, else the daemon's own.\<close>

definition env_source :: "string list \<Rightarrow> environment \<Rightarrow> (string \<times> string) list" where
  "env_source own env = (if env_Replace env = [] then inherited own else env_Replace env)"

definition env_names_ok :: "environment \<Rightarrow> bool" where
  "env_names_ok env \<longleftrightarrow> distinct (map fst (env_Variables env))
     \<and> (\<forall>p \<in> set (env_Replace env) \<union> set (env_Variables env). CHR ''='' \<notin> set (fst p))"

lemma sessionEnvironment_pairs:
  assumes "env_names_ok env"
  shows "inherited (sessionEnvironment upper windows own env drops) =
    kept_entries (env_normalize upper windows) (env_Variables env) drops (env_source own env)
      @ sorted_pairs (env_Variables env)
      @ free_defaults (env_normalize upper windows) windows (env_Variables env) drops (env_source own env)"
proof -
  have 1: "distinct (map fst (env_Variables env))" using assms by (simp add: env_names_ok_def)
  have 2: "CHR ''='' \<notin> set (fst p)" if "p \<in> set (env_source own env)" for p
    using that assms inherited_names by (auto simp: env_names_ok_def env_source_def split: if_splits)
  have 3: "CHR ''='' \<notin> set (fst p)" if "p \<in> set (env_Variables env)" for p
    using that assms by (auto simp: env_names_ok_def)
  show ?thesis
    unfolding sessionEnvironment_def Let_def applyEnvironment_blocks [OF 1] length_0_conv
      env_source_def [symmetric]
    by (rule inherited_of_entries) (auto simp: kept_entries_def free_defaults_def dest: 2 3 ttyDefaults_names)
qed

subsection \<open>Properties\<close>

lemma kept_entries_key:
  "filter (\<lambda>p. norm (fst p) = k) (kept_entries norm variables drops entries) =
    (if k \<in> (norm \<circ> fst) ` set variables \<or> k \<in> norm ` set drops then []
     else filter (\<lambda>p. norm (fst p) = k) entries)"
  by (induction entries) (auto simp: kept_entries_def)

lemma kept_entries_named:
  assumes "k \<notin> (norm \<circ> fst) ` set variables" and "k \<notin> norm ` set drops"
  shows "k \<in> (norm \<circ> fst) ` set (kept_entries norm variables drops entries)
    \<longleftrightarrow> k \<in> (norm \<circ> fst) ` set entries"
  using assms by (auto simp: kept_entries_def)

lemma free_defaults_key:
  "filter (\<lambda>p. norm (fst p) = k) (free_defaults norm windows variables drops entries) =
    (if k \<in> (norm \<circ> fst) ` set variables \<or> k \<in> norm ` set drops \<or> k \<in> (norm \<circ> fst) ` set entries then []
     else filter (\<lambda>p. norm (fst p) = k) (sorted_pairs (ttyDefaults windows)))"
proof (cases "k \<in> (norm \<circ> fst) ` set variables \<or> k \<in> norm ` set drops")
  case True
  then show ?thesis by (auto simp: free_defaults_def filter_empty_conv)
next
  case False
  with kept_entries_named [of k norm variables drops entries] show ?thesis
    by (auto simp: free_defaults_def filter_empty_conv intro!: filter_cong)
qed

lemma unnamed_empty: "k \<notin> (norm \<circ> fst) ` set ps \<Longrightarrow> filter (\<lambda>p. norm (fst p) = k) ps = []"
  by (auto simp: filter_empty_conv)

definition env_under :: "(string \<Rightarrow> string) \<Rightarrow> bool \<Rightarrow> string \<Rightarrow> (string \<times> string) list \<Rightarrow> (string \<times> string) list" where
  "env_under upper windows k ps = filter (\<lambda>p. env_normalize upper windows (fst p) = k) ps"

definition env_has :: "(string \<Rightarrow> string) \<Rightarrow> bool \<Rightarrow> string \<Rightarrow> string list \<Rightarrow> bool" where
  "env_has upper windows k names \<longleftrightarrow> k \<in> env_normalize upper windows ` set names"

text \<open>C27. What each name of a session's environment is given, and nothing else. Read back entry by
  entry, the environment holds under a name (compared as the platform compares names) exactly the
  session's own variable when there is one, dropped or not; otherwise nothing when the name was
  dropped; otherwise the caller's entries of that name, or the daemon's own when the caller sent
  none at all; and only when none of these names it, the terminal default. Every entry of the
  result is well formed.\<close>

theorem environment_decides:
  assumes "env_names_ok env"
  shows "env_under upper windows k (inherited (sessionEnvironment upper windows own env drops)) =
      (if env_has upper windows k (map fst (env_Variables env)) then env_under upper windows k (sorted_pairs (env_Variables env))
       else if env_has upper windows k drops then []
       else if env_has upper windows k (map fst (env_source own env)) then env_under upper windows k (env_source own env)
       else env_under upper windows k (sorted_pairs (ttyDefaults windows)))
    \<and> map env_entry (inherited (sessionEnvironment upper windows own env drops))
      = sessionEnvironment upper windows own env drops"
proof -
  have d: "distinct (map fst (env_Variables env))" using assms(1) by (simp add: env_names_ok_def)
  have "map env_entry (inherited (sessionEnvironment upper windows own env drops))
      = sessionEnvironment upper windows own env drops"
    unfolding sessionEnvironment_pairs [OF assms(1)]
    by (simp add: sessionEnvironment_def Let_def applyEnvironment_blocks [OF d] env_source_def)
  moreover have "k \<notin> (env_normalize upper windows \<circ> fst) ` set (env_Variables env) \<Longrightarrow>
      env_under upper windows k (sorted_pairs (env_Variables env)) = []"
    unfolding env_under_def by (rule unnamed_empty) simp
  moreover have "k \<notin> (env_normalize upper windows \<circ> fst) ` set (env_source own env) \<Longrightarrow>
      env_under upper windows k (env_source own env) = []"
    unfolding env_under_def by (rule unnamed_empty)
  ultimately show ?thesis
    by (simp add: sessionEnvironment_pairs [OF assms(1)] env_under_def env_has_def kept_entries_key free_defaults_key
        image_comp)
qed

definition sample_env :: environment where
  "sample_env = \<lparr>env_Replace = [], env_Variables = [(''SOKSAK_B'', ''2''), (''SOKSAK_A'', ''1'')]\<rparr>"

theorem environment_decides_witness:
  "env_under id False ''SOKSAK_A''
     (inherited (sessionEnvironment id False [''SOKSAK_A=0'', ''PATH=/bin'', ''LANG=ko''] sample_env [''SOKSAK_A'']))
     = [(''SOKSAK_A'', ''1'')]
   \<and> sessionEnvironment id False [''SOKSAK_A=0'', ''PATH=/bin'', ''LANG=ko''] sample_env [''SOKSAK_A'']
     = [''PATH=/bin'', ''LANG=ko'', ''SOKSAK_A=1'', ''SOKSAK_B=2'', ''COLORTERM=truecolor'',
        ''LC_CTYPE=en_US.UTF-8'', ''TERM=xterm-256color'']"
proof -
  have 1: "env_names_ok sample_env" by (simp add: env_names_ok_def sample_env_def)
  have 2: "sessionEnvironment id False [''SOKSAK_A=0'', ''PATH=/bin'', ''LANG=ko''] sample_env [''SOKSAK_A'']
     = [''PATH=/bin'', ''LANG=ko'', ''SOKSAK_A=1'', ''SOKSAK_B=2'', ''COLORTERM=truecolor'',
        ''LC_CTYPE=en_US.UTF-8'', ''TERM=xterm-256color'']" by code_simp
  show ?thesis using environment_decides [OF 1, of id False "''SOKSAK_A''"
      "[''SOKSAK_A=0'', ''PATH=/bin'', ''LANG=ko'']" "[''SOKSAK_A'']"] 2
    by (simp add: env_normalize_def sorted_pairs_def sample_env_def env_under_def env_has_def)
qed

text \<open>A daemon's own environment passes through unchanged: when the caller sends neither entries
  nor variables nor names to drop, and the daemon's environment names every terminal default, the
  session runs in exactly the well-formed entries of the daemon's environment, in their order,
  entries that begin with the separator included.\<close>

theorem inherited_environment_roundtrip:
  assumes "env_Replace env = []" and "env_Variables env = []"
    and "\<forall>p \<in> set (ttyDefaults windows). \<exists>v. fst p @ ''='' @ v \<in> set own"
  shows "sessionEnvironment upper windows own env [] = filter (\<lambda>e. CHR ''='' \<in> set e) own"
proof -
  have "fst p \<in> fst ` set (inherited own)" if default: "p \<in> set (ttyDefaults windows)" for p
  proof -
    obtain v where v: "env_entry (fst p, v) \<in> set own" using assms(3) default unfolding env_entry_def by auto
    then have "env_entry (fst p, v) \<in> env_entry ` set (inherited own)"
      using arg_cong [OF inherited_entries [of own], of set] by (auto simp: env_entry_def)
    then obtain q where q: "q \<in> set (inherited own)" "env_entry q = env_entry (fst p, v)" by auto
    then have "Cut (CHR ''='') (env_entry q) = Some (fst p, v)"
      using ttyDefaults_names [OF default] by simp
    moreover have "Cut (CHR ''='') (env_entry q) = Some q"
      using inherited_names [OF q(1)] Cut_entry [of "fst q" "snd q"] by simp
    ultimately have "q = (fst p, v)" by simp
    with q(1) show ?thesis by (simp add: rev_image_eqI)
  qed
  then have "free_defaults (env_normalize upper windows) windows [] [] (inherited own) = []"
    by (force simp: free_defaults_def filter_empty_conv kept_entries_def)
  then show ?thesis
    using assms(1,2) inherited_entries [of own]
    by (simp add: sessionEnvironment_def applyEnvironment_blocks sorted_pairs_def kept_entries_def)
qed

theorem inherited_environment_roundtrip_witness:
  "sessionEnvironment id True [''=C:=C:/x'', ''junk'', ''TERM=dumb'', ''COLORTERM='']
     \<lparr>env_Replace = [], env_Variables = []\<rparr> [] = [''=C:=C:/x'', ''TERM=dumb'', ''COLORTERM='']"
proof -
  have 1: "\<forall>p \<in> set (ttyDefaults True). \<exists>v. fst p @ ''='' @ v
      \<in> set [''=C:=C:/x'', ''junk'', ''TERM=dumb'', ''COLORTERM='']"
    by (simp add: ttyDefaults_def)
  show ?thesis
    by (subst inherited_environment_roundtrip [OF _ _ 1]) simp_all
qed

end
