(* ===== verification/Inventory.thy ===== *)
theory Inventory
  imports Prelude "HOL-Library.Char_ord" "HOL-Library.List_Lexorder"
begin

section \<open>The process inventory (process_inventory_state.go)\<close>

text \<open>
  The one owner of process revisions. Subscriptions are Go channels shared by pointer between the
  owner and the connection that reads them, so they live in a heap by address; a channel is its
  buffered events and whether it was closed. Go maps are association lists. Every operation is one
  critical section of the inventory's lock.
\<close>

subsection \<open>Data\<close>

record Process =
  prc_ID :: string
  prc_Owner :: string
  prc_Window :: "string option"
  prc_Pane :: "string option"
  prc_CWD :: string
  prc_PID :: u32
  prc_ParentPID :: u32
  prc_Command :: string
  prc_State :: string
  prc_StartedAtUnixMs :: int
  prc_EndedAtUnixMs :: "int option"

datatype process_kind = ProcessStarted | ProcessUpdated | ProcessEnded

record ProcessEvent =
  evt_Revision :: u64
  evt_Kind :: process_kind
  evt_Process :: Process

record ProcessInventory =
  pin_Revision :: u64
  pin_Processes :: "Process list"

definition processEventBuffer :: nat where
  "processEventBuffer = 64"

record processEventSubscription =
  sub_events :: "ProcessEvent list"
  sub_closed :: bool

record processInventoryState =
  inv_revision :: u64
  inv_sessions :: "(u64 \<times> (string \<times> Process) list) list"
  inv_processes :: "(string \<times> Process) list"
  inv_observers :: "nat list"
  inv_subs :: "nat \<Rightarrow> processEventSubscription"
  inv_next :: nat

definition newProcessInventoryState :: processInventoryState where
  "newProcessInventoryState = \<lparr>inv_revision = 0, inv_sessions = [], inv_processes = [], inv_observers = [],
     inv_subs = (\<lambda>_. \<lparr>sub_events = [], sub_closed = False\<rparr>), inv_next = 0\<rparr>"

subsection \<open>Records\<close>

definition cloneOptionalString :: "string option \<Rightarrow> string option" where
  "cloneOptionalString v = (case v of None \<Rightarrow> None | Some s \<Rightarrow> Some s)"

definition cloneProcess :: "Process \<Rightarrow> Process" where
  "cloneProcess p =
     (let p = p\<lparr>prc_Window := cloneOptionalString (prc_Window p)\<rparr>;
          p = p\<lparr>prc_Pane := cloneOptionalString (prc_Pane p)\<rparr>
      in case prc_EndedAtUnixMs p of None \<Rightarrow> p | Some at \<Rightarrow> p\<lparr>prc_EndedAtUnixMs := Some at\<rparr>)"

definition sameOptionalString :: "string option \<Rightarrow> string option \<Rightarrow> bool" where
  "sameOptionalString left right =
     (if left = None \<or> right = None then left = None \<and> right = None else the left = the right)"

definition sameOptionalInt64 :: "int option \<Rightarrow> int option \<Rightarrow> bool" where
  "sameOptionalInt64 left right =
     (if left = None \<or> right = None then left = None \<and> right = None else the left = the right)"

definition sameProcessRecord :: "Process \<Rightarrow> Process \<Rightarrow> bool" where
  "sameProcessRecord left right \<longleftrightarrow> prc_ID left = prc_ID right \<and> prc_Owner left = prc_Owner right
     \<and> sameOptionalString (prc_Window left) (prc_Window right)
     \<and> sameOptionalString (prc_Pane left) (prc_Pane right)
     \<and> prc_CWD left = prc_CWD right \<and> prc_PID left = prc_PID right
     \<and> prc_ParentPID left = prc_ParentPID right \<and> prc_Command left = prc_Command right
     \<and> prc_State left = prc_State right \<and> prc_StartedAtUnixMs left = prc_StartedAtUnixMs right
     \<and> sameOptionalInt64 (prc_EndedAtUnixMs left) (prc_EndedAtUnixMs right)"

definition sortedProcessIDs :: "(string \<times> 'a) list \<Rightarrow> string list" where
  "sortedProcessIDs records = sort (map fst records)"

subsection \<open>Publishing and replacing\<close>

text \<open>The send with a default: a full channel is closed and its observer forgotten.\<close>

definition offer_event :: "ProcessEvent \<Rightarrow> processEventSubscription \<Rightarrow> processEventSubscription" where
  "offer_event event subscr =
     (if length (sub_events subscr) < processEventBuffer then subscr\<lparr>sub_events := sub_events subscr @ [event]\<rparr>
      else subscr\<lparr>sub_closed := True\<rparr>)"

definition publishLocked :: "process_kind \<Rightarrow> Process \<Rightarrow> processInventoryState
    \<Rightarrow> ProcessEvent \<times> processInventoryState" where
  "publishLocked kind p state =
     (let revision = inv_revision state + 1;
          event = \<lparr>evt_Revision = revision, evt_Kind = kind, evt_Process = cloneProcess p\<rparr>
      in (event, state\<lparr>inv_revision := revision,
            inv_observers := filter (\<lambda>i. length (sub_events (inv_subs state i)) < processEventBuffer) (inv_observers state),
            inv_subs := (\<lambda>i. if i \<in> set (inv_observers state) then offer_event event (inv_subs state i)
                            else inv_subs state i)\<rparr>))"

text \<open>The two loops of a replacement, with the changes reported so far.\<close>

fun replace_next :: "(string \<times> Process) list \<Rightarrow> (string \<times> Process) list \<Rightarrow> string list
    \<Rightarrow> ProcessEvent list \<times> processInventoryState \<Rightarrow> ProcessEvent list \<times> processInventoryState" where
  "replace_next previous nextByID [] acc = acc"
| "replace_next previous nextByID (ident # ids) (changes, state) =
     (let p = the (map_of nextByID ident)
      in case map_of previous ident of
           Some before \<Rightarrow>
             if sameProcessRecord before p then replace_next previous nextByID ids (changes, state)
             else (let (event, state) = publishLocked ProcessUpdated p state
                   in replace_next previous nextByID ids (changes @ [event],
                        state\<lparr>inv_processes := AList.update ident (cloneProcess p) (inv_processes state)\<rparr>))
         | None \<Rightarrow>
             (let (event, state) = publishLocked ProcessStarted p state
              in replace_next previous nextByID ids (changes @ [event],
                   state\<lparr>inv_processes := AList.update ident (cloneProcess p) (inv_processes state)\<rparr>)))"

definition ended_record :: "int \<Rightarrow> Process \<Rightarrow> Process" where
  "ended_record endedAtUnixMs p = (cloneProcess p)\<lparr>prc_State := ''ended'', prc_EndedAtUnixMs := Some endedAtUnixMs\<rparr>"

fun replace_ended :: "(string \<times> Process) list \<Rightarrow> int \<Rightarrow> string list
    \<Rightarrow> ProcessEvent list \<times> processInventoryState \<Rightarrow> ProcessEvent list \<times> processInventoryState" where
  "replace_ended previous at [] acc = acc"
| "replace_ended previous at (ident # ids) (changes, state) =
     (let (event, state) = publishLocked ProcessEnded (ended_record at (the (map_of previous ident))) state
      in replace_ended previous at ids (changes @ [event],
           state\<lparr>inv_processes := AList.delete ident (inv_processes state)\<rparr>))"

definition by_id :: "Process list \<Rightarrow> (string \<times> Process) list" where
  "by_id ps = fold (\<lambda>p m. AList.update (prc_ID p) (cloneProcess p) m) ps []"

definition replaceSession :: "u64 \<Rightarrow> Process list \<Rightarrow> int \<Rightarrow> processInventoryState
    \<Rightarrow> ProcessEvent list \<times> processInventoryState" where
  "replaceSession sessionID following endedAtUnixMs state =
     (let previous = (case map_of (inv_sessions state) sessionID of None \<Rightarrow> [] | Some m \<Rightarrow> m);
          nextByID = by_id following;
          nextIDs = sortedProcessIDs nextByID;
          endedIDs = sort (filter (\<lambda>ident. map_of nextByID ident = None) (map fst previous));
          (changes, state) = replace_next previous nextByID nextIDs ([], state);
          (changes, state) = replace_ended previous endedAtUnixMs endedIDs (changes, state)
      in (changes, state\<lparr>inv_sessions :=
           (if nextByID = [] then AList.delete sessionID (inv_sessions state)
            else AList.update sessionID nextByID (inv_sessions state))\<rparr>))"

subsection \<open>Snapshots and subscriptions\<close>

definition snapshotLocked :: "processInventoryState \<Rightarrow> ProcessInventory" where
  "snapshotLocked state = \<lparr>pin_Revision = inv_revision state,
     pin_Processes = map (\<lambda>ident. cloneProcess (the (map_of (inv_processes state) ident)))
       (sortedProcessIDs (inv_processes state))\<rparr>"

definition inventory_snapshot :: "processInventoryState \<Rightarrow> ProcessInventory" where
  "inventory_snapshot state = snapshotLocked state"

definition inventory_observe :: "processInventoryState \<Rightarrow> ProcessInventory \<times> nat \<times> processInventoryState" where
  "inventory_observe state =
     (let i = inv_next state;
          state = state\<lparr>inv_next := Suc i, inv_subs := (inv_subs state)(i := \<lparr>sub_events = [], sub_closed = False\<rparr>),
                        inv_observers := i # inv_observers state\<rparr>
      in (snapshotLocked state, i, state))"

text \<open>
  The stop function: \<open>once\<close> is the \<open>sync.Once\<close> of the subscription, and a second call of a
  performed stop finds nothing to remove either way.
\<close>

definition inventory_stop :: "nat \<Rightarrow> processInventoryState \<Rightarrow> processInventoryState" where
  "inventory_stop i state =
     (if i \<in> set (inv_observers state)
      then state\<lparr>inv_observers := removeAll i (inv_observers state),
                 inv_subs := (inv_subs state)(i := (inv_subs state i)\<lparr>sub_closed := True\<rparr>)\<rparr>
      else state)"

text \<open>One receive of the loop in \<open>processObserve\<close>: the oldest event, the end of a closed channel, or a wait.\<close>

datatype receive_result = RecvEvent ProcessEvent | RecvClosed | RecvWait

definition sub_receive :: "nat \<Rightarrow> processInventoryState \<Rightarrow> receive_result \<times> processInventoryState" where
  "sub_receive i state = (case sub_events (inv_subs state i) of
     event # rest \<Rightarrow> (RecvEvent event, state\<lparr>inv_subs := (inv_subs state)(i := (inv_subs state i)\<lparr>sub_events := rest\<rparr>)\<rparr>)
   | [] \<Rightarrow> (if sub_closed (inv_subs state i) then RecvClosed else RecvWait, state))"

subsection \<open>Records compare and copy as values\<close>

lemma cloneProcess_id [simp]: "cloneProcess p = p"
  by (cases p) (simp add: cloneProcess_def cloneOptionalString_def Let_def split: option.splits)

lemma sameProcessRecord_eq [simp]: "sameProcessRecord p q \<longleftrightarrow> p = q"
  by (cases p; cases q)
    (auto simp: sameProcessRecord_def sameOptionalString_def sameOptionalInt64_def split: if_splits)

lemma map_of_fold_by_id:
  "map_of (fold (\<lambda>p. AList.update (prc_ID p) p) ps m0)
     = map_of m0 ++ map_of (rev (map (\<lambda>p. (prc_ID p, p)) ps))"
  by (induction ps arbitrary: m0) (auto simp: AList.update_conv' map_add_def fun_eq_iff split: option.splits)

lemma map_of_by_id: "map_of (by_id ps) = map_of (rev (map (\<lambda>p. (prc_ID p, p)) ps))"
  by (simp add: by_id_def map_of_fold_by_id)

lemma by_id_ID: "map_of (by_id ps) ident = Some p \<Longrightarrow> prc_ID p = ident \<and> p \<in> set ps"
  by (auto simp: map_of_by_id dest!: map_of_SomeD)

lemma distinct_by_id [simp]: "distinct (map fst (by_id ps))"
proof -
  have "distinct (map fst m) \<Longrightarrow> distinct (map fst (fold (\<lambda>p. AList.update (prc_ID p) p) ps m))" for m
    by (induction ps arbitrary: m) (simp_all add: distinct_update)
  then show ?thesis by (simp add: by_id_def)
qed

lemma by_id_empty [simp]: "by_id ps = [] \<longleftrightarrow> ps = []"
proof (cases ps rule: rev_cases)
  case (snoc qs q)
  have "map_of (by_id ps) (prc_ID q) = Some q" by (simp add: map_of_by_id snoc)
  then have "by_id ps \<noteq> []" by auto
  with snoc show ?thesis by simp
qed (simp add: by_id_def)

subsection \<open>What a sequence of events does\<close>

definition apply_event :: "ProcessEvent \<Rightarrow> (string \<rightharpoonup> Process) \<Rightarrow> (string \<rightharpoonup> Process)" where
  "apply_event event m = (let p = evt_Process event in
     if evt_Kind event = ProcessEnded then m(prc_ID p := None) else m(prc_ID p \<mapsto> p))"

definition replay :: "ProcessEvent list \<Rightarrow> (string \<rightharpoonup> Process) \<Rightarrow> (string \<rightharpoonup> Process)" where
  "replay events m = fold apply_event events m"

lemma replay_Nil [simp]: "replay [] m = m"
  by (simp add: replay_def)

lemma replay_append: "replay (a @ b) m = replay b (replay a m)"
  by (simp add: replay_def)

fun numbered :: "u64 \<Rightarrow> ProcessEvent list \<Rightarrow> bool" where
  "numbered revision [] \<longleftrightarrow> True"
| "numbered revision (event # events) \<longleftrightarrow> evt_Revision event = revision + 1 \<and> numbered (revision + 1) events"

lemma numbered_append:
  "numbered r (a @ b) \<longleftrightarrow> numbered r a \<and> numbered (r + of_nat (length a)) b"
  by (induction a arbitrary: r) (auto simp: algebra_simps)

lemma numbered_take: "numbered r a \<Longrightarrow> numbered r (take k a)"
  by (metis append_take_drop_id numbered_append)

text \<open>What happens to one subscription while \<open>events\<close> are announced.\<close>

definition sub_follows :: "ProcessEvent list \<Rightarrow> bool \<Rightarrow> bool \<Rightarrow> processEventSubscription
    \<Rightarrow> processEventSubscription \<Rightarrow> bool" where
  "sub_follows events was isnow s s' \<longleftrightarrow>
     (if isnow then was \<and> s' = s\<lparr>sub_events := sub_events s @ events\<rparr>
      else if was then sub_closed s' \<and> (\<exists>k \<le> length events. sub_events s' = sub_events s @ take k events)
      else s' = s)"

definition announced :: "ProcessEvent list \<Rightarrow> processInventoryState \<Rightarrow> processInventoryState \<Rightarrow> bool" where
  "announced events s s' \<longleftrightarrow> inv_revision s' = inv_revision s + of_nat (length events)
     \<and> numbered (inv_revision s) events
     \<and> map_of (inv_processes s') = replay events (map_of (inv_processes s))
     \<and> inv_sessions s' = inv_sessions s \<and> inv_next s' = inv_next s
     \<and> (\<forall>i. sub_follows events (i \<in> set (inv_observers s)) (i \<in> set (inv_observers s')) (inv_subs s i) (inv_subs s' i))"

lemma sub_follows_trans:
  assumes "sub_follows a x y s t" and "sub_follows b y z t u"
  shows "sub_follows (a @ b) x z s u"
proof -
  have "\<exists>k \<le> length a + length b. sub_events s @ a @ take k' b = sub_events s @ take k a @ take (k - length a) b"
    if "k' \<le> length b" for k'
    using that by (intro exI [of _ "length a + k'"]) simp
  moreover have "\<exists>k \<le> length a + length b. sub_events s @ take k' a = sub_events s @ take k a @ take (k - length a) b"
    if "k' \<le> length a" for k'
    using that by (intro exI [of _ k']) simp
  ultimately show ?thesis
    using assms unfolding sub_follows_def by (cases x; cases y; cases z) auto
qed

lemma announced_trans:
  assumes "announced a s t" and "announced b t u"
  shows "announced (a @ b) s u"
proof -
  have "sub_follows (a @ b) (i \<in> set (inv_observers s)) (i \<in> set (inv_observers u)) (inv_subs s i) (inv_subs u i)" for i
    using assms unfolding announced_def by (intro sub_follows_trans) blast+
  with assms show ?thesis by (simp add: announced_def numbered_append replay_append algebra_simps)
qed

lemma announced_refl: "announced [] s s"
  by (simp add: announced_def sub_follows_def)

lemma announced_one:
  assumes "publishLocked kind p s = (event, s1)"
    and "map_of m = apply_event event (map_of (inv_processes s))"
  shows "announced [event] s (s1\<lparr>inv_processes := m\<rparr>) \<and> event = \<lparr>evt_Revision = inv_revision s + 1, evt_Kind = kind, evt_Process = p\<rparr>"
proof -
  have "sub_follows [event] (i \<in> set (inv_observers s)) (i \<in> set (inv_observers s1)) (inv_subs s i) (inv_subs s1 i)" for i
    using assms(1) by (auto simp: publishLocked_def Let_def sub_follows_def offer_event_def intro: exI [of _ 0])
  with assms show ?thesis
    by (auto simp: announced_def publishLocked_def Let_def replay_def)
qed

subsection \<open>What a replacement reports\<close>

definition reports :: "ProcessEvent list \<Rightarrow> (process_kind \<times> Process) list" where
  "reports events = map (\<lambda>e. (evt_Kind e, evt_Process e)) events"

lemma reports_simps [simp]: "reports [] = []" "reports (a @ b) = reports a @ reports b"
  "reports [\<lparr>evt_Revision = r, evt_Kind = k, evt_Process = p\<rparr>] = [(k, p)]"
  by (simp_all add: reports_def)

definition change_of :: "(string \<rightharpoonup> Process) \<Rightarrow> (string \<rightharpoonup> Process) \<Rightarrow> string \<Rightarrow> (process_kind \<times> Process) list" where
  "change_of previous following ident = (let p = the (following ident) in
     case previous ident of None \<Rightarrow> [(ProcessStarted, p)]
     | Some before \<Rightarrow> if before = p then [] else [(ProcessUpdated, p)])"

definition end_of :: "(string \<rightharpoonup> Process) \<Rightarrow> int \<Rightarrow> string \<Rightarrow> process_kind \<times> Process" where
  "end_of previous at ident = (ProcessEnded, ended_record at (the (previous ident)))"

definition keyed :: "(string \<times> Process) list \<Rightarrow> bool" where
  "keyed m \<longleftrightarrow> distinct (map fst m) \<and> (\<forall>k p. map_of m k = Some p \<longrightarrow> prc_ID p = k)"

lemma keyed_by_id: "keyed (by_id ps)"
  using by_id_ID by (auto simp: keyed_def)

lemma replace_next_announced:
  assumes "\<forall>k \<in> set idents. \<exists>p. map_of nxt k = Some p \<and> prc_ID p = k"
  shows "\<exists>events. fst (replace_next previous nxt idents (changes, s)) = changes @ events
    \<and> announced events s (snd (replace_next previous nxt idents (changes, s)))
    \<and> reports events = concat (map (change_of (map_of previous) (map_of nxt)) idents)"
  using assms
proof (induction idents arbitrary: changes s)
  case Nil
  show ?case by (auto simp: announced_refl intro: exI [of _ "[]"])
next
  case (Cons k idents)
  obtain p where p: "map_of nxt k = Some p" "prc_ID p = k" using Cons.prems by auto
  show ?case
  proof (cases "map_of previous k = Some p")
    case True
    with Cons p show ?thesis by (simp add: change_of_def)
  next
    case False
    define kind where "kind = (if map_of previous k = None then ProcessStarted else ProcessUpdated)"
    obtain event s1 where pub: "publishLocked kind p s = (event, s1)" by fastforce
    define s2 where "s2 = s1\<lparr>inv_processes := AList.update k p (inv_processes s1)\<rparr>"
    have same: "inv_processes s1 = inv_processes s" and ev: "event = \<lparr>evt_Revision = inv_revision s + 1, evt_Kind = kind, evt_Process = p\<rparr>"
      using pub by (auto simp: publishLocked_def Let_def)
    have one: "announced [event] s s2"
      unfolding s2_def using announced_one [OF pub] p
      by (simp add: same ev apply_event_def kind_def AList.update_conv')
    have step: "replace_next previous nxt (k # idents) (changes, s) = replace_next previous nxt idents (changes @ [event], s2)"
      using False pub p by (auto simp: kind_def s2_def Let_def split: option.splits)
    obtain events where es: "fst (replace_next previous nxt idents (changes @ [event], s2)) = (changes @ [event]) @ events"
        "announced events s2 (snd (replace_next previous nxt idents (changes @ [event], s2)))"
        "reports events = concat (map (change_of (map_of previous) (map_of nxt)) idents)"
      using Cons.IH [of "changes @ [event]" s2] Cons.prems by auto
    have "change_of (map_of previous) (map_of nxt) k = [(kind, p)]"
      using False p by (auto simp: change_of_def kind_def split: option.splits)
    then show ?thesis
      using es announced_trans [OF one es(2)] by (intro exI [of _ "event # events"]) (simp only: step, simp add: ev reports_def)
  qed
qed

lemma replace_ended_announced:
  assumes "\<forall>k \<in> set idents. \<exists>p. map_of previous k = Some p \<and> prc_ID p = k"
  shows "\<exists>events. fst (replace_ended previous at idents (changes, s)) = changes @ events
    \<and> announced events s (snd (replace_ended previous at idents (changes, s)))
    \<and> reports events = map (end_of (map_of previous) at) idents"
  using assms
proof (induction idents arbitrary: changes s)
  case Nil
  show ?case by (auto simp: announced_refl intro: exI [of _ "[]"])
next
  case (Cons k idents)
  obtain p where p: "map_of previous k = Some p" "prc_ID p = k" using Cons.prems by auto
  obtain event s1 where pub: "publishLocked ProcessEnded (ended_record at p) s = (event, s1)" by fastforce
  define s2 where "s2 = s1\<lparr>inv_processes := AList.delete k (inv_processes s1)\<rparr>"
  have same: "inv_processes s1 = inv_processes s"
      and ev: "event = \<lparr>evt_Revision = inv_revision s + 1, evt_Kind = ProcessEnded, evt_Process = ended_record at p\<rparr>"
    using pub by (auto simp: publishLocked_def Let_def)
  have one: "announced [event] s s2"
    unfolding s2_def using announced_one [OF pub] p
    by (simp add: same ev apply_event_def ended_record_def AList.delete_conv')
  have step: "replace_ended previous at (k # idents) (changes, s) = replace_ended previous at idents (changes @ [event], s2)"
    using pub p by (simp add: s2_def)
  obtain events where es: "fst (replace_ended previous at idents (changes @ [event], s2)) = (changes @ [event]) @ events"
      "announced events s2 (snd (replace_ended previous at idents (changes @ [event], s2)))"
      "reports events = map (end_of (map_of previous) at) idents"
    using Cons.IH [of "changes @ [event]" s2] Cons.prems by auto
  then show ?case
    using announced_trans [OF one es(2)] p
    by (intro exI [of _ "event # events"]) (simp only: step, simp add: ev reports_def end_of_def)
qed

text \<open>The last snapshot taken of a session.\<close>

definition session_records :: "processInventoryState \<Rightarrow> u64 \<Rightarrow> (string \<times> Process) list" where
  "session_records s n = (case map_of (inv_sessions s) n of None \<Rightarrow> [] | Some m \<Rightarrow> m)"

definition session_changes :: "(string \<times> Process) list \<Rightarrow> (string \<times> Process) list \<Rightarrow> int
    \<Rightarrow> (process_kind \<times> Process) list" where
  "session_changes previous nxt at =
     concat (map (change_of (map_of previous) (map_of nxt)) (sort (map fst nxt)))
     @ map (end_of (map_of previous) at) (sort (filter (\<lambda>k. map_of nxt k = None) (map fst previous)))"

lemma replaceSession_announced:
  assumes "replaceSession n following at s = (changes, s')" and "keyed (session_records s n)"
  shows "\<exists>t. announced changes s t \<and> reports changes = session_changes (session_records s n) (by_id following) at
    \<and> s' = t\<lparr>inv_sessions := (if following = [] then AList.delete n (inv_sessions s)
        else AList.update n (by_id following) (inv_sessions s))\<rparr>"
proof -
  define previous nxt where "previous = session_records s n" and "nxt = by_id following"
  define nid eid where "nid = sort (map fst nxt)"
    and "eid = sort (filter (\<lambda>k. map_of nxt k = None) (map fst previous))"
  obtain c1 s1 where 1: "replace_next previous nxt nid ([], s) = (c1, s1)" by fastforce
  obtain c2 s2 where 2: "replace_ended previous at eid (c1, s1) = (c2, s2)" by fastforce
  have "\<forall>k \<in> set nid. \<exists>p. map_of nxt k = Some p \<and> prc_ID p = k"
    using keyed_by_id [of following] by (auto simp: nid_def nxt_def keyed_def map_of_eq_None_iff)
  from replace_next_announced [OF this, of previous "[]" s] 1
  have a: "announced c1 s s1" "reports c1 = concat (map (change_of (map_of previous) (map_of nxt)) nid)" by auto
  have "\<forall>k \<in> set eid. \<exists>p. map_of previous k = Some p \<and> prc_ID p = k"
    using assms(2) by (auto simp: eid_def previous_def keyed_def)
  from replace_ended_announced [OF this, of at c1 s1] 2
  obtain es where b: "c2 = c1 @ es" "announced es s1 s2" "reports es = map (end_of (map_of previous) at) eid" by auto
  have sess: "inv_sessions s2 = inv_sessions s" using a(1) b(2) by (simp add: announced_def)
  have "changes = c2 \<and> s' = s2\<lparr>inv_sessions := (if nxt = [] then AList.delete n (inv_sessions s2)
        else AList.update n nxt (inv_sessions s2))\<rparr>"
    using assms(1) 1 2 unfolding replaceSession_def
    by (auto simp: Let_def sortedProcessIDs_def previous_def session_records_def nid_def eid_def nxt_def)
  with announced_trans [OF a(1) b(2)] a(2) b(1,3) sess show ?thesis
    by (auto simp: session_changes_def nid_def eid_def previous_def nxt_def)
qed

subsection \<open>The inventory is the union of the sessions' snapshots\<close>

definition apply_report :: "process_kind \<times> Process \<Rightarrow> (string \<rightharpoonup> Process) \<Rightarrow> (string \<rightharpoonup> Process)" where
  "apply_report r m = m(prc_ID (snd r) := (if fst r = ProcessEnded then None else Some (snd r)))"

lemma replay_reports: "replay events m = fold apply_report (reports events) m"
  by (induction events arbitrary: m)
    (simp_all add: replay_def reports_def apply_event_def apply_report_def Let_def)

lemma fold_change_of:
  assumes "\<forall>k \<in> set idents. \<exists>p. nxt k = Some p \<and> prc_ID p = k"
  shows "fold apply_report (concat (map (change_of previous nxt) idents)) m k
    = (if k \<in> set idents \<and> previous k \<noteq> nxt k then nxt k else m k)"
  using assms
proof (induction idents arbitrary: m)
  case (Cons j idents)
  obtain p where "nxt j = Some p" "prc_ID p = j" using Cons.prems by auto
  then have "fold apply_report (change_of previous nxt j) m = (if previous j = nxt j then m else m(j := nxt j))"
    by (auto simp: change_of_def apply_report_def split: option.splits)
  with Cons show ?case by auto
qed simp

lemma fold_end_of:
  assumes "\<forall>k \<in> set idents. \<exists>p. previous k = Some p \<and> prc_ID p = k"
  shows "fold apply_report (map (end_of previous at) idents) m k = (if k \<in> set idents then None else m k)"
  using assms
  by (induction idents arbitrary: m) (auto simp: end_of_def apply_report_def ended_record_def)

lemma fold_session_changes:
  assumes "keyed previous" and "keyed nxt"
  shows "fold apply_report (session_changes previous nxt at) m k =
    (if map_of nxt k \<noteq> None then (if map_of previous k \<noteq> map_of nxt k then map_of nxt k else m k)
     else if map_of previous k \<noteq> None then None else m k)"
proof -
  have 1: "\<forall>k \<in> set (sort (map fst nxt)). \<exists>p. map_of nxt k = Some p \<and> prc_ID p = k"
    using assms(2) by (auto simp: keyed_def)
  have 2: "\<forall>k \<in> set (sort (filter (\<lambda>k. map_of nxt k = None) (map fst previous))).
      \<exists>p. map_of previous k = Some p \<and> prc_ID p = k"
    using assms(1) by (auto simp: keyed_def)
  show ?thesis
    unfolding session_changes_def fold_append comp_def fold_change_of [OF 1] fold_end_of [OF 2]
    by (auto simp: map_of_eq_None_iff)
qed

text \<open>
  \<open>inventory_ok tag\<close>: every identifier belongs to the session \<open>tag\<close> names, every session's
  records are keyed by their own identifiers, and the public map is the union of them.
\<close>

definition inventory_ok :: "(string \<Rightarrow> u64) \<Rightarrow> processInventoryState \<Rightarrow> bool" where
  "inventory_ok tag s \<longleftrightarrow> distinct (map fst (inv_processes s))
     \<and> (\<forall>n. keyed (session_records s n))
     \<and> (\<forall>n k. k \<in> dom (map_of (session_records s n)) \<longrightarrow> tag k = n)
     \<and> (\<forall>k. map_of (inv_processes s) k = map_of (session_records s (tag k)) k)"

lemma session_records_replaced:
  assumes "inv_sessions s' = (if following = [] then AList.delete n (inv_sessions s)
        else AList.update n (by_id following) (inv_sessions s))"
  shows "session_records s' j = (if j = n then by_id following else session_records s j)"
  using assms by (auto simp: session_records_def AList.update_conv' AList.delete_conv' by_id_def)

lemma replace_next_distinct:
  "distinct (map fst (inv_processes s)) \<Longrightarrow>
    distinct (map fst (inv_processes (snd (replace_next previous nxt idents (changes, s)))))"
  by (induction idents arbitrary: changes s)
    (auto simp: Let_def publishLocked_def distinct_update split: option.splits)

lemma replace_ended_distinct:
  "distinct (map fst (inv_processes s)) \<Longrightarrow>
    distinct (map fst (inv_processes (snd (replace_ended previous at idents (changes, s)))))"
  by (induction idents arbitrary: changes s) (auto simp: Let_def publishLocked_def distinct_delete)

lemma replaceSession_distinct:
  "distinct (map fst (inv_processes s)) \<Longrightarrow>
    distinct (map fst (inv_processes (snd (replaceSession n following at s))))"
  using replace_next_distinct replace_ended_distinct
  by (simp add: replaceSession_def Let_def split_def) (metis prod.collapse)

lemma replaceSession_ok:
  assumes "inventory_ok tag s" and "\<forall>p \<in> set following. tag (prc_ID p) = n"
    and "replaceSession n following at s = (changes, s')"
  shows "inventory_ok tag s' \<and> (\<forall>j. session_records s' j = (if j = n then by_id following else session_records s j))"
proof -
  have ok: "keyed (session_records s n)" using assms(1) by (simp add: inventory_ok_def)
  obtain t where t: "announced changes s t" "reports changes = session_changes (session_records s n) (by_id following) at"
      and s': "s' = t\<lparr>inv_sessions := (if following = [] then AList.delete n (inv_sessions s)
        else AList.update n (by_id following) (inv_sessions s))\<rparr>"
    using replaceSession_announced [OF assms(3) ok] by auto
  have rec: "session_records s' j = (if j = n then by_id following else session_records s j)" for j
    by (rule session_records_replaced) (simp add: s')
  have tagged: "tag k = n" if "k \<in> dom (map_of (by_id following))" for k
    using that assms(2) by (auto dest: by_id_ID)
  have procs: "map_of (inv_processes s') k = fold apply_report (reports changes) (map_of (inv_processes s)) k" for k
    using t(1) by (simp add: s' announced_def replay_reports)
  have "map_of (inv_processes s') k = map_of (session_records s' (tag k)) k" for k
    using assms(1) tagged [of k] unfolding procs t(2) fold_session_changes [OF ok keyed_by_id] rec
    by (cases "map_of (by_id following) k"; cases "tag k = n") (auto simp: inventory_ok_def domIff)
  moreover have "distinct (map fst (inv_processes s'))"
    using assms(1,3) replaceSession_distinct [of s n following at] by (simp add: inventory_ok_def)
  ultimately show ?thesis
    using assms(1) tagged by (auto simp: inventory_ok_def rec keyed_by_id)
qed

subsection \<open>Runs, with what each reader has seen\<close>

text \<open>
  A run interleaves replacements, new subscriptions, receives and stops. Beside the state it keeps
  the history of every change reported and, for each subscription, the snapshot its reader was
  answered and the events it has taken since.
\<close>

record inv_view =
  view_snapshot :: ProcessInventory
  view_received :: "ProcessEvent list"

record inv_world =
  iw_state :: processInventoryState
  iw_history :: "ProcessEvent list"
  iw_views :: "nat \<rightharpoonup> inv_view"

datatype inv_op = InvReplace u64 "Process list" int | InvObserve | InvReceive nat | InvStop nat

fun inv_step :: "inv_op \<Rightarrow> inv_world \<Rightarrow> inv_world" where
  "inv_step (InvReplace n following at) w = (case replaceSession n following at (iw_state w) of
     (changes, s) \<Rightarrow> w\<lparr>iw_state := s, iw_history := iw_history w @ changes\<rparr>)"
| "inv_step InvObserve w = (case inventory_observe (iw_state w) of (snap, i, s) \<Rightarrow>
     w\<lparr>iw_state := s, iw_views := (iw_views w)(i \<mapsto> \<lparr>view_snapshot = snap, view_received = []\<rparr>)\<rparr>)"
| "inv_step (InvReceive i) w = (case iw_views w i of
     None \<Rightarrow> w
   | Some v \<Rightarrow> (case sub_receive i (iw_state w) of
       (RecvEvent event, s) \<Rightarrow> w\<lparr>iw_state := s,
          iw_views := (iw_views w)(i \<mapsto> v\<lparr>view_received := view_received v @ [event]\<rparr>)\<rparr>
     | (_, s) \<Rightarrow> w\<lparr>iw_state := s\<rparr>))"
| "inv_step (InvStop i) w = w\<lparr>iw_state := inventory_stop i (iw_state w)\<rparr>"

definition new_inv_world :: inv_world where
  "new_inv_world = \<lparr>iw_state = newProcessInventoryState, iw_history = [], iw_views = Map.empty\<rparr>"

definition inv_run :: "inv_op list \<Rightarrow> inv_world" where
  "inv_run ops = fold inv_step ops new_inv_world"

definition inventory_map :: "ProcessInventory \<Rightarrow> (string \<rightharpoonup> Process)" where
  "inventory_map snap = map_of (map (\<lambda>p. (prc_ID p, p)) (pin_Processes snap))"

definition sub_of :: "inv_world \<Rightarrow> nat \<Rightarrow> processEventSubscription" where
  "sub_of w i = inv_subs (iw_state w) i"

text \<open>
  What holds of one reader: its snapshot is the state after some prefix of the history, and what
  it took and still has to take continues the history from there; all of it while it is observed,
  and closed otherwise.
\<close>

definition seen_ok :: "ProcessEvent list \<Rightarrow> bool \<Rightarrow> processEventSubscription \<Rightarrow> ProcessEvent list \<Rightarrow> bool" where
  "seen_ok rest observed s received \<longleftrightarrow>
     (if observed then rest = received @ sub_events s \<and> \<not> sub_closed s
      else sub_closed s \<and> (\<exists>lost. rest = received @ sub_events s @ lost))"

definition snapshot_at :: "ProcessEvent list \<Rightarrow> ProcessInventory \<Rightarrow> bool" where
  "snapshot_at past snap \<longleftrightarrow> pin_Revision snap = of_nat (length past) \<and> inventory_map snap = replay past Map.empty"

definition view_ok :: "ProcessEvent list \<Rightarrow> bool \<Rightarrow> processEventSubscription \<Rightarrow> inv_view \<Rightarrow> bool" where
  "view_ok history observed s v \<longleftrightarrow> (\<exists>past rest. history = past @ rest
     \<and> snapshot_at past (view_snapshot v) \<and> seen_ok rest observed s (view_received v))"

definition inv_world_ok :: "inv_world \<Rightarrow> bool" where
  "inv_world_ok w \<longleftrightarrow> (let s = iw_state w in
     inv_revision s = of_nat (length (iw_history w)) \<and> numbered 0 (iw_history w)
     \<and> map_of (inv_processes s) = replay (iw_history w) Map.empty
     \<and> keyed (inv_processes s) \<and> (\<forall>n. keyed (session_records s n))
     \<and> dom (iw_views w) = {..<inv_next s} \<and> set (inv_observers s) \<subseteq> {..<inv_next s}
     \<and> (\<forall>i v. iw_views w i = Some v \<longrightarrow> view_ok (iw_history w) (i \<in> set (inv_observers s)) (inv_subs s i) v))"

lemma inventory_map_snapshot:
  assumes "keyed (inv_processes s)"
  shows "inventory_map (snapshotLocked s) = map_of (inv_processes s)"
proof -
  define m where "m = inv_processes s"
  have ids: "prc_ID (the (map_of m k)) = k" if "k \<in> fst ` set m" for k
    using that assms by (auto simp: keyed_def m_def)
  have "map_of (map (\<lambda>k. (prc_ID (the (map_of m k)), the (map_of m k))) (sort (map fst m)))
      = map_of (map (\<lambda>k. (k, the (map_of m k))) (sort (map fst m)))"
    by (rule arg_cong [where f = map_of], rule map_cong) (auto simp: ids)
  also have "\<dots> = map_of m"
  proof
    fix k
    show "map_of (map (\<lambda>k. (k, the (map_of m k))) (sort (map fst m))) k = map_of m k"
      using map_of_eq_None_iff [of m k] by (auto simp: map_of_map_restrict restrict_map_def)
  qed
  finally show ?thesis
    by (simp add: inventory_map_def snapshotLocked_def sortedProcessIDs_def comp_def m_def)
qed

lemma seen_ok_announced:
  assumes "seen_ok rest observed s received" and "sub_follows events observed observed' s s'"
  shows "seen_ok (rest @ events) observed' s' received"
proof (cases "observed \<and> \<not> observed'")
  case True
  then obtain j where "sub_closed s'" "sub_events s' = sub_events s @ take j events"
    using assms(2) by (auto simp: sub_follows_def)
  with assms(1) True show ?thesis
    by (auto simp: seen_ok_def intro: exI [of _ "drop j events"])
next
  case False
  with assms show ?thesis by (auto simp: seen_ok_def sub_follows_def split: if_splits)
qed

lemma view_ok_announced:
  assumes "view_ok history observed s v" and "sub_follows events observed observed' s s'"
  shows "view_ok (history @ events) observed' s' v"
  using assms seen_ok_announced unfolding view_ok_def by (metis append.assoc)

lemma seen_ok_receive:
  "seen_ok rest observed s received \<Longrightarrow> sub_events s = event # left \<Longrightarrow>
    seen_ok rest observed (s\<lparr>sub_events := left\<rparr>) (received @ [event])"
  by (auto simp: seen_ok_def split: if_splits)

lemma view_ok_receive:
  "view_ok history observed s v \<Longrightarrow> sub_events s = event # left \<Longrightarrow>
    view_ok history observed (s\<lparr>sub_events := left\<rparr>) (v\<lparr>view_received := view_received v @ [event]\<rparr>)"
  by (auto simp: view_ok_def intro: seen_ok_receive)

lemma seen_ok_stop: "seen_ok rest True s received \<Longrightarrow> seen_ok rest False (s\<lparr>sub_closed := True\<rparr>) received"
  unfolding seen_ok_def by simp

lemma observe_ok:
  assumes "inv_world_ok w"
  shows "inv_world_ok (inv_step InvObserve w)"
proof -
  define s where "s = iw_state w"
  have ok: "keyed (inv_processes s)" "map_of (inv_processes s) = replay (iw_history w) Map.empty"
      "inv_revision s = of_nat (length (iw_history w))"
    using assms by (simp_all add: inv_world_ok_def s_def Let_def)
  have "view_ok (iw_history w) True \<lparr>sub_events = [], sub_closed = False\<rparr>
      \<lparr>view_snapshot = snapshotLocked s, view_received = []\<rparr>"
    using inventory_map_snapshot [OF ok(1)] ok(2,3)
    by (auto simp: view_ok_def seen_ok_def snapshot_at_def snapshotLocked_def intro!: exI [of _ "iw_history w"])
  moreover have "snapshotLocked (s\<lparr>inv_next := a, inv_subs := b, inv_observers := c\<rparr>) = snapshotLocked s" for a b c
    by (simp add: snapshotLocked_def)
  moreover have "inv_next s \<notin> set (inv_observers s)"
    using assms by (auto simp: inv_world_ok_def s_def Let_def)
  moreover have "i \<noteq> inv_next s" if "iw_views w i = Some v" for i v
    using assms that by (auto simp: inv_world_ok_def s_def Let_def dom_def)
  ultimately show ?thesis
    using assms unfolding inv_world_ok_def Let_def
    by (auto simp: inventory_observe_def s_def Let_def session_records_def lessThan_Suc split: if_splits)
qed

lemma receive_ok:
  assumes "inv_world_ok w"
  shows "inv_world_ok (inv_step (InvReceive i) w)"
proof (cases "iw_views w i")
  case (Some v)
  show ?thesis
  proof (cases "sub_events (inv_subs (iw_state w) i)")
    case (Cons event rest)
    have "view_ok (iw_history w) (i \<in> set (inv_observers (iw_state w))) (inv_subs (iw_state w) i) v"
      using assms Some by (simp add: inv_world_ok_def Let_def)
    then have "view_ok (iw_history w) (i \<in> set (inv_observers (iw_state w)))
        ((inv_subs (iw_state w) i)\<lparr>sub_events := rest\<rparr>) (v\<lparr>view_received := view_received v @ [event]\<rparr>)"
      using Cons by (rule view_ok_receive)
    moreover have "dom ((iw_views w)(i \<mapsto> u)) = dom (iw_views w)" for u
      using Some by auto
    ultimately show ?thesis
      using assms Some unfolding inv_world_ok_def Let_def
      by (simp add: sub_receive_def Cons session_records_def)
  qed (use assms Some in \<open>simp add: sub_receive_def\<close>)
qed (use assms in simp)

lemma stop_ok:
  assumes "inv_world_ok w"
  shows "inv_world_ok (inv_step (InvStop i) w)"
proof (cases "i \<in> set (inv_observers (iw_state w))")
  case True
  have "view_ok (iw_history w) False ((inv_subs (iw_state w) i)\<lparr>sub_closed := True\<rparr>) v"
    if "iw_views w i = Some v" for v
  proof -
    have "view_ok (iw_history w) True (inv_subs (iw_state w) i) v"
      using assms that True by (fastforce simp: inv_world_ok_def Let_def)
    then show ?thesis using seen_ok_stop unfolding view_ok_def by metis
  qed
  with assms True show ?thesis
    unfolding inv_world_ok_def Let_def by (auto simp: inventory_stop_def session_records_def)
qed (use assms in \<open>simp add: inventory_stop_def\<close>)

lemma replay_ID:
  assumes "\<forall>k p. f k = Some p \<longrightarrow> prc_ID p = k" and "replay events f k = Some p"
  shows "prc_ID p = k"
  using assms
proof (induction events arbitrary: f)
  case (Cons event events)
  have "\<forall>k p. apply_event event f k = Some p \<longrightarrow> prc_ID p = k"
    using Cons.prems(1) by (auto simp: apply_event_def Let_def split: if_splits)
  then show ?case using Cons.IH [of "apply_event event f"] Cons.prems(2) by (simp add: replay_def)
qed simp

lemma keyed_replay:
  assumes "keyed m" and "map_of m' = replay events (map_of m)" and "distinct (map fst m')"
  shows "keyed m'"
  using replay_ID [of "map_of m" events] assms unfolding keyed_def by metis

lemma replace_ok:
  assumes "inv_world_ok w"
  shows "inv_world_ok (inv_step (InvReplace n following at) w)"
proof -
  define s where "s = iw_state w"
  obtain changes s' where r: "replaceSession n following at s = (changes, s')" by fastforce
  have ok: "keyed (session_records s n)" "keyed (inv_processes s)" and all: "\<forall>j. keyed (session_records s j)"
    using assms by (simp_all add: inv_world_ok_def s_def Let_def)
  obtain t where t: "announced changes s t" and s': "s' = t\<lparr>inv_sessions := (if following = []
      then AList.delete n (inv_sessions s) else AList.update n (by_id following) (inv_sessions s))\<rparr>"
    using replaceSession_announced [OF r ok(1)] by auto
  have rec: "session_records s' j = (if j = n then by_id following else session_records s j)" for j
    by (rule session_records_replaced) (simp add: s')
  have step: "inv_step (InvReplace n following at) w = w\<lparr>iw_state := s', iw_history := iw_history w @ changes\<rparr>"
    using r by (simp add: s_def)
  have pub: "inv_revision s' = inv_revision s + of_nat (length changes)" "numbered (inv_revision s) changes"
      "map_of (inv_processes s') = replay changes (map_of (inv_processes s))" "inv_next s' = inv_next s"
    using t by (simp_all add: s' announced_def)
  have "distinct (map fst (inv_processes s))" using ok(2) unfolding keyed_def by blast
  then have "distinct (map fst (inv_processes s'))"
    using replaceSession_distinct [of s n following at] r by simp
  then have "keyed (inv_processes s')"
    using t by (intro keyed_replay [OF ok(2), of _ changes]) (simp_all add: s' announced_def)
  moreover have "view_ok (iw_history w @ changes) (i \<in> set (inv_observers s')) (inv_subs s' i) v"
    if "iw_views w i = Some v" for i v
  proof (rule view_ok_announced)
    show "view_ok (iw_history w) (i \<in> set (inv_observers s)) (inv_subs s i) v"
      using assms that by (simp add: inv_world_ok_def s_def Let_def)
    show "sub_follows changes (i \<in> set (inv_observers s)) (i \<in> set (inv_observers s')) (inv_subs s i) (inv_subs s' i)"
      using t by (simp add: announced_def s')
  qed
  moreover have "set (inv_observers s') \<subseteq> set (inv_observers s)"
  proof
    fix i assume i: "i \<in> set (inv_observers s')"
    have "sub_follows changes (i \<in> set (inv_observers s)) (i \<in> set (inv_observers s')) (inv_subs s i) (inv_subs s' i)"
      using t by (simp add: announced_def s')
    with i show "i \<in> set (inv_observers s)" by (simp add: sub_follows_def)
  qed
  ultimately show ?thesis
    using assms pub all unfolding step inv_world_ok_def Let_def s_def [symmetric]
    by (auto simp: numbered_append replay_append keyed_by_id rec)
qed

lemma inv_run_ok: "inv_world_ok (inv_run ops)"
proof -
  have "inv_world_ok new_inv_world"
    by (simp add: inv_world_ok_def new_inv_world_def newProcessInventoryState_def Let_def keyed_def session_records_def
        lessThan_0)
  moreover have "inv_world_ok (fold inv_step ops w)" if "inv_world_ok w" for w
    using that
  proof (induction ops arbitrary: w)
    case (Cons op ops)
    then show ?case by (cases op) (simp_all only: fold_simps replace_ok observe_ok receive_ok stop_ok)
  qed simp
  ultimately show ?thesis by (simp add: inv_run_def)
qed

subsection \<open>Properties\<close>

lemma world_snapshot:
  "inventory_map (inventory_snapshot (iw_state (inv_run ops))) = replay (iw_history (inv_run ops)) Map.empty"
proof -
  have "keyed (inv_processes (iw_state (inv_run ops)))"
      "map_of (inv_processes (iw_state (inv_run ops))) = replay (iw_history (inv_run ops)) Map.empty"
    using inv_run_ok [of ops] unfolding inv_world_ok_def Let_def by blast+
  then show ?thesis by (simp add: inventory_snapshot_def inventory_map_snapshot)
qed

text \<open>C24. A reader of the process stream is never misled. However replacements, subscriptions,
  receives and stops interleave, what a reader took and what still waits for it are consecutive
  revisions starting at its snapshot's plus one, and they are the changes that followed that
  snapshot with none left out between. While its stream is open, the snapshot with those events
  replayed over it is exactly what a fresh snapshot answers, at the same revision; and a reader that
  was dropped has a closed stream, so a loss always shows.\<close>

theorem process_stream_replays:
  assumes "iw_views (inv_run ops) i = Some v"
  defines "events \<equiv> view_received v @ sub_events (sub_of (inv_run ops) i)"
    and "fresh \<equiv> inventory_snapshot (iw_state (inv_run ops))"
  shows "numbered (pin_Revision (view_snapshot v)) events
    \<and> (\<exists>past lost. iw_history (inv_run ops) = past @ events @ lost
         \<and> inventory_map (view_snapshot v) = replay past Map.empty)
    \<and> (if sub_closed (sub_of (inv_run ops) i) then i \<notin> set (inv_observers (iw_state (inv_run ops)))
       else replay events (inventory_map (view_snapshot v)) = inventory_map fresh
         \<and> pin_Revision (view_snapshot v) + of_nat (length events) = pin_Revision fresh)"
proof -
  define w where "w = inv_run ops"
  have ok: "numbered 0 (iw_history w)" "inv_revision (iw_state w) = of_nat (length (iw_history w))"
      "view_ok (iw_history w) (i \<in> set (inv_observers (iw_state w))) (sub_of w i) v"
    using inv_run_ok [of ops] assms(1) unfolding inv_world_ok_def Let_def w_def sub_of_def by blast+
  then obtain past rest where h: "iw_history w = past @ rest" "snapshot_at past (view_snapshot v)"
      "seen_ok rest (i \<in> set (inv_observers (iw_state w))) (sub_of w i) (view_received v)"
    by (auto simp: view_ok_def)
  then obtain lost where rest: "rest = events @ lost" and open_all: "\<not> sub_closed (sub_of w i) \<Longrightarrow> lost = []"
    by (auto simp: seen_ok_def events_def w_def split: if_splits)
  have rev: "pin_Revision fresh = of_nat (length (iw_history w))"
    by (simp add: fresh_def inventory_snapshot_def snapshotLocked_def ok(2) flip: w_def)
  have "numbered (pin_Revision (view_snapshot v)) events"
    using ok(1) h(1,2) by (simp add: rest numbered_append snapshot_at_def)
  moreover have "replay events (inventory_map (view_snapshot v)) = inventory_map fresh
      \<and> pin_Revision (view_snapshot v) + of_nat (length events) = pin_Revision fresh"
    if "\<not> sub_closed (sub_of w i)"
    using open_all [OF that] h(1,2) world_snapshot [of ops] rev
    by (simp add: rest snapshot_at_def replay_append fresh_def flip: w_def)
  moreover have "sub_closed (sub_of w i) \<Longrightarrow> i \<notin> set (inv_observers (iw_state w))"
    using h(3) by (auto simp: seen_ok_def)
  ultimately show ?thesis
    using h(1,2) unfolding w_def [symmetric] by (auto simp: rest snapshot_at_def)
qed

definition sample_process :: "string \<Rightarrow> string \<Rightarrow> Process" where
  "sample_process ident cmd = \<lparr>prc_ID = ident, prc_Owner = ''o'', prc_Window = None, prc_Pane = Some ''p'',
     prc_CWD = ''/'', prc_PID = 7, prc_ParentPID = 1, prc_Command = cmd, prc_State = ''running'',
     prc_StartedAtUnixMs = 5, prc_EndedAtUnixMs = None\<rparr>"

definition sample_inv_ops :: "inv_op list" where
  "sample_inv_ops = [InvReplace 1 [sample_process ''a'' ''sh''] 0, InvObserve,
     InvReplace 1 [sample_process ''b'' ''vi'', sample_process ''a'' ''zsh''] 0, InvReceive 0,
     InvReplace 1 [sample_process ''b'' ''vi''] 9]"

lemma sample_inv_view: "iw_views (inv_run sample_inv_ops) 0 =
  Some \<lparr>view_snapshot = \<lparr>pin_Revision = 1, pin_Processes = [sample_process ''a'' ''sh'']\<rparr>,
    view_received = [\<lparr>evt_Revision = 2, evt_Kind = ProcessUpdated, evt_Process = sample_process ''a'' ''zsh''\<rparr>]\<rparr>"
  by code_simp

theorem process_stream_replays_witness:
  "\<exists>v. iw_views (inv_run sample_inv_ops) 0 = Some v \<and> length (view_received v) = 1
    \<and> map evt_Revision (sub_events (sub_of (inv_run sample_inv_ops) 0)) = [3, 4]
    \<and> numbered 1 (view_received v @ sub_events (sub_of (inv_run sample_inv_ops) 0))"
proof -
  have "map evt_Revision (sub_events (sub_of (inv_run sample_inv_ops) 0)) = [3, 4]" by code_simp
  with process_stream_replays [OF sample_inv_view] sample_inv_view show ?thesis by simp
qed

text \<open>The last list each session was replaced with.\<close>

definition note_replace :: "inv_op \<Rightarrow> (u64 \<Rightarrow> Process list) \<Rightarrow> (u64 \<Rightarrow> Process list)" where
  "note_replace op f = (case op of InvReplace n following at \<Rightarrow> f(n := following) | _ \<Rightarrow> f)"

definition last_snapshot :: "inv_op list \<Rightarrow> u64 \<Rightarrow> Process list" where
  "last_snapshot ops = fold note_replace ops (\<lambda>_. [])"

definition replaces :: "(string \<Rightarrow> u64) \<Rightarrow> inv_op \<Rightarrow> bool" where
  "replaces tag op \<longleftrightarrow> (case op of InvReplace n following at \<Rightarrow> \<forall>p \<in> set following. tag (prc_ID p) = n | _ \<Rightarrow> True)"

lemma records_only:
  assumes "inv_sessions s' = inv_sessions s" and "inv_processes s' = inv_processes s"
  shows "session_records s' = session_records s" and "inventory_ok tag s' \<longleftrightarrow> inventory_ok tag s"
proof -
  show 1: "session_records s' = session_records s" using assms(1) by (simp add: session_records_def fun_eq_iff)
  show "inventory_ok tag s' \<longleftrightarrow> inventory_ok tag s" using assms(2) by (simp add: inventory_ok_def 1)
qed

lemma other_steps_keep:
  assumes "\<forall>n following at. op \<noteq> InvReplace n following at"
  shows "inv_sessions (iw_state (inv_step op w)) = inv_sessions (iw_state w)
    \<and> inv_processes (iw_state (inv_step op w)) = inv_processes (iw_state w)"
  using assms
  by (cases op) (auto simp: inventory_observe_def sub_receive_def inventory_stop_def Let_def
      split: option.splits list.splits)

lemma inv_step_tagged:
  assumes "inventory_ok tag (iw_state w)" and "replaces tag op"
    and "\<forall>n. session_records (iw_state w) n = by_id (f n)"
  shows "inventory_ok tag (iw_state (inv_step op w))
    \<and> (\<forall>n. session_records (iw_state (inv_step op w)) n = by_id (note_replace op f n))"
proof (cases "\<exists>n following at. op = InvReplace n following at")
  case True
  then obtain n following at where op: "op = InvReplace n following at" by blast
  obtain changes s' where r: "replaceSession n following at (iw_state w) = (changes, s')" by fastforce
  with replaceSession_ok [OF assms(1) _ r] assms(2,3) op show ?thesis
    by (auto simp: replaces_def note_replace_def)
next
  case False
  then have "note_replace op f = f" by (cases op) (auto simp: note_replace_def)
  with False assms other_steps_keep [of op w] records_only [of "iw_state (inv_step op w)" "iw_state w"] show ?thesis
    by simp
qed

lemma inv_run_tagged:
  assumes "\<forall>op \<in> set ops. replaces tag op"
  shows "inventory_ok tag (iw_state (inv_run ops))
    \<and> (\<forall>n. session_records (iw_state (inv_run ops)) n = by_id (last_snapshot ops n))"
proof -
  have run: "inventory_ok tag (iw_state (fold inv_step ops w))
      \<and> (\<forall>n. session_records (iw_state (fold inv_step ops w)) n = by_id (fold note_replace ops f n))"
    if "inventory_ok tag (iw_state w)" "\<forall>n. session_records (iw_state w) n = by_id (f n)" for w f
    using assms that
  proof (induction ops arbitrary: w f)
    case (Cons op ops)
    have "inventory_ok tag (iw_state (inv_step op w))"
        "\<forall>n. session_records (iw_state (inv_step op w)) n = by_id (note_replace op f n)"
      using inv_step_tagged [OF Cons.prems(2) _ Cons.prems(3), of op] Cons.prems(1) by auto
    with Cons.IH [of "inv_step op w" "note_replace op f"] Cons.prems(1) show ?case by simp
  qed simp
  have "inventory_ok tag (iw_state new_inv_world)"
      "\<forall>n. session_records (iw_state new_inv_world) n = by_id []"
    by (simp_all add: inventory_ok_def new_inv_world_def newProcessInventoryState_def session_records_def keyed_def by_id_def)
  from run [OF this] show ?thesis unfolding inv_run_def last_snapshot_def .
qed

text \<open>C25. The inventory is the union of the sessions' last snapshots. As long as every process carries
  an identifier of the session that reports it, a snapshot answers after any run exactly the
  processes of each session's last replacement (the last record of an identifier named twice), each
  once and in the order of their identifiers, however many unchanged, updated and ended records the
  replacements in between went through.\<close>

theorem inventory_is_union:
  assumes "\<forall>op \<in> set ops. replaces tag op"
  defines "snap \<equiv> inventory_snapshot (iw_state (inv_run ops))"
  shows "inventory_map snap k = map_of (by_id (last_snapshot ops (tag k))) k
    \<and> sorted (map prc_ID (pin_Processes snap)) \<and> distinct (map prc_ID (pin_Processes snap))"
proof -
  define s where "s = iw_state (inv_run ops)"
  have ok: "inventory_ok tag s" "\<And>n. session_records s n = by_id (last_snapshot ops n)"
    using inv_run_tagged [OF assms(1)] by (simp_all add: s_def)
  have keyed: "keyed (inv_processes s)"
    using inv_run_ok [of ops] unfolding inv_world_ok_def Let_def s_def by blast
  have "map prc_ID (pin_Processes snap) = sort (map fst (inv_processes s))"
    using keyed unfolding snap_def inventory_snapshot_def snapshotLocked_def s_def [symmetric]
    by (auto simp: sortedProcessIDs_def comp_def keyed_def intro!: map_idI)
  moreover have "distinct (map fst (inv_processes s))" using keyed by (simp add: keyed_def)
  moreover have "inventory_map snap k = map_of (by_id (last_snapshot ops (tag k))) k"
    using ok inventory_map_snapshot [OF keyed]
    unfolding snap_def inventory_snapshot_def s_def [symmetric] inventory_ok_def by metis
  ultimately show ?thesis by simp
qed

theorem inventory_is_union_witness:
  "inventory_map (inventory_snapshot (iw_state (inv_run sample_inv_ops))) ''b'' = Some (sample_process ''b'' ''vi'')"
proof -
  have "\<forall>op \<in> set sample_inv_ops. replaces (\<lambda>_. 1) op" by (simp add: sample_inv_ops_def replaces_def)
  from inventory_is_union [OF this, of "''b''"] show ?thesis
    by (simp add: sample_inv_ops_def last_snapshot_def note_replace_def by_id_def sample_process_def)
qed

lemma change_of_keyed:
  assumes "keyed nxt" and "k \<in> set (map fst nxt)"
  shows "(kind, p) \<in> set (change_of previous (map_of nxt) k) \<longleftrightarrow> map_of nxt k = Some p \<and> prc_ID p = k \<and>
    (kind = ProcessStarted \<and> previous k = None \<or> kind = ProcessUpdated \<and> (\<exists>b. previous k = Some b \<and> b \<noteq> p))"
proof -
  obtain q where "map_of nxt k = Some q" "prc_ID q = k" using assms by (auto simp: keyed_def)
  then show ?thesis by (auto simp: change_of_def split: option.splits)
qed

lemma session_changes_iff:
  assumes "keyed previous" and "keyed nxt"
  shows "(kind, p) \<in> set (session_changes previous nxt at) \<longleftrightarrow>
    (case kind of
       ProcessStarted \<Rightarrow> map_of nxt (prc_ID p) = Some p \<and> map_of previous (prc_ID p) = None
     | ProcessUpdated \<Rightarrow> map_of nxt (prc_ID p) = Some p \<and> (\<exists>b. map_of previous (prc_ID p) = Some b \<and> b \<noteq> p)
     | ProcessEnded \<Rightarrow> map_of nxt (prc_ID p) = None
         \<and> (\<exists>b. map_of previous (prc_ID p) = Some b \<and> p = ended_record at b))"
proof -
  have "(kind, p) \<in> set (concat (map (change_of (map_of previous) (map_of nxt)) (sort (map fst nxt)))) \<longleftrightarrow>
      map_of nxt (prc_ID p) = Some p \<and> (kind = ProcessStarted \<and> map_of previous (prc_ID p) = None
        \<or> kind = ProcessUpdated \<and> (\<exists>b. map_of previous (prc_ID p) = Some b \<and> b \<noteq> p))"
    (is "?in \<longleftrightarrow> ?spec (prc_ID p)")
  proof -
    have "?in \<longleftrightarrow> (\<exists>k \<in> set (map fst nxt). (kind, p) \<in> set (change_of (map_of previous) (map_of nxt) k))" by auto
    also have "\<dots> \<longleftrightarrow> (\<exists>k \<in> set (map fst nxt). prc_ID p = k \<and> ?spec k)"
      using change_of_keyed [OF assms(2)] by (intro bex_cong) auto
    also have "\<dots> \<longleftrightarrow> ?spec (prc_ID p)"
      by (auto dest: map_of_SomeD intro: rev_image_eqI)
    finally show ?thesis .
  qed
  moreover have "(kind, p) \<in> set (map (end_of (map_of previous) at)
        (sort (filter (\<lambda>k. map_of nxt k = None) (map fst previous)))) \<longleftrightarrow>
      kind = ProcessEnded \<and> map_of nxt (prc_ID p) = None
        \<and> (\<exists>b. map_of previous (prc_ID p) = Some b \<and> p = ended_record at b)"
    (is "?in \<longleftrightarrow> kind = ProcessEnded \<and> ?spec (prc_ID p)")
  proof -
    have "?in \<longleftrightarrow> (\<exists>k \<in> set (map fst previous). map_of nxt k = None \<and> (kind, p) = end_of (map_of previous) at k)" by auto
    also have "\<dots> \<longleftrightarrow> (\<exists>k \<in> set (map fst previous). prc_ID p = k \<and> kind = ProcessEnded \<and> ?spec k)"
    proof (rule bex_cong [OF refl])
      fix k assume "k \<in> set (map fst previous)"
      then obtain b where b: "map_of previous k = Some b" "prc_ID b = k" using assms(1) by (auto simp: keyed_def)
      then show "(map_of nxt k = None \<and> (kind, p) = end_of (map_of previous) at k)
          = (prc_ID p = k \<and> kind = ProcessEnded \<and> ?spec k)"
        by (auto simp: end_of_def ended_record_def)
    qed
    also have "\<dots> \<longleftrightarrow> kind = ProcessEnded \<and> ?spec (prc_ID p)"
      by (auto dest: map_of_SomeD intro: rev_image_eqI)
    finally show ?thesis .
  qed
  ultimately show ?thesis by (auto simp: session_changes_def split: process_kind.splits)
qed

lemma change_of_idents:
  assumes "\<forall>k \<in> set ks. \<exists>p. nxt k = Some p \<and> prc_ID p = k"
  shows "map (prc_ID \<circ> snd) (concat (map (change_of previous nxt) ks)) = filter (\<lambda>k. previous k \<noteq> nxt k) ks"
  using assms by (induction ks) (auto simp: change_of_def split: option.splits)

lemma session_changes_distinct:
  assumes "keyed previous" and "keyed nxt"
  shows "distinct (map (prc_ID \<circ> snd) (session_changes previous nxt at))"
proof -
  have "\<forall>k \<in> set (sort (map fst nxt)). \<exists>p. map_of nxt k = Some p \<and> prc_ID p = k"
    using assms(2) by (auto simp: keyed_def)
  note started = change_of_idents [OF this, of "map_of previous"]
  have "prc_ID (the (map_of previous k)) = k" if "k \<in> fst ` set previous" for k
    using assms(1) that by (auto simp: keyed_def)
  then have ended: "map (prc_ID \<circ> snd) (map (end_of (map_of previous) at)
      (sort (filter (\<lambda>k. map_of nxt k = None) (map fst previous))))
    = sort (filter (\<lambda>k. map_of nxt k = None) (map fst previous))"
    by (auto simp: end_of_def ended_record_def comp_def intro!: map_idI)
  show ?thesis
    using assms unfolding session_changes_def map_append started ended
    by (auto simp: keyed_def map_of_eq_None_iff)
qed

lemma session_changes_same:
  assumes "map_of previous = map_of nxt"
  shows "session_changes previous nxt at = []"
proof -
  have "change_of (map_of nxt) (map_of nxt) k = []" if "k \<in> fst ` set nxt" for k
  proof -
    have "map_of nxt k \<noteq> None" using that by (simp add: map_of_eq_None_iff)
    then show ?thesis by (auto simp: change_of_def)
  qed
  moreover have "filter (\<lambda>k. map_of nxt k = None) (map fst previous) = []"
    using assms by (auto simp: filter_empty_conv map_of_eq_None_iff) (metis map_of_eq_None_iff image_eqI fst_conv)
  ultimately show ?thesis by (simp add: session_changes_def assms)
qed

text \<open>A replacement reports exactly the differences between a session's last snapshot and the new
  one: a process is reported started when its identifier is new, updated when its record differs in
  any field, ended (with the state and time set) when its identifier is gone, and not at all when
  its record is the same; no identifier is reported twice. So replacing a session with what it
  already holds publishes nothing and costs no revision.\<close>

lemma replacement_reports_differences:
  assumes "replaceSession n following at (iw_state (inv_run ops)) = (changes, s')"
  defines "before \<equiv> map_of (session_records (iw_state (inv_run ops)) n)" and "now \<equiv> map_of (by_id following)"
  shows "((ProcessStarted, p) \<in> set (reports changes) \<longleftrightarrow> now (prc_ID p) = Some p \<and> before (prc_ID p) = None)
    \<and> ((ProcessUpdated, p) \<in> set (reports changes) \<longleftrightarrow> now (prc_ID p) = Some p
      \<and> (\<exists>b. before (prc_ID p) = Some b \<and> b \<noteq> p))
    \<and> ((ProcessEnded, p) \<in> set (reports changes) \<longleftrightarrow> now (prc_ID p) = None
      \<and> (\<exists>b. before (prc_ID p) = Some b \<and> p = ended_record at b))
    \<and> distinct (map (prc_ID \<circ> snd) (reports changes))
    \<and> (before = now \<longrightarrow> changes = [] \<and> inv_revision s' = inv_revision (iw_state (inv_run ops)))"
proof -
  define s where "s = iw_state (inv_run ops)"
  have ok: "keyed (session_records s n)"
    using inv_run_ok [of ops] unfolding inv_world_ok_def Let_def s_def by blast
  from replaceSession_announced [OF assms(1) [folded s_def] ok]
  have rep: "reports changes = session_changes (session_records s n) (by_id following) at"
    and rev: "inv_revision s' = inv_revision s + of_nat (length changes)"
    by (auto simp: announced_def)
  note differ = session_changes_iff [OF ok keyed_by_id, of _ p following at]
  show ?thesis
    using differ session_changes_distinct [OF ok keyed_by_id, of following at]
      session_changes_same [of "session_records s n" "by_id following" at] rev
    unfolding before_def now_def s_def [symmetric] rep [symmetric] by (auto simp: reports_def)
qed

lemma replacement_reports_differences_witness:
  "\<exists>changes s'. replaceSession 1 [sample_process ''a'' ''sh''] 9 (iw_state (inv_run sample_inv_ops)) = (changes, s')
    \<and> (ProcessStarted, sample_process ''a'' ''sh'') \<in> set (reports changes)
    \<and> (ProcessEnded, ended_record 9 (sample_process ''b'' ''vi'')) \<in> set (reports changes)"
proof -
  obtain changes s' where r:
      "replaceSession 1 [sample_process ''a'' ''sh''] 9 (iw_state (inv_run sample_inv_ops)) = (changes, s')" by fastforce
  have "\<forall>op \<in> set sample_inv_ops. replaces (\<lambda>_. 1) op" by (simp add: sample_inv_ops_def replaces_def)
  then have "session_records (iw_state (inv_run sample_inv_ops)) 1 = [(''b'', sample_process ''b'' ''vi'')]"
    using inv_run_tagged
    by (simp add: sample_inv_ops_def last_snapshot_def note_replace_def by_id_def sample_process_def)
  with replacement_reports_differences [OF r, of "sample_process ''a'' ''sh''"]
    replacement_reports_differences [OF r, of "ended_record 9 (sample_process ''b'' ''vi'')"] r
  show ?thesis by (simp add: by_id_def sample_process_def ended_record_def)
qed

end
