(* ===== verification/ProcessTree.thy ===== *)
theory ProcessTree
  imports Decimal
begin

section \<open>The process tree (process_tree_unix.go)\<close>

text \<open>
  One snapshot of the native process table, read into the descendants of a shell. The table's text
  and the working directories come from the operating system and are arguments; the scanning of
  lines, the splitting into fields, the numbers and the breadth-first walk are the code's. Text is
  a list of characters, one for each byte.
\<close>

subsection \<open>Lines, fields and numbers\<close>

definition byte_of :: "char \<Rightarrow> nat" where
  "byte_of ch = of_char ch"

text \<open>
  \<open>bufio.Scanner\<close>: lines without their end, a trailing carriage return dropped, no line for an
  empty rest; a line that fills the largest buffer before its end stops the scan with an error.
\<close>

definition MaxScanTokenSize :: nat where
  "MaxScanTokenSize = 65536"

fun split_lines :: "string \<Rightarrow> string \<Rightarrow> string list" where
  "split_lines line [] = (if line = [] then [] else [line])"
| "split_lines line (ch # text) = (if byte_of ch = 10 then line # split_lines [] text else split_lines (line @ [ch]) text)"

definition dropCR :: "string \<Rightarrow> string" where
  "dropCR line = (if line \<noteq> [] \<and> byte_of (last line) = 13 then butlast line else line)"

definition scan_lines :: "string \<Rightarrow> string list option" where
  "scan_lines text = (let raw = split_lines [] text
     in if \<exists>line \<in> set raw. length line \<ge> MaxScanTokenSize then None else Some (map dropCR raw))"

text \<open>How many bytes the white space at the head of a text takes: \<open>unicode.IsSpace\<close> on UTF-8.\<close>

definition space_width :: "string \<Rightarrow> nat" where
  "space_width text = (case map byte_of (take 3 text) of
     [] \<Rightarrow> 0
   | a # rest \<Rightarrow>
       if a = 32 \<or> 9 \<le> a \<and> a \<le> 13 then 1
       else (case rest of
         [] \<Rightarrow> 0
       | b # rest \<Rightarrow>
           if a = 194 \<and> (b = 133 \<or> b = 160) then 2
           else (case rest of
             [] \<Rightarrow> 0
           | c # _ \<Rightarrow>
               if a = 225 \<and> b = 154 \<and> c = 128 \<or> a = 226 \<and> b = 128 \<and> (128 \<le> c \<and> c \<le> 138 \<or> c = 168 \<or> c = 169 \<or> c = 175)
                  \<or> a = 226 \<and> b = 129 \<and> c = 159 \<or> a = 227 \<and> b = 128 \<and> c = 128 then 3 else 0)))"

text \<open>\<open>strings.Fields\<close>, with the field read so far.\<close>

definition end_field :: "string \<Rightarrow> string list" where
  "end_field field = (if field = [] then [] else [field])"

function fields_from :: "string \<Rightarrow> string \<Rightarrow> string list" where
  "fields_from field [] = end_field field"
| "fields_from field (ch # text) =
     (if space_width (ch # text) = 0 then fields_from (field @ [ch]) text
      else end_field field @ fields_from [] (drop (space_width (ch # text)) (ch # text)))"
  by pat_completeness auto

termination by (relation "measure (length \<circ> snd)") (auto simp del: drop_Suc_Cons)

definition Fields :: "string \<Rightarrow> string list" where
  "Fields text = fields_from [] text"

text \<open>\<open>strconv.ParseUint(text, 10, 32)\<close>.\<close>

definition parse_u32 :: "string \<Rightarrow> u32 option" where
  "parse_u32 text =
     (if text = [] \<or> \<not> list_all is_digit text then None
      else if digits_val text < 2 ^ 32 then Some (of_nat (digits_val text)) else None)"

fun join_fields :: "string list \<Rightarrow> string" where
  "join_fields [] = []"
| "join_fields [f] = f"
| "join_fields (f # g # fs) = f @ '' '' @ join_fields (g # fs)"

subsection \<open>The table\<close>

record row =
  row_pid :: u32
  row_parent :: u32
  row_group :: u32
  row_command :: string

record processTreeEntry =
  ent_PID :: u32
  ent_ParentPID :: u32
  ent_GroupID :: u32
  ent_Command :: string
  ent_CWD :: string

definition parse_row :: "string \<Rightarrow> row option" where
  "parse_row line = (let fields = Fields line
     in if length fields < 4 then None
        else (case (parse_u32 (fields ! 0), parse_u32 (fields ! 1), parse_u32 (fields ! 2)) of
          (Some pid, Some parent, Some grp) \<Rightarrow>
            Some \<lparr>row_pid = pid, row_parent = parent, row_group = grp, row_command = join_fields (drop 3 fields)\<rparr>
        | _ \<Rightarrow> None))"

definition read_rows :: "string list \<Rightarrow> row list" where
  "read_rows lines = List.map_filter parse_row lines"

text \<open>The map from a parent to its rows, in the order of the table.\<close>

definition children_of :: "row list \<Rightarrow> u32 \<Rightarrow> row list" where
  "children_of rows = fold (\<lambda>r m. m(row_parent r := m (row_parent r) @ [r])) rows (\<lambda>_. [])"

subsection \<open>The walk\<close>

datatype cwd_result = CwdIs string | CwdExited | CwdFailed string

datatype tree_error = ReadTable string | LineTooLong | ReadCwd u32 string

record walk =
  walk_result :: "processTreeEntry list"
  walk_queue :: "u32 list"
  walk_seen :: "u32 set"

fun walk_children :: "(u32 \<Rightarrow> cwd_result) \<Rightarrow> row list \<Rightarrow> walk \<Rightarrow> tree_error + walk" where
  "walk_children cwd [] w = Inr w"
| "walk_children cwd (child # rest) w =
     (if row_pid child \<in> walk_seen w then walk_children cwd rest w
      else (let w = w\<lparr>walk_seen := insert (row_pid child) (walk_seen w),
                      walk_queue := walk_queue w @ [row_pid child]\<rparr>
        in case cwd (row_pid child) of
             CwdExited \<Rightarrow> walk_children cwd rest w
           | CwdFailed e \<Rightarrow> Inl (ReadCwd (row_pid child) e)
           | CwdIs dir \<Rightarrow> walk_children cwd rest (w\<lparr>walk_result := walk_result w @
               [\<lparr>ent_PID = row_pid child, ent_ParentPID = row_parent child, ent_GroupID = row_group child,
                 ent_Command = row_command child, ent_CWD = dir\<rparr>]\<rparr>)))"

text \<open>What of the table the walk has not seen yet, and what it still has to do.\<close>

definition walk_left :: "row list \<Rightarrow> walk \<Rightarrow> nat" where
  "walk_left rows w = length (walk_queue w) + card (row_pid ` set rows - walk_seen w)"

lemma children_of_filter: "children_of rows p = filter (\<lambda>r. row_parent r = p) rows"
proof -
  have "fold (\<lambda>r m. m(row_parent r := m (row_parent r) @ [r])) rows m p
      = m p @ filter (\<lambda>r. row_parent r = p) rows" for m
    by (induction rows arbitrary: m) auto
  then show ?thesis by (simp add: children_of_def)
qed

lemma walk_children_left:
  assumes "walk_children cwd kids w = Inr w'" and "set kids \<subseteq> set rows"
  shows "walk_left rows w' \<le> walk_left rows w"
  using assms
proof (induction kids arbitrary: w)
  case (Cons k kids)
  show ?case
  proof (cases "row_pid k \<in> walk_seen w")
    case False
    define w1 where "w1 = w\<lparr>walk_seen := insert (row_pid k) (walk_seen w), walk_queue := walk_queue w @ [row_pid k]\<rparr>"
    have "row_pid ` set rows - walk_seen w1 = (row_pid ` set rows - walk_seen w) - {row_pid k}"
      by (auto simp: w1_def)
    moreover have "row_pid k \<in> row_pid ` set rows - walk_seen w" using False Cons.prems(2) by auto
    ultimately have "Suc (card (row_pid ` set rows - walk_seen w1)) = card (row_pid ` set rows - walk_seen w)"
      using card_Suc_Diff1 [of "row_pid ` set rows - walk_seen w" "row_pid k"] by simp
    then have "walk_left rows w1 = walk_left rows w" by (simp add: walk_left_def) (simp add: w1_def)
    then have left: "walk_left rows (w1\<lparr>walk_result := x\<rparr>) = walk_left rows w" for x
      by (simp add: walk_left_def)
    obtain x where "walk_children cwd kids (w1\<lparr>walk_result := x\<rparr>) = Inr w'"
    proof (cases "cwd (row_pid k)")
      case CwdExited
      with Cons.prems(1) False that [of "walk_result w1"] show ?thesis by (simp add: w1_def)
    qed (use Cons.prems(1) False that in \<open>auto simp: w1_def Let_def\<close>)
    with Cons.IH [of "w1\<lparr>walk_result := x\<rparr>"] Cons.prems(2) left show ?thesis by auto
  qed (use Cons in auto)
qed simp

function walk_queue_of :: "(u32 \<Rightarrow> cwd_result) \<Rightarrow> row list \<Rightarrow> walk \<Rightarrow> tree_error + walk" where
  "walk_queue_of cwd rows w = (case walk_queue w of
     [] \<Rightarrow> Inr w
   | parent # queue \<Rightarrow> (case walk_children cwd (children_of rows parent) (w\<lparr>walk_queue := queue\<rparr>) of
       Inl e \<Rightarrow> Inl e
     | Inr w \<Rightarrow> walk_queue_of cwd rows w))"
  by pat_completeness auto

termination
proof (relation "measure (\<lambda>(cwd, rows, w). walk_left rows w)", goal_cases)
  case (2 cwd rows w parent queue w')
  have "walk_left rows w' \<le> walk_left rows (w\<lparr>walk_queue := queue\<rparr>)"
    using 2(2) by (rule walk_children_left) (auto simp: children_of_filter)
  also have "\<dots> < walk_left rows w" using 2(1) by (simp add: walk_left_def)
  finally show ?case by simp
qed simp

declare walk_queue_of.simps [simp del]

text \<open>The whole of it: the table is what the command answered, or its error.\<close>

definition Descendants :: "(u32 \<Rightarrow> cwd_result) \<Rightarrow> string + string \<Rightarrow> u32 \<Rightarrow> tree_error + processTreeEntry list" where
  "Descendants cwd table root = (case table of
     Inl e \<Rightarrow> Inl (ReadTable e)
   | Inr text \<Rightarrow> (case scan_lines text of
       None \<Rightarrow> Inl LineTooLong
     | Some lines \<Rightarrow> (let rows = read_rows lines
         in if root \<notin> row_pid ` set rows then Inr []
            else map_sum id walk_result (walk_queue_of cwd rows
              \<lparr>walk_result = [], walk_queue = [root], walk_seen = {root}\<rparr>))))"

subsection \<open>What the walk reaches\<close>

definition parentage :: "row list \<Rightarrow> (u32 \<times> u32) set" where
  "parentage rows = {(row_parent r, row_pid r) | r. r \<in> set rows}"

definition entry_of :: "(u32 \<Rightarrow> cwd_result) \<Rightarrow> row list \<Rightarrow> processTreeEntry \<Rightarrow> bool" where
  "entry_of cwd rows e \<longleftrightarrow> cwd (ent_PID e) = CwdIs (ent_CWD e) \<and>
     \<lparr>row_pid = ent_PID e, row_parent = ent_ParentPID e, row_group = ent_GroupID e, row_command = ent_Command e\<rparr>
       \<in> set rows"

definition readable :: "(u32 \<Rightarrow> cwd_result) \<Rightarrow> u32 set \<Rightarrow> u32 set" where
  "readable cwd ps = {p \<in> ps. \<exists>d. cwd p = CwdIs d}"

definition unfailing :: "(u32 \<Rightarrow> cwd_result) \<Rightarrow> u32 set \<Rightarrow> bool" where
  "unfailing cwd ps \<longleftrightarrow> (\<forall>p \<in> ps. \<forall>m. cwd p \<noteq> CwdFailed m)"

lemma row_whole:
  "\<lparr>row_pid = row_pid k, row_parent = row_parent k, row_group = row_group k, row_command = row_command k\<rparr> = k"
  by (cases k) simp

text \<open>One round adds exactly the children not seen before.\<close>

definition walked :: "(u32 \<Rightarrow> cwd_result) \<Rightarrow> row list \<Rightarrow> u32 set \<Rightarrow> walk \<Rightarrow> walk \<Rightarrow> bool" where
  "walked cwd rows new w w' \<longleftrightarrow> new \<inter> walk_seen w = {} \<and> walk_seen w' = walk_seen w \<union> new
     \<and> (\<exists>q. walk_queue w' = walk_queue w @ q \<and> set q = new)
     \<and> (\<exists>es. walk_result w' = walk_result w @ es \<and> distinct (map ent_PID es)
          \<and> ent_PID ` set es = readable cwd new \<and> (\<forall>e \<in> set es. entry_of cwd rows e))
     \<and> unfailing cwd new"

lemma walked_refl: "walked cwd rows {} w w"
  by (simp add: walked_def readable_def unfailing_def)

lemma walked_trans:
  assumes "walked cwd rows a u v" and "walked cwd rows b v w"
  shows "walked cwd rows (a \<union> b) u w"
proof -
  have disj: "a \<inter> b = {}" "(a \<union> b) \<inter> walk_seen u = {}" using assms by (auto simp: walked_def)
  obtain qa ea where a: "walk_queue v = walk_queue u @ qa" "set qa = a" "walk_result v = walk_result u @ ea"
      "distinct (map ent_PID ea)" "ent_PID ` set ea = readable cwd a" "\<forall>e \<in> set ea. entry_of cwd rows e"
    using assms(1) by (auto simp: walked_def)
  obtain qb eb where b: "walk_queue w = walk_queue v @ qb" "set qb = b" "walk_result w = walk_result v @ eb"
      "distinct (map ent_PID eb)" "ent_PID ` set eb = readable cwd b" "\<forall>e \<in> set eb. entry_of cwd rows e"
    using assms(2) by (auto simp: walked_def)
  have "readable cwd a \<inter> readable cwd b = {}" using disj(1) by (auto simp: readable_def)
  then have "distinct (map ent_PID (ea @ eb))" using a(4,5) b(4,5) by simp
  moreover have "ent_PID ` set (ea @ eb) = readable cwd (a \<union> b)"
    using a(5) b(5) by (auto simp: readable_def image_Un)
  moreover have "\<forall>e \<in> set (ea @ eb). entry_of cwd rows e" using a(6) b(6) by auto
  ultimately have "\<exists>es. walk_result w = walk_result u @ es \<and> distinct (map ent_PID es)
          \<and> ent_PID ` set es = readable cwd (a \<union> b) \<and> (\<forall>e \<in> set es. entry_of cwd rows e)"
    using a(3) b(3) by (intro exI [of _ "ea @ eb"]) simp
  moreover have "\<exists>q. walk_queue w = walk_queue u @ q \<and> set q = a \<union> b"
    using a(1,2) b(1,2) by (intro exI [of _ "qa @ qb"]) simp
  moreover have "walk_seen w = walk_seen u \<union> (a \<union> b)" "unfailing cwd (a \<union> b)"
    using assms by (auto simp: walked_def unfailing_def)
  ultimately show ?thesis using disj(2) by (simp add: walked_def)
qed

lemma walk_children_walked:
  assumes "walk_children cwd kids w = Inr w'" and "set kids \<subseteq> set rows"
  shows "walked cwd rows (row_pid ` set kids - walk_seen w) w w'"
  using assms
proof (induction kids arbitrary: w)
  case (Cons k kids)
  show ?case
  proof (cases "row_pid k \<in> walk_seen w")
    case True
    with Cons show ?thesis by (simp add: insert_absorb Diff_insert2 insert_Diff_if)
  next
    case False
    define w1 where "w1 = w\<lparr>walk_seen := insert (row_pid k) (walk_seen w), walk_queue := walk_queue w @ [row_pid k]\<rparr>"
    have k: "\<lparr>row_pid = row_pid k, row_parent = row_parent k, row_group = row_group k,
        row_command = row_command k\<rparr> \<in> set rows"
      unfolding row_whole using Cons.prems(2) by simp
    obtain w2 where w2: "walked cwd rows {row_pid k} w w2" "walk_children cwd kids w2 = Inr w'"
    proof (cases "cwd (row_pid k)")
      case (CwdIs dir)
      define e where "e = \<lparr>ent_PID = row_pid k, ent_ParentPID = row_parent k, ent_GroupID = row_group k,
        ent_Command = row_command k, ent_CWD = dir\<rparr>"
      have "walked cwd rows {row_pid k} w (w1\<lparr>walk_result := walk_result w1 @ [e]\<rparr>)"
        using False CwdIs k
        by (auto simp: walked_def w1_def readable_def unfailing_def entry_of_def e_def intro!: exI [of _ "[e]"])
      with Cons.prems(1) False CwdIs that show ?thesis by (simp add: w1_def e_def)
    next
      case CwdExited
      then have "walked cwd rows {row_pid k} w w1"
        using False by (auto simp: walked_def w1_def readable_def unfailing_def)
      with Cons.prems(1) False CwdExited that show ?thesis by (simp add: w1_def)
    qed (use Cons.prems(1) False in simp)
    have "row_pid ` set (k # kids) - walk_seen w = {row_pid k} \<union> (row_pid ` set kids - walk_seen w2)"
      using w2(1) False by (auto simp: walked_def)
    with walked_trans [OF w2(1) Cons.IH [OF w2(2)]] Cons.prems(2) show ?thesis by simp
  qed
qed (simp add: walked_refl)

lemma walk_children_error:
  assumes "walk_children cwd kids w = Inl err"
  shows "\<exists>r \<in> set kids. \<exists>m. row_pid r \<notin> walk_seen w \<and> cwd (row_pid r) = CwdFailed m \<and> err = ReadCwd (row_pid r) m"
  using assms
proof (induction kids arbitrary: w)
  case (Cons k kids)
  then show ?case
    by (cases "row_pid k \<in> walk_seen w"; cases "cwd (row_pid k)") (fastforce simp: Let_def)+
qed simp

text \<open>What holds between rounds.\<close>

definition walk_ok :: "(u32 \<Rightarrow> cwd_result) \<Rightarrow> row list \<Rightarrow> u32 \<Rightarrow> walk \<Rightarrow> bool" where
  "walk_ok cwd rows root w \<longleftrightarrow> root \<in> walk_seen w \<and> set (walk_queue w) \<subseteq> walk_seen w
     \<and> walk_seen w \<subseteq> (parentage rows)\<^sup>* `` {root}
     \<and> (\<forall>p \<in> walk_seen w - set (walk_queue w). parentage rows `` {p} \<subseteq> walk_seen w)
     \<and> distinct (map ent_PID (walk_result w))
     \<and> ent_PID ` set (walk_result w) = readable cwd (walk_seen w - {root})
     \<and> (\<forall>e \<in> set (walk_result w). entry_of cwd rows e)
     \<and> unfailing cwd (walk_seen w - {root})"

lemma parentage_children: "parentage rows `` {p} = row_pid ` set (children_of rows p)"
  by (auto simp: parentage_def children_of_filter)

lemma walk_round_ok:
  assumes "walk_ok cwd rows root w" and "walk_queue w = p # queue"
    and "walk_children cwd (children_of rows p) (w\<lparr>walk_queue := queue\<rparr>) = Inr w'"
  shows "walk_ok cwd rows root w'"
proof -
  define new where "new = parentage rows `` {p} - walk_seen w"
  have wk: "walked cwd rows new (w\<lparr>walk_queue := queue\<rparr>) w'"
    using walk_children_walked [OF assms(3), of rows]
    by (auto simp: new_def parentage_children children_of_filter)
  then obtain q es where w': "walk_seen w' = walk_seen w \<union> new" "walk_queue w' = queue @ q" "set q = new"
      "walk_result w' = walk_result w @ es" "distinct (map ent_PID es)" "ent_PID ` set es = readable cwd new"
      "\<forall>e \<in> set es. entry_of cwd rows e" "unfailing cwd new"
    by (auto simp: walked_def)
  have p: "p \<in> walk_seen w" "(root, p) \<in> (parentage rows)\<^sup>*" using assms(1,2) by (auto simp: walk_ok_def)
  have root: "root \<in> walk_seen w" "root \<notin> new" using assms(1) by (auto simp: walk_ok_def new_def)
  have old: "ent_PID ` set (walk_result w) = readable cwd (walk_seen w - {root})"
    using assms(1) by (simp add: walk_ok_def)
  have "new \<subseteq> (parentage rows)\<^sup>* `` {root}"
    using p(2) by (auto simp: new_def intro: rtrancl.rtrancl_into_rtrancl)
  moreover have "\<forall>x \<in> walk_seen w' - set (walk_queue w'). parentage rows `` {x} \<subseteq> walk_seen w'"
    using assms(1,2) w'(1-3) by (auto simp: walk_ok_def new_def)
  moreover have "distinct (map ent_PID (walk_result w'))"
    using assms(1) w'(4,5,6) old by (auto simp: walk_ok_def readable_def new_def)
  moreover have "ent_PID ` set (walk_result w') = readable cwd (walk_seen w' - {root})"
    using old w'(1,4,6) root by (auto simp: image_Un readable_def)
  moreover have "unfailing cwd (walk_seen w' - {root})"
    using assms(1) w'(1,8) by (auto simp: walk_ok_def unfailing_def)
  ultimately show ?thesis
    using assms(1,2) w'(1-4,7) by (auto simp: walk_ok_def)
qed

lemma walk_reaches:
  assumes "walk_ok cwd rows root w"
  shows "case walk_queue_of cwd rows w of
      Inr w' \<Rightarrow> walk_ok cwd rows root w' \<and> walk_seen w' = (parentage rows)\<^sup>* `` {root}
    | Inl err \<Rightarrow> \<exists>p m. err = ReadCwd p m \<and> (root, p) \<in> (parentage rows)\<^sup>* \<and> p \<noteq> root \<and> cwd p = CwdFailed m"
  using assms
proof (induction cwd rows w rule: walk_queue_of.induct)
  case (1 cwd rows w)
  show ?case
  proof (cases "walk_queue w")
    case Nil
    have "(root, p) \<in> (parentage rows)\<^sup>* \<Longrightarrow> p \<in> walk_seen w" for p
      by (induction rule: rtrancl_induct) (use 1(2) Nil in \<open>auto simp: walk_ok_def\<close>)
    with Nil 1(2) show ?thesis by (subst walk_queue_of.simps) (auto simp: walk_ok_def)
  next
    case (Cons p queue)
    show ?thesis
    proof (cases "walk_children cwd (children_of rows p) (w\<lparr>walk_queue := queue\<rparr>)")
      case (Inl err)
      have "(root, p) \<in> (parentage rows)\<^sup>*" "root \<in> walk_seen w" using 1(2) Cons by (auto simp: walk_ok_def)
      moreover obtain r m where "r \<in> set (children_of rows p)" "row_pid r \<notin> walk_seen w"
          "cwd (row_pid r) = CwdFailed m" "err = ReadCwd (row_pid r) m"
        using walk_children_error [OF Inl] by auto
      moreover from this(1) have "(p, row_pid r) \<in> parentage rows" by (auto simp: parentage_def children_of_filter)
      ultimately show ?thesis using Cons Inl
        by (subst walk_queue_of.simps) (auto intro: rtrancl.rtrancl_into_rtrancl)
    next
      case (Inr w')
      with 1(1) [OF Cons Inr walk_round_ok [OF 1(2) Cons Inr]] Cons show ?thesis
        by (subst walk_queue_of.simps) simp
    qed
  qed
qed

lemma Descendants_walk:
  fixes root :: u32
  assumes "scan_lines text = Some lines"
  defines "rows \<equiv> read_rows lines"
    and "below \<equiv> {p. (root, p) \<in> (parentage (read_rows lines))\<^sup>* \<and> p \<noteq> root}"
  shows "case Descendants cwd (Inr text) root of
      Inr es \<Rightarrow> (if root \<in> row_pid ` set rows
         then distinct (map ent_PID es) \<and> ent_PID ` set es = readable cwd below
           \<and> (\<forall>e \<in> set es. entry_of cwd rows e) \<and> unfailing cwd below
         else es = [])
    | Inl err \<Rightarrow> \<exists>p \<in> below. \<exists>m. cwd p = CwdFailed m \<and> err = ReadCwd p m"
proof -
  define w where "w = \<lparr>walk_result = [], walk_queue = [root], walk_seen = {root}\<rparr>"
  have "walk_ok cwd rows root w"
    by (simp add: walk_ok_def w_def readable_def unfailing_def)
  note reached = walk_reaches [OF this]
  show ?thesis
  proof (cases "walk_queue_of cwd rows w")
    case (Inl err)
    with reached assms(1) show ?thesis
      by (auto simp: Descendants_def w_def rows_def below_def Let_def)
  next
    case (Inr w')
    with reached have "walk_ok cwd rows root w'" and "walk_seen w' - {root} = below"
      by (auto simp: below_def rows_def)
    with Inr assms(1) show ?thesis
      by (simp add: Descendants_def w_def rows_def Let_def walk_ok_def)
  qed
qed

subsection \<open>Properties\<close>

text \<open>C26. The descendants of a shell are exactly what its ancestry reaches. The walk always ends, cycles
  and a process that is its own parent included. When it answers, it names every process that a
  chain of parents ties to the shell and whose directory could be read, each once, never the shell
  itself, with its row of the table and its directory; a process that exited meanwhile is left out
  but its own children are not. When it answers an error, the directory of one of those processes
  could not be read. A shell that is not in the table has no descendants.\<close>

theorem descendants_are_reachable:
  fixes root :: u32
  assumes "scan_lines text = Some lines"
  defines "rows \<equiv> read_rows lines"
    and "below \<equiv> {p. (root, p) \<in> (parentage (read_rows lines))\<^sup>* \<and> p \<noteq> root}"
  shows "case Descendants cwd (Inr text) root of
      Inr es \<Rightarrow> (if root \<in> row_pid ` set rows
         then distinct (map ent_PID es) \<and> ent_PID ` set es = readable cwd below
           \<and> (\<forall>e \<in> set es. entry_of cwd rows e) \<and> unfailing cwd below
         else es = [])
    | Inl err \<Rightarrow> \<exists>p \<in> below. \<exists>m. cwd p = CwdFailed m \<and> err = ReadCwd p m"
  unfolding rows_def below_def using Descendants_walk [OF assms(1)] .

definition sample_table :: string where
  "sample_table = ''10 1 10 zsh'' @ [CHR 0x0A] @ '' 12 10 12 vim  a'' @ [CHR 0x0A]
     @ ''bad'' @ [CHR 0x0A] @ ''13 12 12 sh -c x'' @ [CHR 0x0A] @ ''14 13 12 y''"

definition sample_cwd :: "u32 \<Rightarrow> cwd_result" where
  "sample_cwd p = (if p = 13 then CwdExited else CwdIs ''/w'')"

lemma sample_scan: "scan_lines sample_table = Some [''10 1 10 zsh'', '' 12 10 12 vim  a'', ''bad'', ''13 12 12 sh -c x'', ''14 13 12 y'']"
  by (simp add: scan_lines_def sample_table_def byte_of_def MaxScanTokenSize_def dropCR_def)

lemma sample_rows: "read_rows [''10 1 10 zsh'', '' 12 10 12 vim  a'', ''bad'', ''13 12 12 sh -c x'', ''14 13 12 y'']
  = [\<lparr>row_pid = 10, row_parent = 1, row_group = 10, row_command = ''zsh''\<rparr>,
     \<lparr>row_pid = 12, row_parent = 10, row_group = 12, row_command = ''vim a''\<rparr>,
     \<lparr>row_pid = 13, row_parent = 12, row_group = 12, row_command = ''sh -c x''\<rparr>,
     \<lparr>row_pid = 14, row_parent = 13, row_group = 12, row_command = ''y''\<rparr>]"
  by (simp add: read_rows_def List.map_filter_simps parse_row_def Fields_def space_width_def byte_of_def
      end_field_def parse_u32_def is_digit_def digits_val_def digit_val_def)

theorem descendants_are_reachable_witness:
  "Descendants sample_cwd (Inr sample_table) 10 =
     Inr [\<lparr>ent_PID = 12, ent_ParentPID = 10, ent_GroupID = 12, ent_Command = ''vim a'', ent_CWD = ''/w''\<rparr>,
          \<lparr>ent_PID = 14, ent_ParentPID = 13, ent_GroupID = 12, ent_Command = ''y'', ent_CWD = ''/w''\<rparr>]
   \<and> {12, 14} = readable sample_cwd {p. (10, p) \<in>
       (parentage (read_rows [''10 1 10 zsh'', '' 12 10 12 vim  a'', ''bad'', ''13 12 12 sh -c x'', ''14 13 12 y'']))\<^sup>* \<and> p \<noteq> 10}"
proof -
  have 1: "Descendants sample_cwd (Inr sample_table) 10 =
     Inr [\<lparr>ent_PID = 12, ent_ParentPID = 10, ent_GroupID = 12, ent_Command = ''vim a'', ent_CWD = ''/w''\<rparr>,
          \<lparr>ent_PID = 14, ent_ParentPID = 13, ent_GroupID = 12, ent_Command = ''y'', ent_CWD = ''/w''\<rparr>]"
    by (simp add: Descendants_def sample_scan sample_rows walk_queue_of.simps children_of_def sample_cwd_def)
  from descendants_are_reachable [OF sample_scan, of 10 sample_cwd] 1 show ?thesis by (simp add: sample_rows)
qed

text \<open>A field of printable characters, and the blanks between two fields.\<close>

definition plain :: "string \<Rightarrow> bool" where
  "plain f \<longleftrightarrow> f \<noteq> [] \<and> (\<forall>ch \<in> set f. 33 \<le> byte_of ch \<and> byte_of ch \<le> 126)"

definition blanks :: "nat \<Rightarrow> string" where
  "blanks n = replicate n (CHR '' '')"

lemma space_width_plain: "33 \<le> byte_of ch \<Longrightarrow> byte_of ch \<le> 126 \<Longrightarrow> space_width (ch # text) = 0"
  by (auto simp: space_width_def split: list.splits)

lemma space_width_blank: "space_width (CHR '' '' # text) = 1"
  by (simp add: space_width_def byte_of_def)

lemma fields_word:
  "\<forall>ch \<in> set w. 33 \<le> byte_of ch \<and> byte_of ch \<le> 126 \<Longrightarrow> fields_from f (w @ text) = fields_from (f @ w) text"
  by (induction w arbitrary: f) (simp_all add: space_width_plain)

lemma fields_blanks: "fields_from [] (blanks n @ text) = fields_from [] text"
  by (induction n) (simp_all add: blanks_def space_width_blank end_field_def)

lemma fields_sep: "fields_from f (blanks (Suc n) @ text) = end_field f @ fields_from [] text"
  using fields_blanks [of n "text"] by (simp add: blanks_def space_width_blank)

lemma fields_next:
  assumes "plain f"
  shows "fields_from [] (f @ blanks (Suc n) @ text) = f # fields_from [] text"
  using assms fields_word [of f "[]" "blanks (Suc n) @ text"] fields_sep [of f n "text"]
  by (simp add: plain_def end_field_def)

lemma fields_join: "\<forall>f \<in> set fs. plain f \<Longrightarrow> fields_from [] (join_fields fs) = fs"
proof (induction fs rule: join_fields.induct)
  case (2 f)
  then show ?case using fields_word [of f "[]" "[]"] by (simp add: plain_def end_field_def)
next
  case (3 f g fs)
  then show ?case using fields_next [of f 0 "join_fields (g # fs)"] by (simp add: blanks_def)
qed (simp add: end_field_def)

lemma plain_format: "plain (format_nat n)"
  using format_nat_digits [of n] by (auto simp: plain_def list_all_iff is_digit_def byte_of_def)

lemma parse_format_u32 [simp]: "parse_u32 (format_nat (unat (p :: u32))) = Some p"
  using format_nat_digits [of "unat p"] unat_u32_bound [of p] by (simp add: parse_u32_def digits_val_format)

text \<open>A row of the process table reads back as it was printed: whatever number of blanks pads and
  separates the columns, the process, its parent, its group and the words of its command come back,
  the command with single blanks between its words.\<close>

lemma process_row_roundtrip:
  assumes "ws \<noteq> []" and "\<forall>f \<in> set ws. plain f"
  shows "parse_row (blanks a @ format_nat (unat pid) @ blanks (Suc b) @ format_nat (unat parent)
      @ blanks (Suc c) @ format_nat (unat grp) @ blanks (Suc d) @ join_fields ws)
    = Some \<lparr>row_pid = pid, row_parent = parent, row_group = grp, row_command = join_fields ws\<rparr>"
proof -
  have "Fields (blanks a @ format_nat (unat pid) @ blanks (Suc b) @ format_nat (unat parent)
      @ blanks (Suc c) @ format_nat (unat grp) @ blanks (Suc d) @ join_fields ws)
    = format_nat (unat pid) # format_nat (unat parent) # format_nat (unat grp) # ws"
    using assms(2) by (simp add: Fields_def fields_blanks fields_next plain_format fields_join)
  with assms(1) show ?thesis by (cases ws) (simp_all add: parse_row_def)
qed

lemma process_row_roundtrip_witness:
  "parse_row (blanks 2 @ format_nat (unat (12::u32)) @ blanks (Suc 1) @ format_nat (unat (10::u32))
      @ blanks (Suc 0) @ format_nat (unat (12::u32)) @ blanks (Suc 2) @ join_fields [''vim'', ''a''])
    = Some \<lparr>row_pid = 12, row_parent = 10, row_group = 12, row_command = ''vim a''\<rparr>"
proof -
  have "\<forall>f \<in> set [''vim'', ''a'']. plain f" by (simp add: plain_def byte_of_def)
  then show ?thesis
    using process_row_roundtrip [of "[''vim'', ''a'']" 2 12 1 10 0 12 2] by simp
qed

subsection \<open>Where a process is (processCWD)\<close>

text \<open>
  The answers of the operating system are arguments: the link under \<open>/proc\<close> on Linux; elsewhere
  the output of \<open>lsof\<close> and, when it failed, whether the process is gone.
\<close>

datatype link_result = LinkIs string | LinkNotExist | LinkFailed string

fun Split :: "nat \<Rightarrow> string \<Rightarrow> string \<Rightarrow> string list" where
  "Split sep part [] = [part]"
| "Split sep part (ch # chars) = (if byte_of ch = sep then part # Split sep [] chars else Split sep (part @ [ch]) chars)"

definition cwd_line :: "string \<Rightarrow> string option" where
  "cwd_line out = map_option tl (List.find (\<lambda>line. line \<noteq> [] \<and> hd line = CHR ''n'' \<and> length line > 1) (Split 10 [] out))"

definition processCWD :: "bool \<Rightarrow> link_result \<Rightarrow> string + string \<Rightarrow> bool \<Rightarrow> cwd_result" where
  "processCWD linux link lsof gone =
     (if linux then (case link of LinkNotExist \<Rightarrow> CwdExited | LinkIs dir \<Rightarrow> CwdIs dir | LinkFailed e \<Rightarrow> CwdFailed e)
      else (case lsof of
          Inl e \<Rightarrow> if gone then CwdExited else CwdFailed (''lsof: '' @ e)
        | Inr out \<Rightarrow> (case cwd_line out of
            Some dir \<Rightarrow> CwdIs dir
          | None \<Rightarrow> CwdFailed ''cwd was not reported'')))"

text \<open>Windows reports the shell only (process_tree_windows.go).\<close>

definition windowsDescendants :: "u32 \<Rightarrow> tree_error + processTreeEntry list" where
  "windowsDescendants root = Inr []"

subsection \<open>What a reader of the tree promises\<close>

text \<open>The interface \<open>processTreeReader\<close>: no process twice, and never the root itself.\<close>

locale tree_reader =
  fixes descendants :: "u32 \<Rightarrow> tree_error + processTreeEntry list"
  assumes entries_distinct: "descendants root = Inr es \<Longrightarrow> distinct (map ent_PID es)"
    and never_root: "descendants root = Inr es \<Longrightarrow> root \<notin> ent_PID ` set es"

lemma Descendants_promises:
  assumes "Descendants cwd table root = Inr es"
  shows "distinct (map ent_PID es) \<and> root \<notin> ent_PID ` set es"
proof -
  obtain out lines where "table = Inr out" and 1: "scan_lines out = Some lines"
    using assms by (auto simp: Descendants_def split: sum.splits option.splits)
  with Descendants_walk [OF 1, of root cwd] assms show ?thesis
    by (auto simp: readable_def split: if_splits)
qed

interpretation unix_reader: tree_reader "Descendants cwd table"
  by unfold_locales (auto dest: Descendants_promises)

interpretation windows_reader: tree_reader windowsDescendants
  by unfold_locales (auto simp: windowsDescendants_def)

end
