(* ===== verification/Watch.thy ===== *)
theory Watch
  imports ProcessTree
begin

section \<open>Watching a process tree (process_tree_events.go, process_tree_events_darwin.go)\<close>

text \<open>
  The native watch of a session's processes. The kernel queue is the operating system's: what it
  answers to adding a process is an argument, a function of the process because one call adds each
  process at most once. The record is the Go struct; the set of tracked processes is a list. An
  operation that fails half way leaves the state it reached.
\<close>

datatype kevent_result = KevOK | KevNoProcess | KevNoEntry | KevFailed string

datatype watch_error = ObserveUnsupported | QueueFailed string | RootNotObserved u32 kevent_result
  | WatchClosed | DescendantNotObserved u32 kevent_result | CloseFailed string

record watch =
  wt_root :: u32
  wt_queue :: int
  wt_tracked :: "u32 list"
  wt_closed :: bool

subsection \<open>The source\<close>

definition unsupportedSupported :: "watch_error + unit" where
  "unsupportedSupported = Inl ObserveUnsupported"

definition unsupportedObserve :: "u32 \<Rightarrow> watch_error + watch" where
  "unsupportedObserve root = Inl ObserveUnsupported"

definition darwinSupported :: "watch_error + unit" where
  "darwinSupported = Inr ()"

definition addLocked :: "(u32 \<Rightarrow> kevent_result) \<Rightarrow> u32 \<Rightarrow> watch \<Rightarrow> kevent_result \<times> watch" where
  "addLocked add pid w = (case add pid of
     KevOK \<Rightarrow> (KevOK, w\<lparr>wt_tracked := List.insert pid (wt_tracked w)\<rparr>)
   | e \<Rightarrow> (e, w))"

text \<open>A deletion that the kernel refuses is forgotten all the same.\<close>

definition deleteLocked :: "u32 \<Rightarrow> watch \<Rightarrow> watch" where
  "deleteLocked pid w = w\<lparr>wt_tracked := removeAll pid (wt_tracked w)\<rparr>"

definition darwinObserve :: "string + int \<Rightarrow> (u32 \<Rightarrow> kevent_result) \<Rightarrow> u32 \<Rightarrow> watch_error + watch" where
  "darwinObserve kqueue add root = (case kqueue of
     Inl e \<Rightarrow> Inl (QueueFailed e)
   | Inr queue \<Rightarrow>
       (let w = \<lparr>wt_root = root, wt_queue = queue, wt_tracked = [], wt_closed = False\<rparr>
        in case addLocked add root w of
             (KevOK, w) \<Rightarrow> Inr w
           | (e, _) \<Rightarrow> Inl (RootNotObserved root e)))"

subsection \<open>Bringing the watch in line with a snapshot\<close>

text \<open>The loop over the wanted processes in order, with those found alive so far.\<close>

fun sync_pids :: "(u32 \<Rightarrow> kevent_result) \<Rightarrow> u32 list \<Rightarrow> u32 set \<times> watch \<Rightarrow> (watch_error + u32 set) \<times> watch" where
  "sync_pids add [] (alive, w) = (Inr alive, w)"
| "sync_pids add (pid # pids) (alive, w) =
     (if pid = wt_root w then sync_pids add pids (alive, w)
      else if pid \<in> set (wt_tracked w) then sync_pids add pids (insert pid alive, w)
      else (case addLocked add pid w of
          (KevOK, w) \<Rightarrow> sync_pids add pids (insert pid alive, w)
        | (KevNoProcess, w) \<Rightarrow> sync_pids add pids (alive, w)
        | (e, w) \<Rightarrow> (Inl (DescendantNotObserved pid e), w)))"

definition by_pid :: "processTreeEntry list \<Rightarrow> u32 \<Rightarrow> processTreeEntry option" where
  "by_pid entries = map_of (rev (map (\<lambda>e. (ent_PID e, e)) entries))"

definition wanted_pids :: "u32 \<Rightarrow> processTreeEntry list \<Rightarrow> u32 list" where
  "wanted_pids root entries = sort (remdups (root # map ent_PID entries))"

definition Sync :: "(u32 \<Rightarrow> kevent_result) \<Rightarrow> processTreeEntry list \<Rightarrow> watch
    \<Rightarrow> (watch_error + processTreeEntry list) \<times> watch" where
  "Sync add entries w =
     (if wt_closed w then (Inl WatchClosed, w)
      else (let pids = wanted_pids (wt_root w) entries
        in case sync_pids add pids ({wt_root w}, w) of
             (Inl e, w) \<Rightarrow> (Inl e, w)
           | (Inr alive, w) \<Rightarrow>
               (let w = fold deleteLocked (filter (\<lambda>pid. pid \<notin> set pids) (wt_tracked w)) w
                in (Inr (map (\<lambda>pid. the (by_pid entries pid))
                      (filter (\<lambda>pid. pid \<noteq> wt_root w \<and> pid \<in> alive) pids)), w))))"

text \<open>\<open>ebadf\<close> is a close of a descriptor that is already gone, which is no error.\<close>

definition watch_close :: "(bool \<times> string) option \<Rightarrow> watch \<Rightarrow> (watch_error + unit) \<times> watch" where
  "watch_close os w =
     (if wt_closed w then (Inr (), w)
      else (case os of Some (False, e) \<Rightarrow> Inl (CloseFailed e) | _ \<Rightarrow> Inr (),
            w\<lparr>wt_closed := True, wt_queue := - 1, wt_tracked := []\<rparr>))"

text \<open>The goroutine: what it does with one answer of the kernel queue.\<close>

datatype kqueue_answer = Events nat | Interrupted | BadDescriptor | QueueError

datatype run_next = RunContinue bool | RunStop

definition watch_run_step :: "bool \<Rightarrow> kqueue_answer \<Rightarrow> run_next" where
  "watch_run_step closed answer = (case answer of
     Events n \<Rightarrow> RunContinue (0 < n)
   | _ \<Rightarrow> if closed \<or> answer = BadDescriptor then RunStop
          else if answer = Interrupted then RunContinue False else RunStop)"

subsection \<open>What a watch keeps\<close>

definition watch_ok :: "watch \<Rightarrow> bool" where
  "watch_ok w \<longleftrightarrow> (if wt_closed w then wt_tracked w = [] else wt_root w \<in> set (wt_tracked w))"

lemma fold_delete:
  "wt_root (fold deleteLocked ps w) = wt_root w \<and> wt_closed (fold deleteLocked ps w) = wt_closed w
    \<and> set (wt_tracked (fold deleteLocked ps w)) = set (wt_tracked w) - set ps"
  by (induction ps arbitrary: w) (auto simp: deleteLocked_def)

lemma sync_pids_spec:
  assumes "sync_pids add pids (alive, w) = (x, w')"
  shows "wt_root w' = wt_root w \<and> wt_closed w' = wt_closed w \<and> set (wt_tracked w) \<subseteq> set (wt_tracked w')
    \<and> set (wt_tracked w') \<subseteq> set (wt_tracked w) \<union> {p \<in> set pids. add p = KevOK}
    \<and> (\<forall>alive'. x = Inr alive' \<longrightarrow> alive' = alive \<union> ((set pids - {wt_root w}) \<inter> set (wt_tracked w'))
        \<and> (\<forall>p \<in> set pids - {wt_root w} - set (wt_tracked w'). add p = KevNoProcess))
    \<and> (\<forall>e. x = Inl e \<longrightarrow> (\<exists>p \<in> set pids. e = DescendantNotObserved p (add p) \<and> add p \<noteq> KevOK \<and> add p \<noteq> KevNoProcess))"
  using assms
proof (induction pids arbitrary: alive w)
  case Nil
  then show ?case by auto
next
  case (Cons pid pids)
  consider (root) "pid = wt_root w" | (kept) "pid \<noteq> wt_root w" "pid \<in> set (wt_tracked w)"
    | (new) "pid \<noteq> wt_root w" "pid \<notin> set (wt_tracked w)" by auto
  then show ?case
  proof cases
    case root
    with Cons.prems have "sync_pids add pids (alive, w) = (x, w')" by simp
    from Cons.IH [OF this] root show ?thesis by auto
  next
    case kept
    with Cons.prems have "sync_pids add pids (insert pid alive, w) = (x, w')" by simp
    from Cons.IH [OF this] kept show ?thesis by auto
  next
    case new
    show ?thesis
    proof (cases "add pid")
      case KevOK
      define w1 where "w1 = w\<lparr>wt_tracked := List.insert pid (wt_tracked w)\<rparr>"
      have "sync_pids add pids (insert pid alive, w1) = (x, w')"
        using Cons.prems new KevOK by (simp add: addLocked_def w1_def)
      from Cons.IH [OF this] KevOK new show ?thesis by (auto simp: w1_def)
    next
      case KevNoProcess
      with Cons.prems new have "sync_pids add pids (alive, w) = (x, w')" by (simp add: addLocked_def)
      from Cons.IH [OF this] KevNoProcess new show ?thesis by auto
    qed (use Cons.prems new in \<open>auto simp: addLocked_def\<close>)
  qed
qed

lemma sync_pids_not_root:
  assumes "sync_pids add pids (alive, w) = (Inl e, w')"
  shows "e \<noteq> DescendantNotObserved (wt_root w) k"
  using assms
proof (induction pids arbitrary: alive w)
  case (Cons pid pids)
  show ?case
  proof (cases "pid = wt_root w \<or> pid \<in> set (wt_tracked w)")
    case True
    with Cons show ?thesis by (auto split: if_splits)
  next
    case False
    with Cons.prems Cons.IH [of "insert pid alive" "w\<lparr>wt_tracked := pid # wt_tracked w\<rparr>"] Cons.IH [of alive w]
    show ?thesis by (cases "add pid") (auto simp: addLocked_def)
  qed
qed simp

lemma by_pid_in:
  assumes "p \<in> ent_PID ` set es"
  shows "\<exists>e \<in> set es. by_pid es p = Some e \<and> ent_PID e = p"
proof -
  have "by_pid es p \<noteq> None" using assms by (auto simp: by_pid_def map_of_eq_None_iff image_image)
  then obtain e where e: "by_pid es p = Some e" by auto
  then have "(p, e) \<in> set (rev (map (\<lambda>e. (ent_PID e, e)) es))" unfolding by_pid_def by (rule map_of_SomeD)
  with e show ?thesis by auto
qed

lemma set_wanted [simp]: "set (wanted_pids root es) = insert root (ent_PID ` set es)"
  by (auto simp: wanted_pids_def)

lemma distinct_wanted [simp]: "distinct (wanted_pids root es)"
  by (simp add: wanted_pids_def)

lemma Sync_result:
  assumes "Sync add entries w = (Inr rs, w')"
  shows "wt_root w' = wt_root w \<and> \<not> wt_closed w' \<and> set rs \<subseteq> set entries
    \<and> set (wt_tracked w') \<subseteq> insert (wt_root w) (ent_PID ` set entries)
    \<and> set (wt_tracked w') \<subseteq> set (wt_tracked w) \<union> {p. add p = KevOK}
    \<and> (wt_root w \<in> set (wt_tracked w) \<longrightarrow> wt_root w \<in> set (wt_tracked w'))
    \<and> ent_PID ` set entries \<inter> set (wt_tracked w) \<subseteq> set (wt_tracked w')
    \<and> map ent_PID rs = filter (\<lambda>p. p \<noteq> wt_root w \<and> p \<in> set (wt_tracked w')) (wanted_pids (wt_root w) entries)
    \<and> (\<forall>p \<in> ent_PID ` set entries - {wt_root w}. p \<in> set (wt_tracked w') \<or> add p = KevNoProcess)"
proof -
  define pids where "pids = wanted_pids (wt_root w) entries"
  obtain alive w1 where sp: "sync_pids add pids ({wt_root w}, w) = (Inr alive, w1)" and open_w: "\<not> wt_closed w"
    using assms by (auto simp: Sync_def pids_def Let_def split: if_splits prod.splits sum.splits)
  note spec = sync_pids_spec [OF sp]
  define gone where "gone = filter (\<lambda>pid. pid \<notin> set pids) (wt_tracked w1)"
  have w': "w' = fold deleteLocked gone w1"
    and rs: "rs = map (\<lambda>pid. the (by_pid entries pid)) (filter (\<lambda>pid. pid \<noteq> wt_root w' \<and> pid \<in> alive) pids)"
    using assms open_w sp by (auto simp: Sync_def pids_def Let_def gone_def)
  have root: "wt_root w' = wt_root w" and shut: "\<not> wt_closed w'"
    and tracked: "set (wt_tracked w') = set (wt_tracked w1) \<inter> set pids"
    using fold_delete [of gone w1] spec open_w by (auto simp: w' gone_def)
  have alive: "p \<in> alive \<longleftrightarrow> p \<in> set (wt_tracked w')" if "p \<in> set pids" "p \<noteq> wt_root w" for p
    using spec that by (auto simp: tracked)
  have found: "\<exists>e \<in> set entries. by_pid entries p = Some e \<and> ent_PID e = p" if "p \<in> set pids" "p \<noteq> wt_root w" for p
    using that by (intro by_pid_in) (auto simp: pids_def)
  have ids: "map ent_PID rs = filter (\<lambda>p. p \<noteq> wt_root w \<and> p \<in> set (wt_tracked w')) pids"
  proof -
    have "filter (\<lambda>p. p \<noteq> wt_root w' \<and> p \<in> alive) pids = filter (\<lambda>p. p \<noteq> wt_root w \<and> p \<in> set (wt_tracked w')) pids"
      using alive root by (intro filter_cong) auto
    moreover have "ent_PID (the (by_pid entries p)) = p" if "p \<in> set pids" "p \<noteq> wt_root w" for p
      using found [OF that] by auto
    ultimately show ?thesis unfolding rs map_map comp_def by (auto intro!: map_idI)
  qed
  moreover have "set rs \<subseteq> set entries" using found root by (fastforce simp: rs)
  moreover have "p \<in> set (wt_tracked w') \<or> add p = KevNoProcess"
    if "p \<in> ent_PID ` set entries - {wt_root w}" for p
    using spec that by (auto simp: tracked pids_def)
  ultimately show ?thesis
    using spec root shut by (auto simp: tracked pids_def)
qed

subsection \<open>The interface of a watch\<close>

text \<open>
  \<open>processTreeWatch\<close>: what the monitor of a session relies on is that bringing a watch in line
  answers some of the entries it was given, none twice.
\<close>

locale tree_watch =
  fixes sync :: "processTreeEntry list \<Rightarrow> 'w \<Rightarrow> (watch_error + processTreeEntry list) \<times> 'w"
    and live :: "'w \<Rightarrow> bool"
  assumes sync_subset: "sync entries w = (Inr rs, w') \<Longrightarrow> set rs \<subseteq> set entries"
    and sync_distinct: "sync entries w = (Inr rs, w') \<Longrightarrow> distinct (map ent_PID rs)"
    and sync_closed: "\<not> live w \<Longrightarrow> \<exists>e. sync entries w = (Inl e, w)"
begin

lemma sync_live: "sync entries w = (Inr rs, w') \<Longrightarrow> live w"
  using sync_closed [of w entries] by force

end

interpretation darwin_watch: tree_watch "Sync add" "\<lambda>w. \<not> wt_closed w"
proof unfold_locales
  fix entries w rs w'
  assume "Sync add entries w = (Inr rs, w')"
  from Sync_result [OF this] show "set rs \<subseteq> set entries" and "distinct (map ent_PID rs)"
    by (auto simp: distinct_filter)
qed (auto simp: Sync_def)

text \<open>A watch that was brought in line tracks what the snapshot named, and only that. It keeps the
  shell, drops what the snapshot no longer has, and adds what is new; the entries it answers are
  those of the snapshot whose processes it tracks now, in the order of their numbers; and every
  entry it leaves out is of a process that was already gone when its watch was set. It fails only
  when it is closed or when the kernel refuses a process that is still there, and a watch that was
  closed stays closed and tracks nothing.\<close>

lemma watch_follows_snapshot:
  assumes "watch_ok w" and "Sync add entries w = (x, w')"
  shows "watch_ok w' \<and> wt_root w' = wt_root w \<and> wt_closed w' = wt_closed w
    \<and> (case x of
         Inr rs \<Rightarrow> set (wt_tracked w') = insert (wt_root w)
             {p \<in> ent_PID ` set entries. p \<in> set (wt_tracked w) \<or> add p = KevOK} \<and> set rs \<subseteq> set entries
           \<and> map ent_PID rs = filter (\<lambda>p. p \<noteq> wt_root w \<and> p \<in> set (wt_tracked w')) (wanted_pids (wt_root w) entries)
           \<and> (\<forall>p \<in> ent_PID ` set entries - {wt_root w}. p \<in> set (wt_tracked w') \<or> p \<notin> set (wt_tracked w) \<and> add p = KevNoProcess)
       | Inl e \<Rightarrow> (if wt_closed w then e = WatchClosed
           else \<exists>p \<in> ent_PID ` set entries. e = DescendantNotObserved p (add p) \<and> add p \<noteq> KevOK \<and> add p \<noteq> KevNoProcess))
    \<and> (case watch_close os w' of (_, w2) \<Rightarrow> watch_ok w2 \<and> wt_closed w2 \<and> Sync add entries w2 = (Inl WatchClosed, w2))"
proof -
  have closing: "case watch_close os v of (_, w2) \<Rightarrow> watch_ok w2 \<and> wt_closed w2 \<and> Sync add entries w2 = (Inl WatchClosed, w2)"
    if "watch_ok v" for v
    using that by (auto simp: watch_close_def watch_ok_def Sync_def)
  show ?thesis
  proof (cases x)
    case (Inr rs)
    have "\<not> wt_closed w" using assms(2) Inr by (auto simp: Sync_def split: if_splits)
    note res = Sync_result [OF assms(2) [unfolded Inr]]
    have root: "wt_root w \<in> set (wt_tracked w)" using assms(1) \<open>\<not> wt_closed w\<close> by (simp add: watch_ok_def)
    have "set (wt_tracked w') = insert (wt_root w) {p \<in> ent_PID ` set entries. p \<in> set (wt_tracked w) \<or> add p = KevOK}"
    proof (rule set_eqI, cases)
      fix p assume "p = wt_root w"
      then show "p \<in> set (wt_tracked w') \<longleftrightarrow> p \<in> insert (wt_root w) {p \<in> ent_PID ` set entries. p \<in> set (wt_tracked w) \<or> add p = KevOK}"
        using res root by simp
    next
      fix p assume p: "p \<noteq> wt_root w"
      then show "p \<in> set (wt_tracked w') \<longleftrightarrow> p \<in> insert (wt_root w) {p \<in> ent_PID ` set entries. p \<in> set (wt_tracked w) \<or> add p = KevOK}"
        using res by (cases "p \<in> ent_PID ` set entries") auto
    qed
    with res root \<open>\<not> wt_closed w\<close> closing [of w'] Inr show ?thesis
      by (auto simp: watch_ok_def)
  next
    case (Inl e)
    show ?thesis
    proof (cases "wt_closed w")
      case True
      with assms Inl closing [of w'] show ?thesis by (auto simp: Sync_def)
    next
      case False
      then have sp: "sync_pids add (wanted_pids (wt_root w) entries) ({wt_root w}, w) = (Inl e, w')"
        using assms(2) Inl by (auto simp: Sync_def Let_def split: prod.splits sum.splits)
      have "e \<noteq> DescendantNotObserved (wt_root w) k" for k
        using sync_pids_not_root [OF sp] by auto
      with sync_pids_spec [OF sp] assms(1) False Inl closing [of w'] show ?thesis
        by (auto simp: watch_ok_def)
    qed
  qed
qed

definition sample_watch :: watch where
  "sample_watch = \<lparr>wt_root = 10, wt_queue = 3, wt_tracked = [10, 11, 12], wt_closed = False\<rparr>"

definition sample_entry :: "u32 \<Rightarrow> processTreeEntry" where
  "sample_entry pid = \<lparr>ent_PID = pid, ent_ParentPID = 10, ent_GroupID = pid, ent_Command = ''c'', ent_CWD = ''/''\<rparr>"

lemma watch_follows_snapshot_witness:
  "Sync (\<lambda>p. if p = 14 then KevNoProcess else KevOK) (map sample_entry [14, 13, 12]) sample_watch
     = (Inr [sample_entry 12, sample_entry 13], \<lparr>wt_root = 10, wt_queue = 3, wt_tracked = [13, 10, 12], wt_closed = False\<rparr>)
   \<and> watch_ok \<lparr>wt_root = 10, wt_queue = 3, wt_tracked = [13, 10, 12], wt_closed = False\<rparr>"
proof -
  have 1: "watch_ok sample_watch" by (simp add: watch_ok_def sample_watch_def)
  have 2: "Sync (\<lambda>p. if p = 14 then KevNoProcess else KevOK) (map sample_entry [14, 13, 12]) sample_watch
     = (Inr [sample_entry 12, sample_entry 13], \<lparr>wt_root = 10, wt_queue = 3, wt_tracked = [13, 10, 12], wt_closed = False\<rparr>)"
    by code_simp
  from watch_follows_snapshot [OF 1 2] 2 show ?thesis by blast
qed

end
