(* ===== verification/Registry.thy ===== *)
theory Registry
  imports SessionRuns Environment Frames
begin

section \<open>The registry of sessions (session.go)\<close>

text \<open>
  Every session the daemon holds, by id. The record is the Go struct; a Go map is an association
  list in the order of one iteration. A session is a value of the map and not a pointer: what
  leaves the map is kept in \<open>h_gone\<close> as it was reaped, so that a property can speak of it. The host
  record has what the registry's operations change beside it: the observers, the store, and the
  calls made to the process ledger (\<open>processStarted\<close> and \<open>processEnded\<close>, oldest first). The shells
  ended before they got a session are in \<open>h_killed\<close>. Starting a process is the operating system's:
  \<open>start\<close> answers the number of the process or the reason there is none. Names for staged files
  come from the operating system too and are arguments, one for each write (\<open>tmp\<close>, \<open>tmps\<close>).
\<close>

datatype outcome_kind = SessionFull | SessionDegraded | SessionFailed | SessionLost

datatype restore_reason = NoReason | StoreReason store_error | StartReason string | ShuttingDown

record restoreOutcome =
  oc_Session :: string
  oc_Outcome :: outcome_kind
  oc_Reason :: restore_reason

record registry =
  reg_next :: u64
  reg_generation :: u64
  reg_sessions :: "(u64 \<times> session) list"
  reg_shell :: string
  reg_stopped :: bool
  reg_bound :: bool
  reg_abandonAfter :: int
  reg_store :: bool
  reg_outcomes :: "(u64 \<times> restoreOutcome) list"
  reg_readStore :: bool

datatype ledger = LedgerStarted u64 | LedgerEnded u64 int

record host =
  h_reg :: registry
  h_obs :: obs_heap
  h_store :: store
  h_ledger :: "ledger list"
  h_gone :: "session list"
  h_killed :: "u32 list"

type_synonym start = "string \<Rightarrow> string \<Rightarrow> string list \<Rightarrow> u16 \<Rightarrow> u16 \<Rightarrow> string + u32"

abbreviation upd_reg :: "(registry \<Rightarrow> registry) \<Rightarrow> host \<Rightarrow> host" where
  "upd_reg f h \<equiv> h\<lparr>h_reg := f (h_reg h)\<rparr>"

subsection \<open>Making one\<close>

definition seedCeiling :: u64 where
  "seedCeiling = push_bit 48 1"

text \<open>The random bytes, or the clock where there is no randomness.\<close>

definition randomInstanceSeed :: "byte list option \<Rightarrow> int \<Rightarrow> u64" where
  "randomInstanceSeed random nano = (case random of
     None \<Rightarrow> of_int nano mod seedCeiling
   | Some bytes \<Rightarrow> of_nat (be_decode bytes) mod seedCeiling)"

definition defaultAbandonAfter :: int where
  "defaultAbandonAfter = 30 * 60 * 1000000000"

definition newRegistry :: "u64 \<Rightarrow> u64 \<Rightarrow> string \<Rightarrow> registry" where
  "newRegistry seed1 seed2 shell = \<lparr>reg_next = seed2, reg_generation = seed1, reg_sessions = [], reg_shell = shell,
     reg_stopped = False, reg_bound = False, reg_abandonAfter = defaultAbandonAfter, reg_store = False,
     reg_outcomes = [], reg_readStore = False\<rparr>"

definition attachStore :: "host \<Rightarrow> host" where
  "attachStore = upd_reg (\<lambda>r. r\<lparr>reg_store := True\<rparr>)"

definition sessionStore :: "registry \<Rightarrow> bool" where
  "sessionStore r = reg_store r"

definition bindProcessLifecycle :: "host \<Rightarrow> session list \<times> host" where
  "bindProcessLifecycle h = (map snd (reg_sessions (h_reg h)), upd_reg (\<lambda>r. r\<lparr>reg_bound := True\<rparr>) h)"

definition tell_ledger :: "ledger \<Rightarrow> host \<Rightarrow> host" where
  "tell_ledger x h = (if reg_bound (h_reg h) then h\<lparr>h_ledger := h_ledger h @ [x]\<rparr> else h)"

subsection \<open>Issuing an id\<close>

text \<open>A loop without a bound: not to return is \<open>None\<close>.\<close>

partial_function (option) issue_from :: "u64 \<Rightarrow> u64 list \<Rightarrow> u64 option" where
  "issue_from n taken = (if n + 1 \<in> set taken then issue_from (n + 1) taken else Some (n + 1))"

definition issueLocked :: "registry \<Rightarrow> (u64 \<times> registry) option" where
  "issueLocked r = map_option (\<lambda>n. (n, r\<lparr>reg_next := n\<rparr>)) (issue_from (reg_next r) (map fst (reg_sessions r)))"

subsection \<open>Opening\<close>

record Open =
  op_PaneID :: string
  op_WindowLabel :: string
  op_CWD :: string
  op_Shell :: string
  op_Environment :: environment
  op_EnvironmentDrop :: "string list"
  op_Cols :: u16
  op_Rows :: u16
  op_ObserverToken :: string

record PrepareObserver =
  po_PaneID :: string
  po_WindowLabel :: string
  po_Provider :: string
  po_Displays :: bool

record preparedObserver =
  pre_request :: PrepareObserver
  pre_observer :: nat
  pre_ready :: bool

datatype open_error = NeedsSize u16 u16 | NoShell | StartFailed string | DaemonStopping

definition fresh_session :: "contract \<Rightarrow> time \<Rightarrow> u64 \<Rightarrow> u64 \<Rightarrow> u32 \<Rightarrow> string \<Rightarrow> string \<Rightarrow> string \<Rightarrow> string
    \<Rightarrow> u16 \<Rightarrow> u16 \<Rightarrow> string list \<Rightarrow> session" where
  "fresh_session c now n generation pid pane window cwd command cols rows environment =
     \<lparr>ses_id = n, ses_paneID = pane, ses_windowLabel = window, ses_cwd = cwd, ses_command = command,
      ses_startedAt = now, ses_generation = generation, ses_process = [], ses_pid = pid,
      ses_ring = newRing c (int (HighWatermark c)), ses_observers = [], ses_observerTokens = [],
      ses_displaying = [], ses_written = 0, ses_closed = False, ses_paused = False,
      ses_rendererGeneration = 0, ses_rendererAttached = False, ses_detachedAt = None, ses_writtenAt = None,
      ses_resume = False, ses_eventSequence = 0, ses_cols = cols, ses_rows = rows,
      ses_environment = environment, ses_store = False, ses_feed = None\<rparr>"

definition take_prepared :: "string \<Rightarrow> preparedObserver option \<Rightarrow> session \<Rightarrow> session" where
  "take_prepared token prepared s = (case prepared of
     None \<Rightarrow> s
   | Some p \<Rightarrow> s\<lparr>ses_observers := [pre_observer p], ses_observerTokens := [(token, pre_observer p)],
       ses_displaying := (if po_Displays (pre_request p) then [pre_observer p] else [])\<rparr>)"

definition put_session :: "session \<Rightarrow> host \<Rightarrow> host" where
  "put_session s = upd_reg (\<lambda>r. r\<lparr>reg_sessions := AList.update (ses_id s) s (reg_sessions r)\<rparr>)"

text \<open>The creation write, and the feed when it succeeded.\<close>

definition create_record :: "string \<Rightarrow> session \<Rightarrow> host \<Rightarrow> session \<times> host" where
  "create_record tmp s h =
     (if ses_store s then
        (case store_create tmp (creationFacts s) (h_store h) of
           (Inl _, d) \<Rightarrow> (s\<lparr>ses_store := False\<rparr>, h\<lparr>h_store := d\<rparr>)
         | (Inr _, d) \<Rightarrow> (s\<lparr>ses_feed := Some (newStoreFeed (ses_id s))\<rparr>, h\<lparr>h_store := d\<rparr>))
      else (s, h))"

definition publish_opened :: "preparedObserver option \<Rightarrow> session \<Rightarrow> host \<Rightarrow> host" where
  "publish_opened prepared s h = (case prepared of
     None \<Rightarrow> h
   | Some p \<Rightarrow> h\<lparr>h_obs := obs_update (pre_observer p) (\<lambda>v. publishOpened v
       \<lparr>opn_Session = ses_id s, opn_Generation = ses_generation s, opn_EventSequence = 0, opn_OutputSequence = 0\<rparr>) (h_obs h)\<rparr>)"

text \<open>
  The platform's part of opening: whether it is Windows, upper case, the daemon's own environment
  and the start of a process.
\<close>

record platform =
  pf_windows :: bool
  pf_upper :: "string \<Rightarrow> string"
  pf_environ :: "string list"
  pf_start :: start

definition openWithObserver :: "contract \<Rightarrow> platform \<Rightarrow> time \<Rightarrow> string \<Rightarrow> Open \<Rightarrow> preparedObserver option \<Rightarrow> host
    \<Rightarrow> ((open_error + u64) \<times> host) option" where
  "openWithObserver c pf now tmp request prepared h =
     (if op_Cols request = 0 \<or> op_Rows request = 0
      then Some (Inl (NeedsSize (op_Cols request) (op_Rows request)), h)
      else (let shell = (if op_Shell request = [] then reg_shell (h_reg h) else op_Shell request)
        in if shell = [] then Some (Inl NoShell, h)
           else (let environment = sessionEnvironment (pf_upper pf) (pf_windows pf) (pf_environ pf)
                       (op_Environment request) (op_EnvironmentDrop request)
             in case pf_start pf shell (op_CWD request) environment (op_Cols request) (op_Rows request) of
               Inl e \<Rightarrow> Some (Inl (StartFailed e), h)
             | Inr pid \<Rightarrow>
                 if reg_stopped (h_reg h) then Some (Inl DaemonStopping, h\<lparr>h_killed := h_killed h @ [pid]\<rparr>)
                 else (let h = upd_reg (\<lambda>r. r\<lparr>reg_generation := reg_generation r + 1\<rparr>) h
                   in case issueLocked (h_reg h) of
                        None \<Rightarrow> None
                      | Some (n, r) \<Rightarrow>
                          (let s = take_prepared (op_ObserverToken request) prepared
                                 (fresh_session c now n (reg_generation r) pid (op_PaneID request) (op_WindowLabel request)
                                    (op_CWD request) (shell @ '' -l'') (op_Cols request) (op_Rows request) environment);
                               s = s\<lparr>ses_store := reg_store r\<rparr>;
                               (s, h) = create_record tmp s (h\<lparr>h_reg := r\<rparr>);
                               h = tell_ledger (LedgerStarted n) (put_session s h)
                           in Some (Inr n, publish_opened prepared s h))))))"

subsection \<open>Finding and listing\<close>

definition reg_get :: "u64 \<Rightarrow> registry \<Rightarrow> session option" where
  "reg_get n r = map_of (reg_sessions r) n"

definition byPane :: "string \<Rightarrow> registry \<Rightarrow> session option" where
  "byPane pane r = List.find (\<lambda>s. ses_paneID s = pane) (map snd (reg_sessions r))"

record Info =
  inf_Session :: u64
  inf_PaneID :: string
  inf_ShellPID :: u32
  inf_Generation :: u64
  inf_WindowLabel :: "string option"
  inf_Written :: u64
  inf_Acked :: u64
  inf_Paused :: bool
  inf_Retained :: nat
  inf_Cols :: u16
  inf_Rows :: u16
  inf_EventSequence :: u64

definition session_info :: "session \<Rightarrow> Info" where
  "session_info s = (case ring_state (ses_ring s) of (acked, retained) \<Rightarrow>
     \<lparr>inf_Session = ses_id s, inf_PaneID = ses_paneID s, inf_ShellPID = ses_pid s, inf_Generation = ses_generation s,
      inf_WindowLabel = (if ses_windowLabel s \<noteq> [] then Some (ses_windowLabel s) else None),
      inf_Written = ses_written s, inf_Acked = acked, inf_Paused = ses_paused s, inf_Retained = retained,
      inf_Cols = ses_cols s, inf_Rows = ses_rows s, inf_EventSequence = ses_eventSequence s\<rparr>)"

definition reg_list :: "registry \<Rightarrow> Info list" where
  "reg_list r = map (session_info \<circ> snd) (reg_sessions r)"

record observer_count =
  cnt_session :: u64
  cnt_paneId :: string
  cnt_observers :: nat
  cnt_displaying :: nat
  cnt_tokens :: nat
  cnt_closed :: bool

definition observerCounts :: "registry \<Rightarrow> observer_count list" where
  "observerCounts r = map (\<lambda>(_, s). \<lparr>cnt_session = ses_id s, cnt_paneId = ses_paneID s,
     cnt_observers = length (ses_observers s), cnt_displaying = length (ses_displaying s),
     cnt_tokens = length (ses_observerTokens s), cnt_closed = ses_closed s\<rparr>) (reg_sessions r)"

subsection \<open>Ending\<close>

text \<open>A reap of a session, with what it tells the ledger.\<close>

definition reap_host :: "time \<Rightarrow> string list \<Rightarrow> bool \<Rightarrow> session \<Rightarrow> host \<Rightarrow> session \<times> host" where
  "reap_host now tmps ended s h = (case reap now tmps ended (s, h_obs h, h_store h) of
     (told, s, obs, d) \<Rightarrow>
       (let h = h\<lparr>h_obs := obs, h_store := d\<rparr>
        in (s, case told of None \<Rightarrow> h | Some (n, at) \<Rightarrow> tell_ledger (LedgerEnded n at) h)))"

definition reap_gone :: "time \<Rightarrow> (u64 \<Rightarrow> string list) \<Rightarrow> bool \<Rightarrow> session \<Rightarrow> host \<Rightarrow> host" where
  "reap_gone now tmps ended s h = (case reap_host now (tmps (ses_id s)) ended s h of
     (s, h) \<Rightarrow> h\<lparr>h_gone := h_gone h @ [s]\<rparr>)"

text \<open>The shell exited: the pump ends the ring and reaps the session, which stays in the registry.\<close>

definition shell_exits :: "time \<Rightarrow> string list \<Rightarrow> u64 \<Rightarrow> host \<Rightarrow> host" where
  "shell_exits now tmps n h = (case reg_get n (h_reg h) of
     None \<Rightarrow> h
   | Some s \<Rightarrow> (case reap_host now tmps True (s\<lparr>ses_ring := fst (ring_end (ses_ring s))\<rparr>) h of
       (s, h) \<Rightarrow> put_session s h))"

definition endAbandoned :: "time \<Rightarrow> (u64 \<Rightarrow> string list) \<Rightarrow> host \<Rightarrow> nat \<times> host" where
  "endAbandoned now tmps h =
     (if reg_abandonAfter (h_reg h) \<le> 0 then (0, h)
      else (let deadline = now - reg_abandonAfter (h_reg h);
                abandoned = filter (\<lambda>(_, s). abandonedSince deadline s) (reg_sessions (h_reg h));
                h = upd_reg (\<lambda>r. r\<lparr>reg_sessions := filter (\<lambda>(_, s). \<not> abandonedSince deadline s) (reg_sessions r)\<rparr>) h
            in (length abandoned, fold (reap_gone now tmps True \<circ> snd) abandoned h)))"

definition forgetOutcome :: "u64 \<Rightarrow> host \<Rightarrow> host" where
  "forgetOutcome n = upd_reg (\<lambda>r. r\<lparr>reg_outcomes := AList.delete n (reg_outcomes r)\<rparr>)"

datatype reg_error = NoSession u64

definition reg_close :: "time \<Rightarrow> (u64 \<Rightarrow> string list) \<Rightarrow> u64 \<Rightarrow> host \<Rightarrow> (reg_error + unit) \<times> host" where
  "reg_close now tmps n h =
     (let found = reg_get n (h_reg h);
          h = upd_reg (\<lambda>r. r\<lparr>reg_sessions := AList.delete n (reg_sessions r)\<rparr>) h;
          h = (if reg_store (h_reg h) then h\<lparr>h_store := snd (store_remove n (h_store h))\<rparr> else h);
          h = forgetOutcome n h
      in case found of
           None \<Rightarrow> (Inl (NoSession n), h)
         | Some s \<Rightarrow> (Inr (), reap_gone now tmps True s h))"

text \<open>The stop of one session: its mark and its reap.\<close>

definition stop_session :: "time \<Rightarrow> (u64 \<Rightarrow> string) \<Rightarrow> (u64 \<Rightarrow> string list) \<Rightarrow> session \<Rightarrow> host \<Rightarrow> host" where
  "stop_session now tmp tmps s h =
     reap_gone now tmps False s
       (if reg_store (h_reg h)
        then h\<lparr>h_store := snd (markEnded (tmp (ses_id s)) (ses_id s) (UnixMilli now) None (ses_written s) (h_store h))\<rparr>
        else h)"

definition shutdown :: "time \<Rightarrow> (u64 \<Rightarrow> string) \<Rightarrow> (u64 \<Rightarrow> string list) \<Rightarrow> host \<Rightarrow> nat \<times> host" where
  "shutdown now tmp tmps h =
     (let values = map snd (reg_sessions (h_reg h));
          h = upd_reg (\<lambda>r. r\<lparr>reg_stopped := True, reg_sessions := []\<rparr>) h
      in (length values, fold (stop_session now tmp tmps) values h))"

subsection \<open>An id is always found\<close>

lemma issue_from_after:
  assumes "\<forall>j < k. n + 1 + of_nat j \<in> set taken" and "n + 1 + of_nat k \<notin> set taken"
  shows "issue_from n taken = Some (n + 1 + of_nat k)"
  using assms
proof (induction k arbitrary: n)
  case 0
  then show ?case by (subst issue_from.simps) simp
next
  case (Suc k)
  have "n + 1 \<in> set taken" using Suc.prems(1) by (auto dest: spec [of _ 0])
  moreover have "\<forall>j < k. (n + 1) + 1 + of_nat j \<in> set taken"
    using Suc.prems(1) by (auto simp: algebra_simps dest: spec [of _ "Suc _"])
  moreover have "(n + 1) + 1 + of_nat k \<notin> set taken" using Suc.prems(2) by (simp add: algebra_simps)
  ultimately show ?case using Suc.IH [of "n + 1"] by (subst issue_from.simps) (simp add: algebra_simps)
qed

lemma u64_card: "CARD(u64) = 2 ^ 64"
  by (simp add: card_word)

lemma free_id:
  assumes "card (set taken) < 2 ^ 64"
  shows "\<exists>k. n + 1 + of_nat k \<notin> set (taken :: u64 list)"
proof (rule ccontr)
  assume "\<not> ?thesis"
  then have all: "n + 1 + of_nat k \<in> set taken" for k by blast
  have "m \<in> set taken" for m
    using all [of "unat (m - n - 1)"] by simp
  then have "set taken = UNIV" by blast
  with assms show False by (simp add: u64_card)
qed

lemma issue_from_free:
  assumes "card (set taken) < 2 ^ 64"
  shows "\<exists>k. issue_from n taken = Some (n + 1 + of_nat k) \<and> n + 1 + of_nat k \<notin> set taken
    \<and> (\<forall>j < k. n + 1 + of_nat j \<in> set taken)"
proof -
  define k where "k = (LEAST k. n + 1 + of_nat k \<notin> set taken)"
  have k: "n + 1 + of_nat k \<notin> set taken" unfolding k_def using free_id [OF assms] by (rule LeastI_ex)
  have below: "\<forall>j < k. n + 1 + of_nat j \<in> set taken" unfolding k_def using not_less_Least by blast
  from issue_from_after [OF below k] k below show ?thesis by blast
qed

lemma issue_from_notin: "issue_from n taken = Some m \<Longrightarrow> m \<notin> set taken"
  by (erule issue_from.raw_induct [rotated]) (auto split: if_splits)

subsection \<open>What opening does\<close>

text \<open>The processes an open asks the platform to start.\<close>

definition open_environment :: "platform \<Rightarrow> Open \<Rightarrow> string list" where
  "open_environment pf request = sessionEnvironment (pf_upper pf) (pf_windows pf) (pf_environ pf)
     (op_Environment request) (op_EnvironmentDrop request)"

definition open_shell :: "Open \<Rightarrow> registry \<Rightarrow> string" where
  "open_shell request r = (if op_Shell request = [] then reg_shell r else op_Shell request)"

definition starts :: "platform \<Rightarrow> Open \<Rightarrow> registry \<Rightarrow> u32 list" where
  "starts pf request r =
     (if op_Cols request = 0 \<or> op_Rows request = 0 \<or> open_shell request r = [] then []
      else case pf_start pf (open_shell request r) (op_CWD request) (open_environment pf request)
                (op_Cols request) (op_Rows request) of
             Inl _ \<Rightarrow> [] | Inr pid \<Rightarrow> [pid])"

lemma create_record_frame:
  assumes "create_record tmp s h = (s', h')"
  shows "\<exists>st fd d. s' = s\<lparr>ses_store := st, ses_feed := fd\<rparr> \<and> h' = h\<lparr>h_store := d\<rparr>
    \<and> (st \<longrightarrow> ses_store s) \<and> (st \<longrightarrow> fd = Some (newStoreFeed (ses_id s)) \<and> store_create tmp (creationFacts s) (h_store h) = (Inr (), d))"
proof (cases "ses_store s")
  case True
  obtain x d where c: "store_create tmp (creationFacts s) (h_store h) = (x, d)" by fastforce
  show ?thesis
  proof (cases x)
    case (Inl e)
    with assms True c show ?thesis
      by (intro exI [of _ False] exI [of _ "ses_feed s"] exI [of _ d]) (auto simp: create_record_def)
  next
    case (Inr u)
    with assms True c show ?thesis
      by (intro exI [of _ True] exI [of _ "Some (newStoreFeed (ses_id s))"] exI [of _ d]) (auto simp: create_record_def)
  qed
next
  case False
  with assms show ?thesis
    by (intro exI [of _ False] exI [of _ "ses_feed s"] exI [of _ "h_store h"]) (auto simp: create_record_def)
qed

text \<open>The session an open makes, before its store and feed are settled.\<close>

definition open_session :: "contract \<Rightarrow> platform \<Rightarrow> time \<Rightarrow> Open \<Rightarrow> preparedObserver option \<Rightarrow> registry \<Rightarrow> u64 \<Rightarrow> u32 \<Rightarrow> session" where
  "open_session c pf now request prepared r n pid =
     take_prepared (op_ObserverToken request) prepared
       (fresh_session c now n (reg_generation r + 1) pid (op_PaneID request) (op_WindowLabel request)
         (op_CWD request) (open_shell request r @ '' -l'') (op_Cols request) (op_Rows request) (open_environment pf request))"

lemma open_session_fields [simp]:
  "ses_id (open_session c pf now request prepared r n pid) = n"
  "ses_pid (open_session c pf now request prepared r n pid) = pid"
  "ses_closed (open_session c pf now request prepared r n pid) = False"
  "ses_paneID (open_session c pf now request prepared r n pid) = op_PaneID request"
  by (simp_all add: open_session_def take_prepared_def fresh_session_def split: option.splits)

lemma openWithObserver_cases:
  assumes "openWithObserver c pf now tmp request prepared h = Some (x, h')"
  obtains (refused) e where "x = Inl e" "h' = h" "starts pf request (h_reg h) = []"
  | (stopping) pid where "x = Inl DaemonStopping" "reg_stopped (h_reg h)" "starts pf request (h_reg h) = [pid]"
      "h' = h\<lparr>h_killed := h_killed h @ [pid]\<rparr>"
  | (opened) n pid st fd d obs led where "x = Inr n" "\<not> reg_stopped (h_reg h)" "starts pf request (h_reg h) = [pid]"
      "map_of (reg_sessions (h_reg h)) n = None"
      "st \<longrightarrow> reg_store (h_reg h) \<and> fd = Some (newStoreFeed n)
         \<and> store_create tmp (creationFacts (open_session c pf now request prepared (h_reg h) n pid)) (h_store h) = (Inr (), d)"
      "h' = h\<lparr>h_reg := (h_reg h)\<lparr>reg_generation := reg_generation (h_reg h) + 1, reg_next := n,
                reg_sessions := AList.update n ((open_session c pf now request prepared (h_reg h) n pid)\<lparr>ses_store := st, ses_feed := fd\<rparr>)
                  (reg_sessions (h_reg h))\<rparr>,
              h_obs := obs, h_store := d, h_ledger := led\<rparr>"
proof (cases "op_Cols request = 0 \<or> op_Rows request = 0 \<or> open_shell request (h_reg h) = []")
  case True
  with assms refused show ?thesis
    by (auto simp: openWithObserver_def starts_def open_shell_def Let_def split: if_splits)
next
  case False
  show ?thesis
  proof (cases "pf_start pf (open_shell request (h_reg h)) (op_CWD request) (open_environment pf request)
                (op_Cols request) (op_Rows request)")
    case (Inl e)
    with False assms refused show ?thesis
      by (auto simp: openWithObserver_def starts_def open_shell_def open_environment_def Let_def split: if_splits)
  next
    case (Inr pid)
    then have pid: "starts pf request (h_reg h) = [pid]" using False by (simp add: starts_def)
    show ?thesis
    proof (cases "reg_stopped (h_reg h)")
      case True
      with Inr False assms stopping [OF _ True pid] show ?thesis
        by (auto simp: openWithObserver_def open_shell_def open_environment_def Let_def split: if_splits)
    next
      case running: False
      define h1 where "h1 = upd_reg (\<lambda>r. r\<lparr>reg_generation := reg_generation r + 1\<rparr>) h"
      obtain n where n: "issue_from (reg_next (h_reg h)) (map fst (reg_sessions (h_reg h))) = Some n"
        using assms False Inr running
        by (auto simp: openWithObserver_def open_shell_def open_environment_def issueLocked_def Let_def split: if_splits option.splits)
      define r1 where "r1 = (h_reg h1)\<lparr>reg_next := n\<rparr>"
      define s0 where "s0 = (open_session c pf now request prepared (h_reg h) n pid)\<lparr>ses_store := reg_store r1\<rparr>"
      obtain s h2 where cr: "create_record tmp s0 (h1\<lparr>h_reg := r1\<rparr>) = (s, h2)" by fastforce
      have eq: "x = Inr n \<and> h' = publish_opened prepared s (tell_ledger (LedgerStarted n) (put_session s h2))"
        using assms False Inr running n cr
        by (auto simp: openWithObserver_def open_shell_def open_environment_def issueLocked_def Let_def open_session_def
            s0_def r1_def h1_def split: if_splits)
      obtain st fd d where f: "s = s0\<lparr>ses_store := st, ses_feed := fd\<rparr>" "h2 = (h1\<lparr>h_reg := r1\<rparr>)\<lparr>h_store := d\<rparr>"
          "st \<longrightarrow> ses_store s0" "st \<longrightarrow> fd = Some (newStoreFeed (ses_id s0)) \<and> store_create tmp (creationFacts s0) (h_store h1) = (Inr (), d)"
        using create_record_frame [OF cr] by auto
      have facts: "creationFacts s0 = creationFacts (open_session c pf now request prepared (h_reg h) n pid)"
        by (simp add: s0_def creationFacts_def)
      have "map_of (reg_sessions (h_reg h)) n = None"
        using issue_from_notin [OF n] by (simp add: map_of_eq_None_iff)
      moreover have "st \<longrightarrow> reg_store (h_reg h) \<and> fd = Some (newStoreFeed n)
         \<and> store_create tmp (creationFacts (open_session c pf now request prepared (h_reg h) n pid)) (h_store h) = (Inr (), d)"
        using f(3,4) facts by (auto simp: s0_def r1_def h1_def)
      ultimately show ?thesis
        using opened [where n = n and pid = pid and st = st and fd = fd and d = d and obs = "h_obs h'" and led = "h_ledger h'"] eq running pid f(1,2)
        by (simp add: put_session_def tell_ledger_def publish_opened_def s0_def r1_def h1_def split: option.splits)
    qed
  qed
qed

subsection \<open>Runs of the registry\<close>

definition on_session :: "contract \<Rightarrow> time \<Rightarrow> u64 \<Rightarrow> session_op \<Rightarrow> host \<Rightarrow> host" where
  "on_session c now n op h = (case reg_get n (h_reg h) of
     None \<Rightarrow> h
   | Some s \<Rightarrow>
       (let w = session_step c now \<lparr>sw_ses = s, sw_heap = h_obs h, sw_store = h_store h, sw_out = [], sw_taken = (\<lambda>_. [])\<rparr> op
        in put_session (sw_ses w) (h\<lparr>h_obs := sw_heap w, h_store := sw_store w\<rparr>)))"

text \<open>
  One step of the daemon on its registry, with the numbers of all shells ever started. Opening is a
  step only when it returns; what a connection does to one session is any operation of theory
  SessionRuns but the reap, which has steps of its own.
\<close>

inductive reg_step :: "contract \<Rightarrow> host \<times> u32 list \<Rightarrow> host \<times> u32 list \<Rightarrow> bool" for c where
  opens: "openWithObserver c pf now tmp request prepared h = Some (x, h') \<Longrightarrow>
    reg_step c (h, ps) (h', ps @ starts pf request (h_reg h))"
| closes: "reg_close now tmps n h = (x, h') \<Longrightarrow> reg_step c (h, ps) (h', ps)"
| sweeps: "endAbandoned now tmps h = (k, h') \<Longrightarrow> reg_step c (h, ps) (h', ps)"
| exits: "reg_step c (h, ps) (shell_exits now tmps n h, ps)"
| uses: "\<forall>tmps ended. op \<noteq> SReap tmps ended \<Longrightarrow> reg_step c (h, ps) (on_session c now n op h, ps)"
| binds: "reg_step c (h, ps) (snd (bindProcessLifecycle h), ps)"
| stores: "reg_step c (h, ps) (attachStore h, ps)"
| stops: "shutdown now tmp tmps h = (k, h') \<Longrightarrow> reg_step c (h, ps) (h', ps)"

definition new_host :: "registry \<Rightarrow> store \<Rightarrow> host" where
  "new_host r d = \<lparr>h_reg = r, h_obs = \<lparr>oh_obs = (\<lambda>_. newObserver 0), oh_next = 0\<rparr>, h_store = d, h_ledger = [],
     h_gone = [], h_killed = []\<rparr>"

text \<open>A shell that was told to end, whose terminal was closed and that was waited for.\<close>

definition shell_ended :: "session \<Rightarrow> bool" where
  "shell_ended s \<longleftrightarrow> ses_closed s \<and> {ProcTerminate, ProcClose, ProcWait} \<subseteq> set (ses_process s)"

definition host_pids :: "host \<Rightarrow> u32 list" where
  "host_pids h = map (ses_pid \<circ> snd) (reg_sessions (h_reg h)) @ map ses_pid (h_gone h) @ h_killed h"

definition host_ok :: "host \<Rightarrow> bool" where
  "host_ok h \<longleftrightarrow> distinct (map fst (reg_sessions (h_reg h)))
     \<and> (\<forall>(n, s) \<in> set (reg_sessions (h_reg h)). ses_id s = n \<and> (ses_closed s \<longrightarrow> shell_ended s))
     \<and> (\<forall>s \<in> set (h_gone h). shell_ended s)
     \<and> (reg_stopped (h_reg h) \<longrightarrow> reg_sessions (h_reg h) = [])"

lemma reap_frame:
  assumes "reap now tmps ended (s, h, d) = (told, s', h', d')" and "ses_closed s \<longrightarrow> shell_ended s"
  shows "ses_id s' = ses_id s \<and> ses_pid s' = ses_pid s \<and> shell_ended s' \<and> ses_paneID s' = ses_paneID s"
proof (cases "ses_closed s")
  case True
  with assms show ?thesis by (auto simp: reap_def)
next
  case False
  with assms(1) show ?thesis
    by (auto simp: reap_def Let_def signal_resume_def end_process_def shell_ended_def split: prod.splits dest!: close_feed_frame)
qed

lemma reap_host_frame:
  assumes "reap_host now tmps ended s h = (s', h')" and "ses_closed s \<longrightarrow> shell_ended s"
  shows "ses_id s' = ses_id s \<and> ses_pid s' = ses_pid s \<and> shell_ended s' \<and> ses_paneID s' = ses_paneID s
    \<and> h_reg h' = h_reg h \<and> h_gone h' = h_gone h \<and> h_killed h' = h_killed h"
proof -
  obtain told s1 obs d where r: "reap now tmps ended (s, h_obs h, h_store h) = (told, s1, obs, d)"
    by (metis prod.collapse)
  with assms(1) reap_frame [OF r assms(2)] show ?thesis
    by (auto simp: reap_host_def tell_ledger_def Let_def split: option.splits)
qed

lemma reap_gone_frame:
  assumes "ses_closed s \<longrightarrow> shell_ended s"
  shows "\<exists>s'. ses_id s' = ses_id s \<and> ses_pid s' = ses_pid s \<and> shell_ended s' \<and> h_reg (reap_gone now tmps ended s h) = h_reg h
    \<and> h_gone (reap_gone now tmps ended s h) = h_gone h @ [s'] \<and> h_killed (reap_gone now tmps ended s h) = h_killed h"
proof -
  obtain s' h' where r: "reap_host now (tmps (ses_id s)) ended s h = (s', h')" by fastforce
  with reap_host_frame [OF r assms] show ?thesis by (auto simp: reap_gone_def)
qed

lemma fold_gone_frame:
  assumes "\<And>s h. ses_closed s \<longrightarrow> shell_ended s \<Longrightarrow> \<exists>s'. ses_pid s' = ses_pid s \<and> shell_ended s' \<and> h_reg (f s h) = h_reg h
      \<and> h_gone (f s h) = h_gone h @ [s'] \<and> h_killed (f s h) = h_killed h"
    and "\<forall>s \<in> set ss. ses_closed s \<longrightarrow> shell_ended s"
  shows "\<exists>gone. map ses_pid gone = map ses_pid ss \<and> (\<forall>s \<in> set gone. shell_ended s) \<and> h_reg (fold f ss h) = h_reg h
    \<and> h_gone (fold f ss h) = h_gone h @ gone \<and> h_killed (fold f ss h) = h_killed h"
  using assms(2)
proof (induction ss arbitrary: h)
  case (Cons s ss)
  obtain s' where s': "ses_pid s' = ses_pid s" "shell_ended s'" "h_reg (f s h) = h_reg h"
      "h_gone (f s h) = h_gone h @ [s']" "h_killed (f s h) = h_killed h"
    using assms(1) [of s h] Cons.prems by auto
  obtain gone where "map ses_pid gone = map ses_pid ss" "\<forall>s \<in> set gone. shell_ended s"
      "h_reg (fold f ss (f s h)) = h_reg (f s h)" "h_gone (fold f ss (f s h)) = h_gone (f s h) @ gone"
      "h_killed (fold f ss (f s h)) = h_killed (f s h)"
    using Cons.IH [of "f s h"] Cons.prems by auto
  with s' show ?case by (intro exI [of _ "s' # gone"]) auto
qed simp

subsection \<open>Every step keeps the registry in order and every shell accounted for\<close>

lemma update_pids:
  "map_of xs n = Some s \<Longrightarrow> ses_pid s' = ses_pid s \<Longrightarrow> map (ses_pid \<circ> snd) (AList.update n s' xs) = map (ses_pid \<circ> snd) xs"
  by (induction xs) (auto split: if_splits)

lemma new_pids:
  "map_of xs n = None \<Longrightarrow> AList.update n s' xs = xs @ [(n, s')]"
  by (induction xs) (auto split: if_splits)

lemma delete_absent: "map_of xs n = None \<Longrightarrow> AList.delete n xs = xs"
  by (induction xs) (auto simp: AList.delete_eq split: if_splits)

lemma delete_pids:
  assumes "distinct (map fst xs)" and "map_of xs n = Some s"
  shows "mset (map (ses_pid \<circ> snd) xs) = add_mset (ses_pid s) (mset (map (ses_pid \<circ> snd) (AList.delete n xs)))"
  using assms
proof (induction xs)
  case (Cons x xs)
  show ?case
  proof (cases "fst x = n")
    case True
    with Cons.prems(1) have "map_of xs n = None" by (auto simp: map_of_eq_None_iff)
    with True Cons.prems(2) delete_absent [of xs n] show ?thesis
      by (cases x) (auto simp: AList.delete_eq)
  next
    case False
    with Cons show ?thesis by (cases x) (auto simp: AList.delete_eq)
  qed
qed simp

lemma set_update_subset: "set (AList.update n s' xs) \<subseteq> insert (n, s') (set xs)"
  by (induction xs) auto

lemma host_ok_put:
  assumes "host_ok h" and "reg_get n (h_reg h) = Some s" and "ses_id s' = n" and "ses_pid s' = ses_pid s"
    and "ses_closed s' \<longrightarrow> shell_ended s'" and "h_reg h' = h_reg h" and "h_gone h' = h_gone h" and "h_killed h' = h_killed h"
  shows "host_ok (put_session s' h') \<and> host_pids (put_session s' h') = host_pids h"
proof -
  have "map (ses_pid \<circ> snd) (AList.update n s' (reg_sessions (h_reg h))) = map (ses_pid \<circ> snd) (reg_sessions (h_reg h))"
    using assms(2,4) by (intro update_pids) (simp_all add: reg_get_def)
  moreover have "reg_sessions (h_reg h) \<noteq> []" using assms(2) by (auto simp: reg_get_def)
  ultimately show ?thesis
    using assms set_update_subset [of n s' "reg_sessions (h_reg h)"]
    by (auto simp: host_ok_def put_session_def host_pids_def distinct_update)
qed

lemma filter_one_key:
  "distinct (map fst xs) \<Longrightarrow> (n, s) \<in> set xs \<Longrightarrow> filter (\<lambda>x. \<not> fst x \<noteq> n) xs = [(n, s)]"
proof (induction xs)
  case (Cons x xs)
  show ?case
  proof (cases "x = (n, s)")
    case True
    with Cons.prems(1) have "filter (\<lambda>x. \<not> fst x \<noteq> n) xs = []" by (auto simp: filter_empty_conv intro: rev_image_eqI)
    with True show ?thesis by simp
  next
    case False
    with Cons show ?thesis by (auto intro: rev_image_eqI)
  qed
qed simp

lemma host_ok_gone:
  assumes "host_ok h" and "h_reg h' = r" and "h_gone h' = h_gone h @ gone" and "h_killed h' = h_killed h"
    and "reg_sessions r = filter P (reg_sessions (h_reg h))" and "reg_stopped (h_reg h) \<longrightarrow> reg_stopped r"
    and "reg_stopped r \<longrightarrow> reg_sessions r = []"
    and "\<forall>s \<in> set gone. shell_ended s"
    and "map ses_pid gone = map (ses_pid \<circ> snd) (filter (\<lambda>x. \<not> P x) (reg_sessions (h_reg h)))"
  shows "host_ok h' \<and> mset (host_pids h') = mset (host_pids h)"
proof -
  have split: "mset (map (ses_pid \<circ> snd) (filter P xs)) + mset (map (ses_pid \<circ> snd) (filter (\<lambda>x. \<not> P x) xs))
      = mset (map (ses_pid \<circ> snd) xs)" for xs
    by (induction xs) auto
  have "mset (host_pids h') = mset (map (ses_pid \<circ> snd) (filter P (reg_sessions (h_reg h))))
      + (mset (map ses_pid (h_gone h)) + mset (map ses_pid gone)) + mset (h_killed h)"
    unfolding host_pids_def assms(2-5) by (simp only: mset_append map_append add.assoc)
  also have "\<dots> = mset (host_pids h)"
    unfolding host_pids_def assms(9) split [of "reg_sessions (h_reg h)", symmetric] mset_append by (simp only: ac_simps)
  finally have pids: "mset (host_pids h') = mset (host_pids h)" .
  have "distinct (map fst (filter P (reg_sessions (h_reg h))))"
    using assms(1) by (simp add: host_ok_def distinct_map_filter)
  then have "host_ok h'"
    using assms(1,7,8) unfolding host_ok_def assms(2-5) by auto
  with pids show ?thesis by simp
qed

lemma closed_ended:
  "host_ok h \<Longrightarrow> (n, s) \<in> set (reg_sessions (h_reg h)) \<Longrightarrow> ses_closed s \<longrightarrow> shell_ended s"
  by (auto simp: host_ok_def)

lemma reg_close_ok:
  assumes "host_ok h" and "reg_close now tmps n h = (x, h')"
  shows "host_ok h' \<and> mset (host_pids h') = mset (host_pids h)"
proof -
  define h1 where "h1 = forgetOutcome n (let h = upd_reg (\<lambda>r. r\<lparr>reg_sessions := AList.delete n (reg_sessions r)\<rparr>) h
     in if reg_store (h_reg h) then h\<lparr>h_store := snd (store_remove n (h_store h))\<rparr> else h)"
  have h1: "reg_sessions (h_reg h1) = AList.delete n (reg_sessions (h_reg h))" "h_gone h1 = h_gone h"
      "h_killed h1 = h_killed h" "reg_stopped (h_reg h1) = reg_stopped (h_reg h)"
    by (simp_all add: h1_def forgetOutcome_def Let_def)
  have del: "AList.delete n xs = filter (\<lambda>x. fst x \<noteq> n) xs" for xs :: "(u64 \<times> session) list"
    by (induction xs) (auto simp: AList.delete_eq)
  have stopped: "reg_stopped (h_reg h1) \<longrightarrow> reg_sessions (h_reg h1) = []"
    using assms(1) h1 by (auto simp: host_ok_def AList.delete_eq)
  show ?thesis
  proof (cases "reg_get n (h_reg h)")
    case None
    then have "h' = h1" using assms(2) by (auto simp: reg_close_def h1_def Let_def)
    moreover have "filter (\<lambda>x. \<not> fst x \<noteq> n) (reg_sessions (h_reg h)) = []"
      using None by (auto simp: reg_get_def map_of_eq_None_iff filter_empty_conv)
    ultimately show ?thesis
      using h1 stopped by (intro host_ok_gone [OF assms(1), where gone = "[]" and P = "\<lambda>x. fst x \<noteq> n"]) (auto simp: del)
  next
    case (Some s)
    then have h': "h' = reap_gone now tmps True s h1" using assms(2) by (auto simp: reg_close_def h1_def Let_def)
    have s: "(n, s) \<in> set (reg_sessions (h_reg h))" using Some by (auto simp: reg_get_def dest: map_of_SomeD)
    obtain s' where s': "ses_pid s' = ses_pid s" "shell_ended s'" "h_reg h' = h_reg h1" "h_gone h' = h_gone h @ [s']"
        "h_killed h' = h_killed h"
      using reap_gone_frame [OF closed_ended [OF assms(1) s], of now tmps True h1] h1 by (auto simp: h')
    have "filter (\<lambda>x. \<not> fst x \<noteq> n) (reg_sessions (h_reg h)) = [(n, s)]"
      using assms(1) s by (intro filter_one_key) (auto simp: host_ok_def)
    then show ?thesis
      using h1 s' stopped
      by (intro host_ok_gone [OF assms(1), where gone = "[s']" and P = "\<lambda>x. fst x \<noteq> n"]) (auto simp: del)
  qed
qed

definition abandoned_at :: "time \<Rightarrow> registry \<Rightarrow> session \<Rightarrow> bool" where
  "abandoned_at now r s \<longleftrightarrow> 0 < reg_abandonAfter r \<and> abandonedSince (now - reg_abandonAfter r) s"

lemma endAbandoned_gone:
  assumes "host_ok h" and "endAbandoned now tmps h = (k, h')"
  shows "\<exists>gone. map ses_pid gone = map (ses_pid \<circ> snd) (filter (\<lambda>x. abandoned_at now (h_reg h) (snd x)) (reg_sessions (h_reg h)))
    \<and> (\<forall>s \<in> set gone. shell_ended s) \<and> h_gone h' = h_gone h @ gone \<and> h_killed h' = h_killed h
    \<and> h_reg h' = (h_reg h)\<lparr>reg_sessions := filter (\<lambda>x. \<not> abandoned_at now (h_reg h) (snd x)) (reg_sessions (h_reg h))\<rparr>
    \<and> k = length (filter (\<lambda>x. abandoned_at now (h_reg h) (snd x)) (reg_sessions (h_reg h)))"
proof (cases "reg_abandonAfter (h_reg h) \<le> 0")
  case True
  then have "\<not> abandoned_at now (h_reg h) s" for s by (simp add: abandoned_at_def)
  with True assms show ?thesis by (simp add: endAbandoned_def)
next
  case False
  then have at: "abandonedSince (now - reg_abandonAfter (h_reg h)) s = abandoned_at now (h_reg h) s" for s
    by (simp add: abandoned_at_def)
  define out where "out = filter (\<lambda>x. abandoned_at now (h_reg h) (snd x)) (reg_sessions (h_reg h))"
  define h1 where "h1 = upd_reg (\<lambda>r. r\<lparr>reg_sessions := filter (\<lambda>x. \<not> abandoned_at now (h_reg h) (snd x)) (reg_sessions r)\<rparr>) h"
  have h': "h' = fold (reap_gone now tmps True) (map snd out) h1" and k: "k = length out"
    using assms(2) False by (auto simp: endAbandoned_def Let_def out_def h1_def at case_prod_beta' fold_map)
  have all: "\<forall>s \<in> set (map snd out). ses_closed s \<longrightarrow> shell_ended s"
    using closed_ended [OF assms(1)] by (auto simp: out_def)
  have one: "\<exists>s'. ses_pid s' = ses_pid s \<and> shell_ended s' \<and> h_reg (reap_gone now tmps True s g) = h_reg g
      \<and> h_gone (reap_gone now tmps True s g) = h_gone g @ [s'] \<and> h_killed (reap_gone now tmps True s g) = h_killed g"
    if "ses_closed s \<longrightarrow> shell_ended s" for s g
    using reap_gone_frame [OF that, of now tmps True g] by auto
  obtain gone where "map ses_pid gone = map ses_pid (map snd out)" "\<forall>s \<in> set gone. shell_ended s"
      "h_reg h' = h_reg h1" "h_gone h' = h_gone h @ gone" "h_killed h' = h_killed h"
    using fold_gone_frame [of "reap_gone now tmps True" "map snd out" h1, OF one all] unfolding h' by (auto simp: h1_def)
  with k show ?thesis by (auto simp: h1_def out_def)
qed

lemma endAbandoned_ok:
  assumes "host_ok h" and "endAbandoned now tmps h = (k, h')"
  shows "host_ok h' \<and> mset (host_pids h') = mset (host_pids h)"
proof -
  obtain gone where g: "map ses_pid gone = map (ses_pid \<circ> snd) (filter (\<lambda>x. abandoned_at now (h_reg h) (snd x)) (reg_sessions (h_reg h)))"
      "\<forall>s \<in> set gone. shell_ended s" "h_gone h' = h_gone h @ gone" "h_killed h' = h_killed h"
      "h_reg h' = (h_reg h)\<lparr>reg_sessions := filter (\<lambda>x. \<not> abandoned_at now (h_reg h) (snd x)) (reg_sessions (h_reg h))\<rparr>"
    using endAbandoned_gone [OF assms] by blast
  show ?thesis
    using assms(1) g
    by (intro host_ok_gone [OF assms(1) g(5,3,4), where P = "\<lambda>x. \<not> abandoned_at now (h_reg h) (snd x)"])
      (auto simp: host_ok_def)
qed

lemma shutdown_ok:
  assumes "host_ok h" and "shutdown now tmp tmps h = (k, h')"
  shows "host_ok h' \<and> mset (host_pids h') = mset (host_pids h) \<and> reg_sessions (h_reg h') = [] \<and> reg_stopped (h_reg h')
    \<and> k = length (reg_sessions (h_reg h))"
proof -
  define vals where "vals = map snd (reg_sessions (h_reg h))"
  define h1 where "h1 = upd_reg (\<lambda>r. r\<lparr>reg_stopped := True, reg_sessions := []\<rparr>) h"
  have h': "h' = fold (stop_session now tmp tmps) vals h1" and k: "k = length (reg_sessions (h_reg h))"
    using assms(2) by (auto simp: shutdown_def Let_def vals_def h1_def)
  have all: "\<forall>s \<in> set vals. ses_closed s \<longrightarrow> shell_ended s"
    using closed_ended [OF assms(1)] by (auto simp: vals_def)
  have one: "\<exists>s'. ses_pid s' = ses_pid s \<and> shell_ended s' \<and> h_reg (stop_session now tmp tmps s g) = h_reg g
      \<and> h_gone (stop_session now tmp tmps s g) = h_gone g @ [s'] \<and> h_killed (stop_session now tmp tmps s g) = h_killed g"
    if "ses_closed s \<longrightarrow> shell_ended s" for s g
    using reap_gone_frame [OF that, of now tmps False
        "if reg_store (h_reg g) then g\<lparr>h_store := snd (markEnded (tmp (ses_id s)) (ses_id s) (UnixMilli now) None (ses_written s) (h_store g))\<rparr> else g"]
    by (auto simp: stop_session_def)
  obtain gone where g: "map ses_pid gone = map ses_pid vals" "\<forall>s \<in> set gone. shell_ended s"
      "h_reg h' = h_reg h1" "h_gone h' = h_gone h @ gone" "h_killed h' = h_killed h"
    using fold_gone_frame [of "stop_session now tmp tmps" vals h1, OF one all] unfolding h' by (auto simp: h1_def)
  have "host_ok h' \<and> mset (host_pids h') = mset (host_pids h)"
    using g by (intro host_ok_gone [OF assms(1) g(3,4,5), where P = "\<lambda>_. False"]) (auto simp: h1_def vals_def)
  with g(3) k show ?thesis by (simp add: h1_def)
qed

lemma step_frame:
  assumes "\<forall>tmps ended. op \<noteq> SReap tmps ended"
  shows "let s = sw_ses w; s' = sw_ses (session_step c now w op)
    in ses_id s' = ses_id s \<and> ses_pid s' = ses_pid s \<and> ses_closed s' = ses_closed s
      \<and> set (ses_process s) \<subseteq> set (ses_process s') \<and> ses_paneID s' = ses_paneID s"
  using assms
  by (cases op)
    (auto simp: Let_def pump_chunk_def attachRenderer_def replaceRenderer_def detachRenderer_def signal_resume_def
      detach_locked_def detachActiveRenderer_def detach_active_locked_def session_write_def session_resize_def
      session_observe_def removeObserver_def setDisplays_def adoptObserver_def session_ack_def show_to_def
      split: prod.splits option.splits if_splits)

lemma on_session_ok:
  assumes "host_ok h" and "\<forall>tmps ended. op \<noteq> SReap tmps ended"
  shows "host_ok (on_session c now n op h) \<and> host_pids (on_session c now n op h) = host_pids h"
proof (cases "reg_get n (h_reg h)")
  case None
  with assms show ?thesis by (simp add: on_session_def)
next
  case (Some s)
  define w where "w = \<lparr>sw_ses = s, sw_heap = h_obs h, sw_store = h_store h, sw_out = [], sw_taken = (\<lambda>_. [])\<rparr>"
  define w' where "w' = session_step c now w op"
  have s: "ses_id s = n" "ses_closed s \<longrightarrow> shell_ended s"
    using assms(1) Some by (auto simp: host_ok_def reg_get_def dest: map_of_SomeD)
  have f: "ses_id (sw_ses w') = n" "ses_pid (sw_ses w') = ses_pid s" "ses_closed (sw_ses w') \<longrightarrow> shell_ended (sw_ses w')"
    using step_frame [OF assms(2), of w c now] s by (auto simp: w'_def w_def Let_def shell_ended_def)
  have "on_session c now n op h = put_session (sw_ses w') (h\<lparr>h_obs := sw_heap w', h_store := sw_store w'\<rparr>)"
    using Some by (simp add: on_session_def w'_def w_def Let_def)
  with host_ok_put [OF assms(1) Some f, of "h\<lparr>h_obs := sw_heap w', h_store := sw_store w'\<rparr>"] show ?thesis by simp
qed

lemma shell_exits_ok:
  assumes "host_ok h"
  shows "host_ok (shell_exits now tmps n h) \<and> host_pids (shell_exits now tmps n h) = host_pids h"
proof (cases "reg_get n (h_reg h)")
  case None
  with assms show ?thesis by (simp add: shell_exits_def)
next
  case (Some s)
  define s0 where "s0 = s\<lparr>ses_ring := fst (ring_end (ses_ring s))\<rparr>"
  obtain s' h' where r: "reap_host now tmps True s0 h = (s', h')" by fastforce
  have s: "ses_id s = n" "ses_closed s0 \<longrightarrow> shell_ended s0"
    using assms Some by (auto simp: host_ok_def reg_get_def s0_def shell_ended_def dest: map_of_SomeD)
  note f = reap_host_frame [OF r s(2)]
  have "shell_exits now tmps n h = put_session s' h'" using Some r by (simp add: shell_exits_def s0_def)
  with host_ok_put [OF assms Some, of s' h'] f s(1) show ?thesis by (simp add: s0_def)
qed

lemma open_ok:
  assumes "host_ok h" and "openWithObserver c pf now tmp request prepared h = Some (x, h')"
  shows "host_ok h' \<and> mset (host_pids h') = mset (host_pids h @ starts pf request (h_reg h))"
  using assms(2)
proof (cases rule: openWithObserver_cases)
  case (refused e)
  with assms(1) show ?thesis by simp
next
  case (stopping pid)
  with assms(1) show ?thesis by (simp add: host_ok_def host_pids_def)
next
  case (opened n pid st fd d obs led)
  then show ?thesis
    using assms(1) by (auto simp: new_pids host_ok_def host_pids_def map_of_eq_None_iff)
qed

lemma reg_step_ok:
  assumes "reg_step c x y" and "host_ok (fst x)" and "mset (snd x) = mset (host_pids (fst x))"
  shows "host_ok (fst y) \<and> mset (snd y) = mset (host_pids (fst y))"
  using assms
proof (induction rule: reg_step.induct)
  case (opens pf now tmp request prepared h x h' ps)
  then show ?case using open_ok by (metis fst_conv snd_conv mset_append)
next
  case (closes now tmps n h x h' ps)
  then show ?case using reg_close_ok by (metis fst_conv snd_conv)
next
  case (sweeps now tmps h k h' ps)
  then show ?case using endAbandoned_ok by (metis fst_conv snd_conv)
next
  case (exits h ps now tmps n)
  then show ?case using shell_exits_ok by (metis fst_conv snd_conv)
next
  case (uses op h ps now n)
  then show ?case using on_session_ok by (metis fst_conv snd_conv)
next
  case (stops now tmp tmps h k h' ps)
  then show ?case using shutdown_ok by (metis fst_conv snd_conv)
qed (simp_all add: bindProcessLifecycle_def attachStore_def host_ok_def host_pids_def)

lemma reg_steps_ok:
  assumes "(reg_step c)\<^sup>*\<^sup>* x y" and "host_ok (fst x)" and "mset (snd x) = mset (host_pids (fst x))"
  shows "host_ok (fst y) \<and> mset (snd y) = mset (host_pids (fst y))"
  using assms by (induction rule: rtranclp_induct) (auto dest: reg_step_ok)

subsection \<open>Properties\<close>

text \<open>C22. Issuing an id ends, with an id nothing holds. While fewer than all ids are in use, the search
  stops at the first id after the last one issued that no session of the registry has, wrapping
  around at the end of the range, and only the counter changes. So an open never takes the place of
  a session that is running, restored ones included.\<close>

theorem issued_id_is_fresh:
  assumes "length (reg_sessions r) < 2 ^ 64"
  shows "\<exists>k. issueLocked r = Some (reg_next r + 1 + of_nat k, r\<lparr>reg_next := reg_next r + 1 + of_nat k\<rparr>)
    \<and> reg_get (reg_next r + 1 + of_nat k) r = None
    \<and> (\<forall>j < k. reg_get (reg_next r + 1 + of_nat j) r \<noteq> None)"
proof -
  have "card (set (map fst (reg_sessions r))) < 2 ^ 64"
    using assms card_length [of "map fst (reg_sessions r)"] by simp
  from issue_from_free [OF this, of "reg_next r"] show ?thesis
    by (auto simp: issueLocked_def reg_get_def map_of_eq_None_iff)
qed

definition sample_session :: "u64 \<Rightarrow> session" where
  "sample_session n = born_session small_contract n"

theorem issued_id_is_fresh_witness:
  "\<exists>k. issueLocked ((newRegistry 5 (- 1) ''sh'')\<lparr>reg_sessions := [(0, sample_session 0)]\<rparr>)
     = Some (of_nat k, (newRegistry 5 (- 1) ''sh'')\<lparr>reg_sessions := [(0, sample_session 0)], reg_next := of_nat k\<rparr>) \<and> k \<noteq> 0"
proof -
  let ?r = "(newRegistry 5 (- 1) ''sh'')\<lparr>reg_sessions := [(0, sample_session 0)]\<rparr>"
  have "length (reg_sessions ?r) < 2 ^ 64" by simp
  from issued_id_is_fresh [OF this] obtain k where
    k: "issueLocked ?r = Some (of_nat k, ?r\<lparr>reg_next := of_nat k\<rparr>)" "reg_get (of_nat k) ?r = None"
    by (auto simp: newRegistry_def)
  have "k \<noteq> 0" by (rule notI) (use k(2) in \<open>simp add: reg_get_def newRegistry_def\<close>)
  with k(1) show ?thesis by auto
qed

text \<open>What an open makes. The session answered has an id nothing held and leaves every other session
  as it was; its process was started with exactly the shell, directory, environment and size the
  session is recorded with; its generation is the registry's next; and when it says that it is
  stored, its record is on the disk and holds exactly the facts an equal session is created from.\<close>

lemma open_creates_session:
  assumes "openWithObserver c pf now tmp request prepared h = Some (Inr n, h')"
  shows "reg_get n (h_reg h) = None \<and> (\<forall>m. m \<noteq> n \<longrightarrow> reg_get m (h_reg h') = reg_get m (h_reg h))
    \<and> (\<exists>s. reg_get n (h_reg h') = Some s \<and> ses_id s = n \<and> \<not> ses_closed s
        \<and> pf_start pf (open_shell request (h_reg h)) (ses_cwd s) (ses_environment s) (ses_cols s) (ses_rows s) = Inr (ses_pid s)
        \<and> ses_command s = open_shell request (h_reg h) @ '' -l''
        \<and> ses_paneID s = op_PaneID request \<and> ses_windowLabel s = op_WindowLabel request \<and> ses_cwd s = op_CWD request
        \<and> ses_environment s = open_environment pf request \<and> ses_cols s = op_Cols request \<and> ses_rows s = op_Rows request
        \<and> ses_generation s = reg_generation (h_reg h) + 1 \<and> reg_generation (h_reg h') = reg_generation (h_reg h) + 1
        \<and> (ses_store s \<longrightarrow> entry (st_disk (h_store h')) (recordPath n) = Some (RecordFile (creationFacts s))))"
  using assms
proof (cases rule: openWithObserver_cases)
  case (opened m pid st fd d obs led)
  then have m: "m = n" by simp
  let ?s0 = "open_session c pf now request prepared (h_reg h) n pid"
  define s where "s = ?s0\<lparr>ses_store := st, ses_feed := fd\<rparr>"
  have start: "pf_start pf (open_shell request (h_reg h)) (op_CWD request) (open_environment pf request)
      (op_Cols request) (op_Rows request) = Inr pid"
    using opened(3) by (auto simp: starts_def split: if_splits sum.splits)
  have fields: "ses_id s = n" "ses_closed s = False" "ses_pid s = pid" "ses_paneID s = op_PaneID request"
      "ses_windowLabel s = op_WindowLabel request" "ses_cwd s = op_CWD request" "ses_cols s = op_Cols request"
      "ses_rows s = op_Rows request" "ses_environment s = open_environment pf request"
      "ses_command s = open_shell request (h_reg h) @ '' -l''" "ses_generation s = reg_generation (h_reg h) + 1" "ses_store s = st"
    by (simp_all add: s_def open_session_def take_prepared_def fresh_session_def split: option.splits)
  have facts: "creationFacts s = creationFacts ?s0" by (simp add: s_def creationFacts_def)
  have "entry (st_disk d) (recordPath n) = Some (RecordFile (creationFacts s))" if st
  proof -
    have "store_create tmp (creationFacts s) (h_store h) = (Inr (), d)" using opened(5) that by (simp add: facts m)
    then obtain dd where "publish tmp (creationFacts s) False (st_disk (h_store h)) = (Inr (), dd)" "st_disk d = dd"
      by (auto simp: store_create_def store_write_def recordLock_def split: prod.splits)
    then show ?thesis
      using publish_published [of tmp "creationFacts s" False "st_disk (h_store h)"] fields(1)
      by (auto simp: published_def creationFacts_def)
  qed
  then show ?thesis
    using opened(4,6) fields start
    by (auto simp: reg_get_def AList.update_conv' m s_def [symmetric])
qed (use assms in auto)

definition sample_platform :: platform where
  "sample_platform = \<lparr>pf_windows = False, pf_upper = id, pf_environ = [''PATH=/bin'', ''TERM=t'', ''COLORTERM=c'', ''LANG=l'', ''LC_CTYPE=l''],
     pf_start = (\<lambda>shell cwd environment cols rows. if shell = ''sh'' then Inr 41 else Inl ''no such file'')\<rparr>"

definition sample_open :: Open where
  "sample_open = \<lparr>op_PaneID = ''p1'', op_WindowLabel = ''w'', op_CWD = ''/'', op_Shell = ''sh'',
     op_Environment = \<lparr>env_Replace = [(''TERM'', ''t''), (''COLORTERM'', ''c''), (''LANG'', ''l''), (''LC_CTYPE'', ''l'')], env_Variables = []\<rparr>,
     op_EnvironmentDrop = [], op_Cols = 80, op_Rows = 24, op_ObserverToken = []\<rparr>"

definition sample_host :: host where
  "sample_host = new_host ((newRegistry 5 6 ''sh'')\<lparr>reg_store := True\<rparr>) empty_store"

lemma sample_issue: "issue_from 6 [] = Some 7"
  by (subst issue_from.simps) simp

lemma sample_opens_any: "\<exists>h'. openWithObserver small_contract sample_platform 3 ''t'' sample_open None
    (new_host ((newRegistry 5 6 ''sh'')\<lparr>reg_store := st\<rparr>) d) = Some (Inr 7, h')"
  by (auto simp: openWithObserver_def sample_open_def sample_platform_def new_host_def newRegistry_def
      issueLocked_def sample_issue Let_def split: prod.splits)

lemma sample_opens: "\<exists>h'. openWithObserver small_contract sample_platform 3 ''t'' sample_open None sample_host = Some (Inr 7, h')"
  using sample_opens_any [of True] by (simp add: sample_host_def)

lemma open_creates_session_witness:
  "\<exists>h' s. openWithObserver small_contract sample_platform 3 ''t'' sample_open None sample_host = Some (Inr 7, h')
    \<and> reg_get 7 (h_reg h') = Some s \<and> ses_pid s = 41 \<and> ses_command s = ''sh -l'' \<and> ses_generation s = 6"
proof -
  obtain h' where 1: "openWithObserver small_contract sample_platform 3 ''t'' sample_open None sample_host = Some (Inr 7, h')"
    using sample_opens by blast
  from open_creates_session [OF 1] 1 show ?thesis
    by (auto simp: sample_platform_def sample_open_def open_shell_def sample_host_def new_host_def newRegistry_def)
qed

text \<open>No shell is ever lost. However opens, closes, sweeps, shells that exit, operations on sessions
  and the stop follow each other, every shell that was ever started is one of: the shell of a session
  the registry holds, under that session's own id; the shell of a session that left the registry,
  which was told to end, had its terminal closed and was waited for; or a shell ended at once because
  the daemon was stopping. After a stop the registry holds none, so every shell has been ended.\<close>

lemma no_shell_is_lost:
  assumes "(reg_step c)\<^sup>*\<^sup>* (new_host (newRegistry a b shell) d, []) (h, ps)"
  shows "mset ps = mset (map (ses_pid \<circ> snd) (reg_sessions (h_reg h))) + mset (map ses_pid (h_gone h)) + mset (h_killed h)
    \<and> (\<forall>s \<in> set (h_gone h). shell_ended s)
    \<and> (\<forall>n s. (n, s) \<in> set (reg_sessions (h_reg h)) \<longrightarrow> ses_id s = n \<and> reg_get n (h_reg h) = Some s)
    \<and> (reg_stopped (h_reg h) \<longrightarrow> mset ps = mset (map ses_pid (h_gone h)) + mset (h_killed h))"
proof -
  have "host_ok (new_host (newRegistry a b shell) d)" "host_pids (new_host (newRegistry a b shell) d) = []"
    by (simp_all add: host_ok_def host_pids_def new_host_def newRegistry_def)
  with reg_steps_ok [OF assms] have ok: "host_ok h" and pids: "mset ps = mset (host_pids h)" by simp_all
  have "reg_get n (h_reg h) = Some s" if "(n, s) \<in> set (reg_sessions (h_reg h))" for n s
    using ok that by (simp add: reg_get_def host_ok_def)
  with ok pids show ?thesis by (auto simp: host_ok_def host_pids_def)
qed

lemma no_shell_is_lost_witness:
  "\<exists>h ps. (reg_step small_contract)\<^sup>*\<^sup>* (new_host (newRegistry 5 6 ''sh'') empty_store, []) (h, ps)
    \<and> reg_stopped (h_reg h) \<and> mset (map ses_pid (h_gone h)) = {#41#} \<and> ps = [41] \<and> (\<forall>s \<in> set (h_gone h). shell_ended s)"
proof -
  let ?h0 = "new_host (newRegistry 5 6 ''sh'') empty_store"
  obtain h1 where 1: "openWithObserver small_contract sample_platform 3 ''t'' sample_open None ?h0 = Some (Inr 7, h1)"
    using sample_opens_any [of False empty_store] by (auto simp: newRegistry_def)
  have p: "starts sample_platform sample_open (h_reg ?h0) = [41]"
    by (simp add: starts_def sample_open_def sample_platform_def open_shell_def)
  obtain k h2 where 2: "shutdown 9 (\<lambda>_. ''t'') (\<lambda>_. []) h1 = (k, h2)" by fastforce
  have run: "(reg_step small_contract)\<^sup>*\<^sup>* (?h0, []) (h2, [41])"
    using reg_step.opens [OF 1, where ps = "[]"] reg_step.stops [OF 2, where c = small_contract and ps = "[41]"] p
    by (simp add: converse_rtranclp_into_rtranclp)
  have "host_ok ?h0" by (simp add: host_ok_def new_host_def newRegistry_def)
  then have "host_ok h1" using open_ok [OF _ 1] by simp
  then have s: "reg_stopped (h_reg h2)" using shutdown_ok [OF _ 2] by simp
  have "h_killed h2 = []"
  proof -
    have "h_killed h1 = []"
      using 1 by (cases rule: openWithObserver_cases) (auto simp: new_host_def newRegistry_def)
    moreover have "h_killed (stop_session now tmp tmps s h) = h_killed h" for now tmp tmps s h
      by (auto simp: stop_session_def reap_gone_def reap_host_def tell_ledger_def Let_def split: prod.splits option.splits)
    then have "h_killed (fold (stop_session now tmp tmps) ss h) = h_killed h" for now tmp tmps ss h
      by (induction ss arbitrary: h) simp_all
    ultimately show ?thesis using 2 by (auto simp: shutdown_def Let_def)
  qed
  with no_shell_is_lost [OF run] s run show ?thesis by (auto intro!: exI [of _ h2])
qed

text \<open>A sweep ends exactly what was abandoned. Once the window has passed, the sessions it ends are
  those that nothing has shown or heard from for longer than the window; each leaves the registry
  and its shell is ended, every other session stays as it was, and the answer is their number. With
  no window set it ends nothing.\<close>

lemma sweep_ends_abandoned:
  assumes "(reg_step c)\<^sup>*\<^sup>* (new_host (newRegistry a b shell) d, []) (h, ps)"
    and "endAbandoned now tmps h = (k, h')"
  shows "(\<forall>n. reg_get n (h_reg h') = (case reg_get n (h_reg h) of
        None \<Rightarrow> None | Some s \<Rightarrow> if abandoned_at now (h_reg h) s then None else Some s))
    \<and> k = length (filter (\<lambda>x. abandoned_at now (h_reg h) (snd x)) (reg_sessions (h_reg h)))
    \<and> (\<exists>gone. h_gone h' = h_gone h @ gone \<and> (\<forall>s \<in> set gone. shell_ended s)
        \<and> map ses_pid gone = map (ses_pid \<circ> snd) (filter (\<lambda>x. abandoned_at now (h_reg h) (snd x)) (reg_sessions (h_reg h))))"
proof -
  have "host_ok (new_host (newRegistry a b shell) d)" "host_pids (new_host (newRegistry a b shell) d) = []"
    by (simp_all add: host_ok_def host_pids_def new_host_def newRegistry_def)
  with reg_steps_ok [OF assms(1)] have ok: "host_ok h" by simp
  have "map_of (filter (\<lambda>x. \<not> P (snd x)) xs) n = (case map_of xs n of None \<Rightarrow> None | Some s \<Rightarrow> if P s then None else Some s)"
    if "distinct (map fst xs)" for P and xs :: "(u64 \<times> session) list" and n
    using that by (induction xs) (auto simp: map_of_eq_None_iff split: option.splits dest: map_of_SomeD intro: rev_image_eqI)
  with endAbandoned_gone [OF ok assms(2)] ok show ?thesis
    by (auto simp: reg_get_def host_ok_def)
qed

lemma sweep_ends_abandoned_witness:
  "\<exists>h ps k h'. (reg_step small_contract)\<^sup>*\<^sup>* (new_host (newRegistry 5 6 ''sh'') empty_store, []) (h, ps)
    \<and> endAbandoned 1800000000011 (\<lambda>_. []) h = (k, h') \<and> reg_get 7 (h_reg h) \<noteq> None \<and> reg_get 7 (h_reg h') = None \<and> k = 1"
proof -
  let ?h0 = "new_host (newRegistry 5 6 ''sh'') empty_store"
  obtain h1 where 1: "openWithObserver small_contract sample_platform 3 ''t'' sample_open None ?h0 = Some (Inr 7, h1)"
    using sample_opens_any [of False empty_store] by (auto simp: newRegistry_def)
  define h2 where "h2 = on_session small_contract 5 7 SAttach h1"
  define h3 where "h3 = on_session small_contract 10 7 SDetachActive h2"
  obtain s where s1: "reg_sessions (h_reg h1) = [(7, s)]" "ses_id s = 7" "ses_writtenAt s = None" "ses_displaying s = []"
      and r1: "reg_abandonAfter (h_reg h1) = defaultAbandonAfter"
    using 1
  proof (cases rule: openWithObserver_cases)
    case (opened n pid st fd d obs led)
    with that show ?thesis
      by (auto simp: new_host_def newRegistry_def open_session_def take_prepared_def fresh_session_def)
  qed auto
  have r: "reg_sessions (h_reg h3) = [(7, s\<lparr>ses_rendererGeneration := next_generation (ses_rendererGeneration s),
        ses_rendererAttached := False, ses_detachedAt := Some 10, ses_resume := True\<rparr>)]"
      "reg_abandonAfter (h_reg h3) = defaultAbandonAfter"
    using s1 r1 by (simp_all add: h3_def h2_def on_session_def reg_get_def put_session_def attachRenderer_def Let_def
        detachActiveRenderer_def detach_active_locked_def presenceLocked_def signal_resume_def)
  have "(reg_step small_contract)\<^sup>*\<^sup>* (?h0, []) (h1, [] @ starts sample_platform sample_open (h_reg ?h0))"
    using reg_step.opens [OF 1, where ps = "[]"] by (rule r_into_rtranclp)
  also have "reg_step small_contract (h1, [] @ starts sample_platform sample_open (h_reg ?h0)) (h2, starts sample_platform sample_open (h_reg ?h0))"
    unfolding h2_def by (simp add: reg_step.uses)
  also have "reg_step small_contract (h2, starts sample_platform sample_open (h_reg ?h0)) (h3, starts sample_platform sample_open (h_reg ?h0))"
    unfolding h3_def by (simp add: reg_step.uses)
  finally have run: "(reg_step small_contract)\<^sup>*\<^sup>* (?h0, []) (h3, starts sample_platform sample_open (h_reg ?h0))" .
  obtain k h' where e: "endAbandoned 1800000000011 (\<lambda>_. []) h3 = (k, h')" by fastforce
  from sweep_ends_abandoned [OF run e] r s1 have "reg_get 7 (h_reg h') = None" "k = 1"
    by (auto simp: reg_get_def abandoned_at_def defaultAbandonAfter_def abandonedSince_def presenceLocked_def)
  with run e r show ?thesis by (auto simp: reg_get_def)
qed

lemma find_in: "List.find P xs = Some x \<Longrightarrow> x \<in> set xs \<and> P x"
  by (induction xs) (auto split: if_splits)

lemma find_update:
  assumes "List.find P (map snd xs) = Some s" and "\<forall>(m, t) \<in> set xs. ses_id t = m" and "ses_id s = n" and "P s'"
  shows "List.find P (map snd (AList.update n s' xs)) = Some s'"
  using assms
proof (induction xs)
  case (Cons x xs)
  then show ?case by (cases x) (auto split: if_splits)
qed simp

text \<open>C23. A pane whose shell exited is still answered with the ended session. The exit reaps the session
  and removes its record, and leaves it in the registry: the pane's lookup finds it as before, only
  closed, until someone closes it.\<close>

theorem exited_session_keeps_its_pane:
  assumes "(reg_step c)\<^sup>*\<^sup>* (new_host (newRegistry a b shell) d, []) (h, ps)"
    and "byPane pane (h_reg h) = Some s"
  shows "\<exists>s'. byPane pane (h_reg (shell_exits now tmps (ses_id s) h)) = Some s' \<and> ses_id s' = ses_id s
    \<and> ses_pid s' = ses_pid s \<and> ses_paneID s' = pane \<and> shell_ended s'
    \<and> session_write True data s' = (Inl (SessionEnded (ses_id s)), s')"
proof -
  have "host_ok (new_host (newRegistry a b shell) d)" "host_pids (new_host (newRegistry a b shell) d) = []"
    by (simp_all add: host_ok_def host_pids_def new_host_def newRegistry_def)
  with reg_steps_ok [OF assms(1)] have ok: "host_ok h" by simp
  obtain n where n: "(n, s) \<in> set (reg_sessions (h_reg h))" "ses_paneID s = pane"
    using find_in [OF assms(2) [unfolded byPane_def]] by auto
  then have id: "ses_id s = n" and found: "reg_get n (h_reg h) = Some s" using ok by (auto simp: host_ok_def reg_get_def)
  define s0 where "s0 = s\<lparr>ses_ring := fst (ring_end (ses_ring s))\<rparr>"
  obtain s' h' where r: "reap_host now tmps True s0 h = (s', h')" by fastforce
  have "ses_closed s0 \<longrightarrow> shell_ended s0" using closed_ended [OF ok n(1)] by (simp add: s0_def shell_ended_def)
  note f = reap_host_frame [OF r this]
  have s': "ses_id s' = n" "ses_paneID s' = pane" "ses_pid s' = ses_pid s" "shell_ended s'" "h_reg h' = h_reg h"
    using f n(2) id by (auto simp: s0_def)
  have "shell_exits now tmps (ses_id s) h = put_session s' h'" using found r id by (simp add: shell_exits_def s0_def)
  moreover have "List.find (\<lambda>s. ses_paneID s = pane) (map snd (AList.update n s' (reg_sessions (h_reg h)))) = Some s'"
    using assms(2) ok id s'(2) by (intro find_update [where s = s]) (auto simp: byPane_def host_ok_def)
  ultimately have "byPane pane (h_reg (shell_exits now tmps (ses_id s) h)) = Some s'"
    by (simp add: put_session_def byPane_def s')
  with s' id show ?thesis by (auto simp: session_write_def shell_ended_def)
qed

theorem exited_session_keeps_its_pane_witness:
  "\<exists>h ps s s'. (reg_step small_contract)\<^sup>*\<^sup>* (new_host (newRegistry 5 6 ''sh'') empty_store, []) (h, ps)
    \<and> byPane ''p1'' (h_reg h) = Some s \<and> \<not> ses_closed s
    \<and> byPane ''p1'' (h_reg (shell_exits 9 [] (ses_id s) h)) = Some s' \<and> ses_closed s'"
proof -
  let ?h0 = "new_host (newRegistry 5 6 ''sh'') empty_store"
  obtain h1 where 1: "openWithObserver small_contract sample_platform 3 ''t'' sample_open None ?h0 = Some (Inr 7, h1)"
    using sample_opens_any [of False empty_store] by (auto simp: newRegistry_def)
  have run: "(reg_step small_contract)\<^sup>*\<^sup>* (?h0, []) (h1, [] @ starts sample_platform sample_open (h_reg ?h0))"
    using reg_step.opens [OF 1, where ps = "[]"] by (rule r_into_rtranclp)
  obtain s where s: "byPane ''p1'' (h_reg h1) = Some s" "\<not> ses_closed s"
    using 1
  proof (cases rule: openWithObserver_cases)
    case (opened n pid st fd d obs led)
    with that show ?thesis by (auto simp: new_host_def newRegistry_def byPane_def sample_open_def)
  qed auto
  from exited_session_keeps_its_pane [OF run s(1), of 9 "[]" "[]"]
  obtain s' where "byPane ''p1'' (h_reg (shell_exits 9 [] (ses_id s) h1)) = Some s'" "ses_closed s'"
    by (auto simp: shell_ended_def)
  with run s show ?thesis by blast
qed

end
