(* ===== verification/Restore.thy ===== *)
theory Restore
  imports Registry
begin

section \<open>Standing sessions back up (restore.go)\<close>

text \<open>
  What a start does with the records the previous process left: each session comes back under its
  own id, at the coordinates it had, with a new shell started from its record, and with an answer to
  how much of it came back. The registry's two ways of answering for sessions by name are here too.
\<close>

definition shellBoundary :: "byte list" where
  "shellBoundary = [13, 10]"

text \<open>The first field of the recorded command line.\<close>

definition Shell :: "sessionRecord \<Rightarrow> string" where
  "Shell r = takeWhile (\<lambda>ch. ch \<noteq> CHR '' '') (rec_Command r)"

definition restore_failed :: "u64 \<Rightarrow> restore_reason \<Rightarrow> restoreOutcome" where
  "restore_failed n reason = \<lparr>oc_Session = sessionText n, oc_Outcome = SessionFailed, oc_Reason = reason\<rparr>"

text \<open>The ring takes the stored output, and a line break where that output ends inside a line.\<close>

definition refill :: "contract \<Rightarrow> byte list \<Rightarrow> u64 \<Rightarrow> session \<Rightarrow> session" where
  "refill c out through s =
     (let r = ring_restore c (ses_ring s) out through;
          (_, live, _) = ring_snapshot r;
          s = s\<lparr>ses_ring := r, ses_written := live\<rparr>
      in if length out > 0 \<and> last out \<noteq> 10 then
           (case ring_write c (ses_ring s) shellBoundary of (r, written, _) \<Rightarrow>
              s\<lparr>ses_ring := r, ses_written := written,
                ses_feed := map_option (\<lambda>f. snd (feed_offer f shellBoundary written)) (ses_feed s)\<rparr>)
         else s)"

definition restoreOne :: "contract \<Rightarrow> platform \<Rightarrow> time \<Rightarrow> string \<Rightarrow> u64 \<Rightarrow> host \<Rightarrow> restoreOutcome \<times> host" where
  "restoreOne c pf now tmp n h = (case store_read n (st_disk (h_store h)) of
     (Inl e, d) \<Rightarrow> (restore_failed n (StoreReason e), h\<lparr>h_store := (h_store h)\<lparr>st_disk := d\<rparr>\<rparr>)
   | (Inr r, d) \<Rightarrow>
       (let h = h\<lparr>h_store := (h_store h)\<lparr>st_disk := d\<rparr>\<rparr>
        in case store_output n (int (HighWatermark c)) (h_store h) of
             (Inl e, d) \<Rightarrow> (restore_failed n (StoreReason e), h\<lparr>h_store := d\<rparr>)
           | (Inr (out, through), d) \<Rightarrow>
               (let h = h\<lparr>h_store := d\<rparr>;
                    shell = (if Shell r = [] then reg_shell (h_reg h) else Shell r)
                in case pf_start pf shell (rec_CWD r) (rec_Environment r) (rec_Cols r) (rec_Rows r) of
                     Inl e \<Rightarrow> (restore_failed n (StartReason e), h)
                   | Inr pid \<Rightarrow>
                       if reg_stopped (h_reg h)
                       then (restore_failed n ShuttingDown, h\<lparr>h_killed := h_killed h @ [pid]\<rparr>)
                       else
                         (let h = upd_reg (\<lambda>r. r\<lparr>reg_generation := reg_generation r + 1\<rparr>) h;
                              s = fresh_session c now n (reg_generation (h_reg h)) pid (rec_PaneID r) (rec_WindowLabel r)
                                    (rec_CWD r) (rec_Command r) (rec_Cols r) (rec_Rows r) (rec_Environment r);
                              s = refill c out through (s\<lparr>ses_store := True, ses_feed := Some (newStoreFeed n)\<rparr>);
                              h = put_session s h;
                              outcome = (if rec_EndedAtUnixMs r \<noteq> None \<and> through \<ge> rec_EndedThrough r
                                         then SessionFull else SessionDegraded);
                              h = h\<lparr>h_store := snd (clearStopMark tmp n (h_store h))\<rparr>
                          in (\<lparr>oc_Session = sessionText n, oc_Outcome = outcome, oc_Reason = NoReason\<rparr>,
                              tell_ledger (LedgerStarted n) h)))))"

definition recordOutcome :: "u64 \<Rightarrow> restoreOutcome \<Rightarrow> host \<Rightarrow> host" where
  "recordOutcome n outcome = upd_reg (\<lambda>r. r\<lparr>reg_outcomes := AList.update n outcome (reg_outcomes r)\<rparr>)"

definition markStoreRead :: "host \<Rightarrow> host" where
  "markStoreRead = upd_reg (\<lambda>r. r\<lparr>reg_readStore := True\<rparr>)"

fun restore_all :: "contract \<Rightarrow> platform \<Rightarrow> time \<Rightarrow> (u64 \<Rightarrow> string) \<Rightarrow> u64 list \<Rightarrow> host \<Rightarrow> restoreOutcome list \<times> host" where
  "restore_all c pf now tmp [] h = ([], h)"
| "restore_all c pf now tmp (n # ns) h = (case restoreOne c pf now (tmp n) n h of
     (outcome, h) \<Rightarrow> apfst (Cons outcome) (restore_all c pf now tmp ns (recordOutcome n outcome h)))"

definition restore :: "contract \<Rightarrow> platform \<Rightarrow> time \<Rightarrow> (u64 \<Rightarrow> string) \<Rightarrow> host \<Rightarrow> restoreOutcome list \<times> host" where
  "restore c pf now tmp h =
     (if \<not> sessionStore (h_reg h) then ([], markStoreRead h)
      else (case store_list (st_disk (h_store h)) of
        (Inl e, d) \<Rightarrow> ([], h\<lparr>h_store := (h_store h)\<lparr>st_disk := d\<rparr>\<rparr>)
      | (Inr ns, d) \<Rightarrow> apsnd markStoreRead (restore_all c pf now tmp ns (h\<lparr>h_store := (h_store h)\<lparr>st_disk := d\<rparr>\<rparr>))))"

subsection \<open>Answering for sessions by name\<close>

definition byID :: "u64 \<Rightarrow> registry \<Rightarrow> session option" where
  "byID n r = map_of (reg_sessions r) n"

record SessionReport =
  rep_Complete :: bool
  rep_Sessions :: "restoreOutcome list"

text \<open>A caller that names nothing asks for everything the daemon knows of.\<close>

definition known_names :: "registry \<Rightarrow> string list" where
  "known_names r = map (sessionText \<circ> fst) (reg_sessions r)
     @ map (sessionText \<circ> fst) (filter (\<lambda>(n, _). map_of (reg_sessions r) n = None) (reg_outcomes r))"

definition report_one :: "registry \<Rightarrow> string \<Rightarrow> restoreOutcome" where
  "report_one r name =
     (let lost = \<lparr>oc_Session = name, oc_Outcome = SessionLost, oc_Reason = NoReason\<rparr>
      in case sessionNumber name of
           None \<Rightarrow> lost
         | Some n \<Rightarrow> (case map_of (reg_outcomes r) n of
             Some outcome \<Rightarrow> outcome
           | None \<Rightarrow> (case map_of (reg_sessions r) n of
               Some _ \<Rightarrow> \<lparr>oc_Session = name, oc_Outcome = SessionFull, oc_Reason = NoReason\<rparr>
             | None \<Rightarrow> lost)))"

definition restoreReport :: "string list \<Rightarrow> registry \<Rightarrow> SessionReport" where
  "restoreReport asked r =
     (let asked = (if length asked = 0 then known_names r else asked)
      in \<lparr>rep_Complete = reg_readStore r, rep_Sessions = sort_key oc_Session (map (report_one r) asked)\<rparr>)"

record SessionCloseResult =
  scr_Session :: string
  scr_Closed :: bool
  scr_Held :: bool

definition closeSession :: "time \<Rightarrow> (u64 \<Rightarrow> string list) \<Rightarrow> string \<Rightarrow> host \<Rightarrow> SessionCloseResult \<times> host" where
  "closeSession now tmps name h = (case sessionNumber name of
     None \<Rightarrow> (\<lparr>scr_Session = name, scr_Closed = True, scr_Held = False\<rparr>, h)
   | Some n \<Rightarrow>
       (let held = (map_of (reg_sessions (h_reg h)) n \<noteq> None)
        in case reg_close now tmps n h of
             (x, h) \<Rightarrow> (\<lparr>scr_Session = name, scr_Closed = \<not> ((case x of Inl _ \<Rightarrow> True | Inr _ \<Rightarrow> False) \<and> held), scr_Held = held\<rparr>, h)))"

subsection \<open>What the ring holds after a restore\<close>

definition line_break_after :: "byte list \<Rightarrow> byte list" where
  "line_break_after out = (if out \<noteq> [] \<and> last out \<noteq> 10 then shellBoundary else [])"

lemma tail_of_empty_iff: "0 < k \<Longrightarrow> tail_of k out = [] \<longleftrightarrow> out = []"
  by (metis bot_nat_0.extremum_unique leD length_0_conv length_tail_of min_def)

lemma last_tail_of: "0 < k \<Longrightarrow> out \<noteq> [] \<Longrightarrow> tail_of k out \<noteq> [] \<and> last (tail_of k out) = last out"
  using tail_of_empty_iff [of k out] by (simp add: tail_of_def last_drop)

lemma u64_of_unat: "unat (a :: u64) = k \<Longrightarrow> a = of_nat k"
  by auto

lemma refill_holds:
  assumes "contract_ok c" and "ses_ring s = newRing c (int (HighWatermark c))" and "length out + 2 < 2 ^ 64"
  shows "let s' = refill c (tail_of (HighWatermark c) out) (len64 out) s; all = out @ line_break_after out
    in ring_ok c (ses_ring s') \<and> ring_holds (ses_ring s') all \<and> ses_written s' = len64 all
      \<and> s' = s\<lparr>ses_ring := ses_ring s', ses_written := ses_written s',
          ses_feed := (if line_break_after out = [] then ses_feed s
            else map_option (\<lambda>f. snd (feed_offer f shellBoundary (len64 all))) (ses_feed s))\<rparr>"
proof -
  define data where "data = tail_of (HighWatermark c) out"
  define pre where "pre = take (length out - length data) out"
  define r where "r = ring_restore c (newRing c (int (HighWatermark c))) data (len64 out)"
  have hw: "0 < HighWatermark c" "HighWatermark c < 2 ^ 62" using assms(1) by (auto simp: contract_ok_def)
  have len: "unat (len64 out :: u64) = length out" using assms(3) by (simp add: unat_of_nat_small)
  have out: "pre @ data = out" by (simp add: pre_def data_def tail_of_def)
  have "length pre + length data = max (unat (len64 out :: u64)) (length data)"
    using len arg_cong [OF out, of length] by (simp add: data_def)
  from ring_restore_holds [OF assms(1), of "int (HighWatermark c)" data pre "len64 out"] this hw assms(3)
  have r: "ring_ok c r" "ring_holds r out" "unat (ring_live r) = length out"
    using len by (auto simp: r_def out) (auto simp: data_def)
  have live: "ring_live r = len64 out" using r(3) by (rule u64_of_unat)
  have wf: "ring_wf r" using r(1) by (simp add: ring_ok_def)
  obtain r' written woken where w: "ring_write c r shellBoundary = (r', written, woken)" by (metis prod_cases3)
  have w': "ring_ok c r'" "ring_holds r' (out @ shellBoundary)" "written = len64 (out @ shellBoundary)"
  proof -
    show ok: "ring_ok c r'" using ring_write_ok [OF r(1), of shellBoundary] r(3) w assms(3) by (simp add: shellBoundary_def)
    show holds: "ring_holds r' (out @ shellBoundary)"
      using ring_holds_write [OF wf r(2), of shellBoundary c] w assms(3) by (simp add: shellBoundary_def)
    have "written = ring_live r'" using w by (auto simp: ring_write_def wakeLocked_def ring_live_def Let_def)
    moreover have "unat (ring_live r') = length (out @ shellBoundary)"
      using ring_holds_live [OF _ holds] ok by (simp add: ring_ok_def)
    ultimately show "written = len64 (out @ shellBoundary)" using u64_of_unat by blast
  qed
  have brk: "length data > 0 \<and> last data \<noteq> 10 \<longleftrightarrow> line_break_after out \<noteq> []"
    using last_tail_of [OF hw(1), of out] tail_of_empty_iff [OF hw(1), of out] hw(1)
    by (auto simp: line_break_after_def data_def shellBoundary_def)
  show ?thesis
  proof (cases "line_break_after out = []")
    case True
    then have "refill c data (len64 out) s = s\<lparr>ses_ring := r, ses_written := len64 out\<rparr>"
      using brk by (auto simp: refill_def assms(2) r_def [symmetric] ring_snapshot_def live Let_def)
    with True r show ?thesis by (simp add: data_def [symmetric] Let_def)
  next
    case False
    then have "line_break_after out = shellBoundary" by (auto simp: line_break_after_def split: if_splits)
    moreover have "refill c data (len64 out) s = s\<lparr>ses_ring := r', ses_written := written,
        ses_feed := map_option (\<lambda>f. snd (feed_offer f shellBoundary written)) (ses_feed s)\<rparr>"
      using brk False w by (simp add: refill_def assms(2) r_def [symmetric] ring_snapshot_def live Let_def)
    ultimately show ?thesis using False w' by (simp add: data_def [symmetric] Let_def)
  qed
qed

subsection \<open>One session\<close>

text \<open>What a record says a session was created with.\<close>

definition same_facts :: "sessionRecord \<Rightarrow> session \<Rightarrow> bool" where
  "same_facts r s \<longleftrightarrow> ses_paneID s = rec_PaneID r \<and> ses_windowLabel s = rec_WindowLabel r \<and> ses_cwd s = rec_CWD r
     \<and> ses_command s = rec_Command r \<and> ses_environment s = rec_Environment r
     \<and> ses_cols s = rec_Cols r \<and> ses_rows s = rec_Rows r"

definition restored_shell :: "sessionRecord \<Rightarrow> registry \<Rightarrow> string" where
  "restored_shell r g = (if Shell r = [] then reg_shell g else Shell r)"

definition restored_feed :: "u64 \<Rightarrow> byte list \<Rightarrow> storeFeed" where
  "restored_feed n out = (if line_break_after out = [] then newStoreFeed n
     else (newStoreFeed n)\<lparr>feed_pending := [\<lparr>chunk_data = shellBoundary, chunk_through = len64 (out @ shellBoundary)\<rparr>], feed_queued := 2\<rparr>)"

text \<open>The session a restore makes of a record whose output reads back as \<open>out\<close>.\<close>

definition restored_ok :: "contract \<Rightarrow> u64 \<Rightarrow> u32 \<Rightarrow> sessionRecord \<Rightarrow> byte list \<Rightarrow> session \<Rightarrow> bool" where
  "restored_ok c n pid r out s \<longleftrightarrow> ses_id s = n \<and> ses_pid s = pid \<and> same_facts r s \<and> \<not> ses_closed s
     \<and> ring_ok c (ses_ring s) \<and> ring_holds (ses_ring s) (out @ line_break_after out)
     \<and> ses_written s = len64 (out @ line_break_after out)
     \<and> ses_store s \<and> ses_feed s = Some (restored_feed n out)
     \<and> ses_detachedAt s = None \<and> ses_displaying s = [] \<and> \<not> ses_rendererAttached s"

lemma refill_restored:
  assumes "contract_ok c" and "length out + 2 < 2 ^ 64"
  shows "restored_ok c n pid r out (refill c (tail_of (HighWatermark c) out) (len64 out)
    ((fresh_session c now n g pid (rec_PaneID r) (rec_WindowLabel r) (rec_CWD r) (rec_Command r) (rec_Cols r) (rec_Rows r)
        (rec_Environment r))\<lparr>ses_store := True, ses_feed := Some (newStoreFeed n)\<rparr>))"
proof -
  define s where "s = (fresh_session c now n g pid (rec_PaneID r) (rec_WindowLabel r) (rec_CWD r) (rec_Command r)
      (rec_Cols r) (rec_Rows r) (rec_Environment r))\<lparr>ses_store := True, ses_feed := Some (newStoreFeed n)\<rparr>"
  define s' where "s' = refill c (tail_of (HighWatermark c) out) (len64 out) s"
  have "ses_ring s = newRing c (int (HighWatermark c))" by (simp add: s_def fresh_session_def)
  note h = refill_holds [OF assms(1) this assms(2), unfolded Let_def, folded s'_def]
  then have eq: "s' = s\<lparr>ses_ring := ses_ring s', ses_written := ses_written s', ses_feed := Some (restored_feed n out)\<rparr>"
    by (auto simp: s_def restored_feed_def newStoreFeed_def feed_offer_def feedDepth_def shellBoundary_def line_break_after_def
        split: if_splits)
  have "restored_ok c n pid r out (s\<lparr>ses_ring := ses_ring s', ses_written := ses_written s', ses_feed := Some (restored_feed n out)\<rparr>)"
    using h by (simp add: restored_ok_def same_facts_def s_def fresh_session_def)
  then show ?thesis unfolding eq [symmetric] by (simp add: s'_def s_def)
qed

text \<open>A store that reads a record and its output, whatever later calls do.\<close>

definition reads :: "contract \<Rightarrow> u64 \<Rightarrow> store \<Rightarrow> sessionRecord \<Rightarrow> bool" where
  "reads c n d r \<longleftrightarrow> (\<exists>d1 v d2. store_read n (st_disk d) = (Inr r, d1)
     \<and> store_output n (int (HighWatermark c)) (d\<lparr>st_disk := d1\<rparr>) = (Inr v, d2))"

lemma reads_healthy:
  assumes "stored_log n d out" and "faults (st_disk d) = []" and "shown n d = Some r"
  shows "reads c n d r"
proof -
  have "store_read n (st_disk d) = (Inr r, st_disk d)"
    using assms(1,2,3) by (auto simp: stored_log_def shown_def recorded_def healthy_simps split: option.splits body.splits if_splits)
  moreover obtain v where "store_output n (int (HighWatermark c)) d = (Inr v, d)"
    using store_output_healthy [OF assms(1,2)] by blast
  ultimately show ?thesis unfolding reads_def by (metis store.surjective store.update_convs(1))
qed

text \<open>On a disk whose calls succeed the stop mark is taken off the record.\<close>

definition rewritable :: "string \<Rightarrow> u64 \<Rightarrow> store \<Rightarrow> bool" where
  "rewritable tmp n d \<longleftrightarrow> faults (st_disk d) = [] \<and> entry (st_disk d) (stagedPath n tmp) = None"

lemma reads_rewritable:
  assumes "rewritable tmp n d" and "stored_log n d out" and "store_read n (st_disk d) = (Inr r, d1)"
    and "store_output n k (d\<lparr>st_disk := d1\<rparr>) = (v, d2)"
  shows "d2 = d"
proof -
  obtain q where "recorded n q (st_disk d)" using assms(2) by (auto simp: stored_log_def)
  then have "d1 = st_disk d" using assms(1,3) by (simp add: rewritable_def healthy_simps)
  with store_output_healthy [OF assms(2), of k] assms(1,4) show ?thesis by (auto simp: rewritable_def)
qed

lemma clearStopMark_clears:
  assumes "rewritable tmp n d" and "stored_log n d out" and "shown n d = Some r"
    and "clearStopMark tmp n d = (x, d')"
  shows "shown n d' = Some (intended WriteClear r)"
proof -
  have r: "recorded n r (st_disk d)" and at_n: "rec_Session r = n"
    using assms(2,3) by (auto simp: stored_log_def shown_def recorded_def split: option.splits body.splits if_splits)
  obtain dd where "rewrite store_write tmp n (intended WriteClear) (st_disk d) = (Inr (), dd)"
    using rewrite_healthy [of "st_disk d" n r tmp "intended WriteClear"] assms(1) r by (auto simp: rewritable_def)
  moreover have "clearStopMark tmp n d = update_record store_write tmp n (intended WriteClear) d"
    unfolding clearStopMark_def intended.simps(2) [abs_def] ..
  ultimately have "x = Inr ()" using assms(4) by (simp add: update_record_def)
  moreover have "record_written tmp n (intended WriteClear) d x d'"
    using store_rewrite_unmarked [of tmp n WriteClear d x d'] assms(4) by simp
  ultimately have "entry (st_disk d') (recordPath (rec_Session r)) = Some (RecordFile (intended WriteClear r))"
    using assms(3) unfolding record_written_def published_def intended_frame by auto
  then show ?thesis by (simp add: shown_def at_n)
qed

lemma restoreOne_restored:
  assumes "contract_ok c" and "int (HighWatermark c) \<le> outputSegmentBound" and "length out + 2 < 2 ^ 64"
    and "stored_log n (h_store h) out" and "reads c n (h_store h) r" and "\<not> reg_stopped (h_reg h)"
    and "pf_start pf (restored_shell r (h_reg h)) (rec_CWD r) (rec_Environment r) (rec_Cols r) (rec_Rows r) = Inr pid"
  shows "\<exists>s d led. restoreOne c pf now tmp n h =
      (\<lparr>oc_Session = sessionText n,
        oc_Outcome = (if rec_EndedAtUnixMs r \<noteq> None \<and> rec_EndedThrough r \<le> len64 out then SessionFull else SessionDegraded),
        oc_Reason = NoReason\<rparr>,
       h\<lparr>h_reg := (h_reg h)\<lparr>reg_generation := reg_generation (h_reg h) + 1,
            reg_sessions := AList.update n s (reg_sessions (h_reg h))\<rparr>, h_store := d, h_ledger := led\<rparr>)
    \<and> restored_ok c n pid r out s \<and> ses_generation s = reg_generation (h_reg h) + 1
    \<and> stored_log n d out \<and> (shown n d = Some r \<or> shown n d = Some (intended WriteClear r))
    \<and> (rewritable tmp n (h_store h) \<longrightarrow> shown n d = Some (intended WriteClear r))"
proof -
  obtain d1 data through d2 where rd: "store_read n (st_disk (h_store h)) = (Inr r, d1)"
      and so: "store_output n (int (HighWatermark c)) ((h_store h)\<lparr>st_disk := d1\<rparr>) = (Inr (data, through), d2)"
    using assms(5) by (auto simp: reads_def)
  have e1: "entry d1 = entry (st_disk (h_store h))" using store_read_files [OF rd] by (simp add: fun_eq_iff)
  have l1: "stored_log n ((h_store h)\<lparr>st_disk := d1\<rparr>) out"
    by (rule stored_log_entries [OF assms(4)]) (auto simp: e1 heldWriter_def)
  from stored_log_output [OF l1 so] assms(2)
  have o: "unat through = length out" "data = tail_of (HighWatermark c) out"
      "d2 = (h_store h)\<lparr>st_disk := st_disk d2\<rparr>" "files (st_disk d2) = files d1"
    by (cases "h_store h"; auto)+
  have th: "through = len64 out" using o(1) by (rule u64_of_unat)
  have e2: "entry (st_disk d2) = entry (st_disk (h_store h))" using o(4) e1 by (simp add: fun_eq_iff)
  have "st_open d2 = st_open (h_store h)" using arg_cong [OF o(3), of st_open] by simp
  then have l2: "stored_log n d2 out"
    by (intro stored_log_entries [OF assms(4)]) (use e2 in \<open>auto simp: heldWriter_def\<close>)
  obtain x d where cl: "clearStopMark tmp n d2 = (x, d)" by fastforce
  then have rw: "store_rewrite tmp n WriteClear d2 = (x, d)" by simp
  have l3: "stored_log n d out" using stored_log_rewrite [OF rw l2] .
  have sh: "shown n d2 = Some r"
    using store_read_Inr [OF rd] e2 by (auto simp: shown_def)
  have at_n: "rec_Session r = n" using store_read_Inr [OF rd] by simp
  have "entry (st_disk d) (recordPath n) = Some (RecordFile (intended WriteClear r))
      \<or> entry (st_disk d) (recordPath n) = entry (st_disk d2) (recordPath n)"
  proof -
    have "record_written tmp n (intended WriteClear) d2 x d" using store_rewrite_unmarked [OF rw] by simp
    then consider "published tmp (intended WriteClear r) (st_disk d2) x (st_disk d)" | "entry (st_disk d) = entry (st_disk d2)"
      using sh by (auto simp: record_written_def)
    then show ?thesis
    proof cases
      case 1
      then have "entry (st_disk d) (recordPath (rec_Session r)) = Some (RecordFile (intended WriteClear r))
          \<or> entry (st_disk d) (recordPath (rec_Session r)) = entry (st_disk d2) (recordPath (rec_Session r))"
        unfolding published_def intended_frame by blast
      then show ?thesis by (simp add: at_n)
    qed simp
  qed
  then have after: "shown n d = Some r \<or> shown n d = Some (intended WriteClear r)"
    using sh at_n unfolding shown_def by (elim disjE) simp_all
  have cleared: "rewritable tmp n (h_store h) \<longrightarrow> shown n d = Some (intended WriteClear r)"
    using reads_rewritable [OF _ assms(4) rd so] clearStopMark_clears [OF _ l2 sh cl] by auto
  define s where "s = refill c data through ((fresh_session c now n (reg_generation (h_reg h) + 1) pid (rec_PaneID r)
      (rec_WindowLabel r) (rec_CWD r) (rec_Command r) (rec_Cols r) (rec_Rows r) (rec_Environment r))
      \<lparr>ses_store := True, ses_feed := Some (newStoreFeed n)\<rparr>)"
  have ok: "restored_ok c n pid r out s"
    unfolding s_def o(2) th by (rule refill_restored [OF assms(1,3)])
  have gen: "ses_generation s = reg_generation (h_reg h) + 1"
    by (auto simp: s_def refill_def fresh_session_def Let_def split: prod.splits)
  have "restoreOne c pf now tmp n h =
      (\<lparr>oc_Session = sessionText n,
        oc_Outcome = (if rec_EndedAtUnixMs r \<noteq> None \<and> rec_EndedThrough r \<le> len64 out then SessionFull else SessionDegraded),
        oc_Reason = NoReason\<rparr>,
       h\<lparr>h_reg := (h_reg h)\<lparr>reg_generation := reg_generation (h_reg h) + 1,
            reg_sessions := AList.update n s (reg_sessions (h_reg h))\<rparr>, h_store := d,
          h_ledger := (if reg_bound (h_reg h) then h_ledger h @ [LedgerStarted n] else h_ledger h)\<rparr>)"
    using rd so assms(6,7) cl ok
    by (cases "reg_bound (h_reg h)")
      (simp_all add: restoreOne_def Let_def restored_shell_def [symmetric] put_session_def tell_ledger_def restored_ok_def th
        s_def [unfolded th, symmetric])
  with after cleared ok gen l3 show ?thesis by blast
qed

subsection \<open>From a clean stop to the next start\<close>




lemma markEnded_marks:
  assumes "markEnded tmp n at exitCode through d = (Inr (), d1)" and "stored_log n d out" and "shown n d = Some r"
  shows "stored_log n d1 out \<and> shown n d1 = Some (intended (WriteMark at exitCode through) r)"
proof -
  have rw: "store_rewrite tmp n (WriteMark at exitCode through) d = (Inr (), d1)" using assms(1) by simp
  have at_n: "rec_Session r = n" using assms(3) by (auto simp: shown_def split: option.splits body.splits if_splits)
  have "record_written tmp n (intended (WriteMark at exitCode through)) d (Inr ()) d1"
    using store_rewrite_written [OF rw stored_log_agrees [OF assms(2)]] .
  then have "published tmp (intended (WriteMark at exitCode through) r) (st_disk d) (Inr ()) (st_disk d1)"
    using assms(3) by (auto simp: record_written_def)
  then have "entry (st_disk d1) (recordPath n) = Some (RecordFile (intended (WriteMark at exitCode through) r))"
    unfolding published_def intended_frame at_n by blast
  with stored_log_rewrite [OF rw assms(2)] at_n show ?thesis by (simp add: shown_def)
qed













text \<open>C21. What a start answers for a session is exactly what came back. Full means the record carried the
  mark of a clean stop and the stored output reaches the coordinate that mark names; any other
  session that stands again is degraded; and whatever the answer, the restored ring represents
  exactly the output the store still has, at its coordinates. The record of a session that runs
  again no longer reads as stopped when the disk's calls succeed and the staging name is free;
  when the rewrite fails, the record is either the old one or the cleared one, never another.\<close>

theorem restored_session_continues:
  assumes "contract_ok c" and "int (HighWatermark c) \<le> outputSegmentBound" and "length out + 2 < 2 ^ 64"
    and "stored_log n (h_store h) out" and "reads c n (h_store h) r" and "\<not> reg_stopped (h_reg h)"
    and "pf_start pf (restored_shell r (h_reg h)) (rec_CWD r) (rec_Environment r) (rec_Cols r) (rec_Rows r) = Inr pid"
    and "restoreOne c pf now tmp n h = (outcome, h')"
  shows "(oc_Outcome outcome = SessionFull \<longleftrightarrow> rec_EndedAtUnixMs r \<noteq> None \<and> unat (rec_EndedThrough r) \<le> length out)
    \<and> (oc_Outcome outcome = SessionFull \<or> oc_Outcome outcome = SessionDegraded)
    \<and> (\<exists>s. reg_get n (h_reg h') = Some s \<and> restored_ok c n pid r out s \<and> \<not> abandonedSince moment s)
    \<and> (\<exists>r'. shown n (h_store h') = Some r' \<and> (r' = r \<or> rec_EndedAtUnixMs r' = None \<and> rec_EndedThrough r' = 0))
    \<and> (faults (st_disk (h_store h)) = [] \<and> entry (st_disk (h_store h)) (stagedPath n tmp) = None \<longrightarrow>
        shown n (h_store h') =
          Some (r\<lparr>rec_EndedAtUnixMs := None, rec_ExitCode := None, rec_EndedThrough := 0\<rparr>))"
proof -
  have le: "rec_EndedThrough r \<le> len64 out \<longleftrightarrow> unat (rec_EndedThrough r) \<le> length out"
    using assms(3) by (simp add: word_le_nat_alt unat_of_nat_small)
  from restoreOne_restored [OF assms(1-7), of now tmp] assms(8) show ?thesis
    by (auto simp: le reg_get_def AList.update_conv' restored_ok_def abandonedSince_def rewritable_def)
qed

definition marked_store :: store where
  "marked_store = snd (markEnded ''m'' 7 (UnixMilli 9) None 0 created_store)"

lemma marked_store_marked:
  "stored_log 7 marked_store []" "faults (st_disk marked_store) = []"
  "entry (st_disk marked_store) (stagedPath 7 ''z'') = None"
  "shown 7 marked_store = Some (sample_record\<lparr>rec_EndedThrough := 0, rec_EndedAtUnixMs := Some (UnixMilli 9), rec_ExitCode := None\<rparr>)"
proof -
  have m: "markEnded ''m'' 7 (UnixMilli 9) None 0 created_store = (Inr (), marked_store)"
    and "faults (st_disk marked_store) = []" "entry (st_disk marked_store) (stagedPath 7 ''z'') = None"
    by (simp_all add: marked_store_def markEnded_def created_store_def heldWriter_def update_record_def rewrite_def
        store_read_def writeDurable_def publish_def os_defs sample_record_def mark_record_def recordLock_def syncDir_def)
  then show "faults (st_disk marked_store) = []" "entry (st_disk marked_store) (stagedPath 7 ''z'') = None" by simp_all
  have sh: "shown 7 created_store = Some sample_record" by (simp add: shown_def created_store_def sample_record_def)
  from markEnded_marks [OF m created_store_log sh]
  show "stored_log 7 marked_store []"
    "shown 7 marked_store = Some (sample_record\<lparr>rec_EndedThrough := 0, rec_EndedAtUnixMs := Some (UnixMilli 9), rec_ExitCode := None\<rparr>)"
    by simp_all
qed

theorem restored_session_continues_witness:
  "\<exists>outcome h'. restoreOne small_contract sample_platform 20 ''z'' 7
      (new_host ((newRegistry 1 2 ''sh'')\<lparr>reg_store := True\<rparr>) marked_store) = (outcome, h')
    \<and> oc_Outcome outcome = SessionFull \<and> map_option rec_EndedAtUnixMs (shown 7 marked_store) = Some (Some (UnixMilli 9))
    \<and> map_option rec_EndedAtUnixMs (shown 7 (h_store h')) = Some None"
proof -
  let ?h = "new_host ((newRegistry 1 2 ''sh'')\<lparr>reg_store := True\<rparr>) marked_store"
  let ?r = "sample_record\<lparr>rec_EndedThrough := 0, rec_EndedAtUnixMs := Some (UnixMilli 9), rec_ExitCode := None\<rparr>"
  obtain outcome h' where r: "restoreOne small_contract sample_platform 20 ''z'' 7 ?h = (outcome, h')" by fastforce
  have 1: "int (HighWatermark small_contract) \<le> outputSegmentBound" "length ([] :: byte list) + 2 < 2 ^ 64"
    by (simp_all add: small_contract_def outputSegmentBound_def)
  have 2: "stored_log 7 (h_store ?h) []" "\<not> reg_stopped (h_reg ?h)"
      "pf_start sample_platform (restored_shell ?r (h_reg ?h)) (rec_CWD ?r) (rec_Environment ?r)
        (rec_Cols ?r) (rec_Rows ?r) = Inr 41"
    using marked_store_marked(1)
    by (simp_all add: new_host_def newRegistry_def sample_platform_def restored_shell_def Shell_def sample_record_def)
  have 3: "reads small_contract 7 (h_store ?h) ?r"
    by (rule reads_healthy [OF 2(1)]) (simp_all add: new_host_def marked_store_marked)
  have 4: "faults (st_disk (h_store ?h)) = []" "entry (st_disk (h_store ?h)) (stagedPath 7 ''z'') = None"
    by (simp_all add: new_host_def marked_store_marked)
  from restored_session_continues [OF small_contract_ok 1 2(1) 3 2(2,3) r] r 4 show ?thesis
    by (auto simp: marked_store_marked(4))
qed

end
