(* ===== verification/Monitor.thy ===== *)
theory Monitor
  imports Inventory Watch Registry
begin

section \<open>Process monitoring (process_monitor.go, and the records of control.go)\<close>

text \<open>
  What joins the process tree, its watch and the inventory for every session. A monitor is shared by
  pointer between the daemon's table and the native watch that calls it back, so monitors live in a
  heap by address. Of its session a monitor reads only facts that are fixed when the session is
  created, so it holds them by value. What the operating system answers during one call (the process
  table, the working directories, the kernel queue, the terminal's foreground group and the clock)
  is an argument, \<open>os_answers\<close>. Every operation is written as the sections it runs under the locks
  of the daemon and of a monitor, and the interleaving of those sections is a step relation.
\<close>

subsection \<open>Data\<close>

datatype monitor_error = ObserveError watch_error | TreeError u64 tree_error | WatchError u64 watch_error

datatype tree_source = UnixTree | WindowsTree

datatype event_source = UnsupportedEvents | DarwinEvents

record os_answers =
  os_table :: "string + string"
  os_cwd :: "u32 \<Rightarrow> cwd_result"
  os_kqueue :: "string + int"
  os_add :: "u32 \<Rightarrow> kevent_result"
  os_shut :: "(bool \<times> string) option"
  os_group :: u32
  os_now :: time
  os_tmp :: string

record processSessionMonitor =
  mon_session :: session
  mon_watch :: "watch option"
  mon_closed :: bool
  mon_lastError :: "monitor_error option"
  mon_foreground :: string
  mon_foregroundCWD :: string

text \<open>
  The fields of the daemon that monitoring uses. \<open>dm_pid\<close> is the daemon's own process and
  \<open>dm_released\<close> keeps the watches that monitors let go of.
\<close>

record monitoring =
  dm_host :: host
  dm_identity :: string
  dm_pid :: u32
  dm_setup :: bool
  dm_state :: processInventoryState
  dm_sessions :: "(u64 \<times> nat) list"
  dm_tree :: "tree_source option"
  dm_events :: "event_source option"
  dm_monitors :: "nat \<Rightarrow> processSessionMonitor"
  dm_next :: nat
  dm_released :: "watch list"

definition componentID :: string where
  "componentID = ''soksak-sidecar-pty''"

subsection \<open>The platform's boundaries\<close>

definition newProcessTreeReader :: "bool \<Rightarrow> tree_source" where
  "newProcessTreeReader windows = (if windows then WindowsTree else UnixTree)"

definition newProcessTreeEventSource :: "bool \<Rightarrow> event_source" where
  "newProcessTreeEventSource darwin = (if darwin then DarwinEvents else UnsupportedEvents)"

definition read_tree :: "os_answers \<Rightarrow> tree_source \<Rightarrow> u32 \<Rightarrow> tree_error + processTreeEntry list" where
  "read_tree os tree root = (case tree of
     UnixTree \<Rightarrow> Descendants (os_cwd os) (os_table os) root | WindowsTree \<Rightarrow> windowsDescendants root)"

definition events_supported :: "event_source \<Rightarrow> watch_error + unit" where
  "events_supported source = (case source of
     UnsupportedEvents \<Rightarrow> unsupportedSupported | DarwinEvents \<Rightarrow> darwinSupported)"

definition observe_root :: "os_answers \<Rightarrow> event_source \<Rightarrow> u32 \<Rightarrow> watch_error + watch" where
  "observe_root os source root = (case source of
     UnsupportedEvents \<Rightarrow> unsupportedObserve root
   | DarwinEvents \<Rightarrow> darwinObserve (os_kqueue os) (os_add os) root)"

subsection \<open>Records\<close>

definition optionalString :: "string \<Rightarrow> string option" where
  "optionalString text = (if text = [] then None else Some text)"

definition shell_record_id :: "u64 \<Rightarrow> string" where
  "shell_record_id n = ''pty-session-'' @ format_uint n"

definition child_record_id :: "u64 \<Rightarrow> u32 \<Rightarrow> string" where
  "child_record_id n pid = ''pty-session-'' @ format_uint n @ ''-process-'' @ format_nat (unat pid)"

definition processRecord :: "string \<Rightarrow> u32 \<Rightarrow> session \<Rightarrow> string \<Rightarrow> int option \<Rightarrow> Process" where
  "processRecord identity getpid s state endedAt = \<lparr>prc_ID = shell_record_id (ses_id s), prc_Owner = identity,
     prc_Window = optionalString (ses_windowLabel s), prc_Pane = optionalString (ses_paneID s),
     prc_CWD = ses_cwd s, prc_PID = ses_pid s, prc_ParentPID = getpid, prc_Command = ses_command s,
     prc_State = state, prc_StartedAtUnixMs = UnixMilli (ses_startedAt s), prc_EndedAtUnixMs = endedAt\<rparr>"

definition descendantRecord :: "string \<Rightarrow> session \<Rightarrow> processTreeEntry \<Rightarrow> Process" where
  "descendantRecord identity s child = \<lparr>prc_ID = child_record_id (ses_id s) (ent_PID child), prc_Owner = identity,
     prc_Window = optionalString (ses_windowLabel s), prc_Pane = optionalString (ses_paneID s),
     prc_CWD = ent_CWD child, prc_PID = ent_PID child, prc_ParentPID = ent_ParentPID child,
     prc_Command = ent_Command child, prc_State = ''running'',
     prc_StartedAtUnixMs = UnixMilli (ses_startedAt s), prc_EndedAtUnixMs = None\<rparr>"

subsection \<open>The program in front\<close>

definition foregroundOf :: "processTreeEntry list \<Rightarrow> u32 \<Rightarrow> u32 \<Rightarrow> string \<times> string" where
  "foregroundOf entries shell grp =
     (if grp = shell then ([], [])
      else if grp \<noteq> 0 then
        (case List.find (\<lambda>child. ent_ParentPID child = shell \<and> ent_GroupID child = grp) entries of
           Some child \<Rightarrow> (ent_Command child, ent_CWD child) | None \<Rightarrow> ([], []))
      else (case List.find (\<lambda>child. ent_ParentPID child = shell) entries of
           Some child \<Rightarrow> (ent_Command child, ent_CWD child) | None \<Rightarrow> ([], [])))"

abbreviation upd_mon :: "nat \<Rightarrow> (processSessionMonitor \<Rightarrow> processSessionMonitor) \<Rightarrow> monitoring \<Rightarrow> monitoring" where
  "upd_mon r f d \<equiv> d\<lparr>dm_monitors := (dm_monitors d)(r := f (dm_monitors d r))\<rparr>"

definition recordForeground :: "os_answers \<Rightarrow> processTreeEntry list \<Rightarrow> nat \<Rightarrow> monitoring \<Rightarrow> monitoring" where
  "recordForeground os entries r d =
     (if \<not> sessionStore (h_reg (dm_host d)) then d
      else (let m = dm_monitors d r;
                s = mon_session m;
                (command, cwd) = foregroundOf entries (ses_pid s) (os_group os)
        in if command = mon_foreground m \<and> cwd = mon_foregroundCWD m then d
           else (case setForeground (os_tmp os) (ses_id s) command cwd (h_store (dm_host d)) of
               (Inl e, st) \<Rightarrow> d\<lparr>dm_host := (dm_host d)\<lparr>h_store := st\<rparr>\<rparr>
             | (Inr _, st) \<Rightarrow> upd_mon r (\<lambda>m. m\<lparr>mon_foreground := command, mon_foregroundCWD := cwd\<rparr>)
                 (d\<lparr>dm_host := (dm_host d)\<lparr>h_store := st\<rparr>\<rparr>))))"

subsection \<open>Reconciling\<close>

definition replace_records :: "u64 \<Rightarrow> Process list \<Rightarrow> int \<Rightarrow> monitoring \<Rightarrow> monitoring" where
  "replace_records n records at d = d\<lparr>dm_state := snd (replaceSession n records at (dm_state d))\<rparr>"

definition commit_records :: "os_answers \<Rightarrow> Process list \<Rightarrow> nat \<Rightarrow> monitoring \<Rightarrow> monitoring" where
  "commit_records os records r d =
     replace_records (ses_id (mon_session (dm_monitors d r))) records (UnixMilli (os_now os))
       (upd_mon r (\<lambda>m. m\<lparr>mon_lastError := None\<rparr>) d)"

text \<open>The entries a watch leaves of a snapshot, with the watch it leaves; no watch leaves all of them.\<close>

definition sync_watch :: "os_answers \<Rightarrow> processTreeEntry list \<Rightarrow> watch option
    \<Rightarrow> (watch_error + processTreeEntry list) \<times> watch option" where
  "sync_watch os entries wo = (case wo of
     None \<Rightarrow> (Inr entries, None)
   | Some w \<Rightarrow> map_prod id Some (Sync (os_add os) entries w))"

definition reconcile :: "os_answers \<Rightarrow> nat \<Rightarrow> monitoring \<Rightarrow> monitoring" where
  "reconcile os r d =
     (let m = dm_monitors d r; s = mon_session m
      in if mon_closed m then d
         else (let records = [processRecord (dm_identity d) (dm_pid d) s ''running'' None]
           in case dm_tree d of
                None \<Rightarrow> commit_records os records r d
              | Some tree \<Rightarrow> (case read_tree os tree (ses_pid s) of
                  Inl e \<Rightarrow> upd_mon r (\<lambda>m. m\<lparr>mon_lastError := Some (TreeError (ses_id s) e)\<rparr>) d
                | Inr entries \<Rightarrow> (case sync_watch os entries (mon_watch m) of
                    (Inl e, wo) \<Rightarrow>
                      upd_mon r (\<lambda>m. m\<lparr>mon_watch := wo, mon_lastError := Some (WatchError (ses_id s) e)\<rparr>) d
                  | (Inr entries, wo) \<Rightarrow>
                      commit_records os (records @ map (descendantRecord (dm_identity d) s) entries) r
                        (recordForeground os entries r (upd_mon r (\<lambda>m. m\<lparr>mon_watch := wo\<rparr>) d))))))"

subsection \<open>The life of a monitor\<close>

text \<open>\<open>processSessionStarted\<close> up to its own reconcile: the shell's record and the native watch.\<close>

definition new_monitor :: "os_answers \<Rightarrow> monitoring \<Rightarrow> session \<Rightarrow> processSessionMonitor" where
  "new_monitor os d s = (let source = (case dm_events d of None \<Rightarrow> UnsupportedEvents | Some source \<Rightarrow> source);
       m = \<lparr>mon_session = s, mon_watch = None, mon_closed = False, mon_lastError = None,
            mon_foreground = [], mon_foregroundCWD = []\<rparr>
     in case events_supported source of
          Inl e \<Rightarrow> m\<lparr>mon_lastError := Some (ObserveError e)\<rparr>
        | Inr _ \<Rightarrow> (case observe_root os source (ses_pid s) of
            Inl e \<Rightarrow> m\<lparr>mon_lastError := Some (ObserveError e)\<rparr>
          | Inr w \<Rightarrow> m\<lparr>mon_watch := Some w\<rparr>))"

definition monitor_register :: "os_answers \<Rightarrow> session \<Rightarrow> monitoring \<Rightarrow> nat option \<times> monitoring" where
  "monitor_register os s d =
     (if ses_closed s then (None, d)
      else if map_of (dm_sessions d) (ses_id s) \<noteq> None then (None, d)
      else (let r = dm_next d;
                d1 = d\<lparr>dm_sessions := AList.update (ses_id s) r (dm_sessions d), dm_next := Suc r\<rparr>;
                d2 = replace_records (ses_id s) [processRecord (dm_identity d) (dm_pid d) s ''running'' None]
                       (UnixMilli (os_now os)) d1
        in (Some r, d2\<lparr>dm_monitors := (dm_monitors d2)(r := new_monitor os d2 s)\<rparr>)))"

definition processSessionStarted :: "os_answers \<Rightarrow> session \<Rightarrow> monitoring \<Rightarrow> monitoring" where
  "processSessionStarted os s d = (case monitor_register os s d of
     (None, d) \<Rightarrow> d | (Some r, d) \<Rightarrow> reconcile os r d)"

definition startProcessMonitoring :: "(u64 \<Rightarrow> os_answers) \<Rightarrow> monitoring \<Rightarrow> monitoring" where
  "startProcessMonitoring os d =
     (if dm_setup d then d
      else (let (existing, h) = bindProcessLifecycle (dm_host d);
                d = d\<lparr>dm_host := h, dm_setup := True,
                      dm_identity := (if dm_identity d = [] then componentID else dm_identity d),
                      dm_events := Some (case dm_events d of None \<Rightarrow> UnsupportedEvents | Some source \<Rightarrow> source),
                      dm_state := newProcessInventoryState, dm_sessions := []\<rparr>
        in fold (\<lambda>s. processSessionStarted (os (ses_id s)) s) existing d))"

text \<open>
  The sections of an end: the table is left, the monitor is closed and its watch with it, and the
  records are ended. \<open>monitor_close\<close> is the second and third, \<open>processSessionEnded\<close> all of them.
\<close>

definition monitor_take :: "u64 \<Rightarrow> monitoring \<Rightarrow> nat option \<times> monitoring" where
  "monitor_take n d = (map_of (dm_sessions d) n, d\<lparr>dm_sessions := AList.delete n (dm_sessions d)\<rparr>)"

definition monitor_shut :: "os_answers \<Rightarrow> nat \<Rightarrow> monitoring \<Rightarrow> bool \<times> monitoring" where
  "monitor_shut os r d =
     (if mon_closed (dm_monitors d r) then (False, d)
      else (True, upd_mon r (\<lambda>m. m\<lparr>mon_closed := True, mon_watch := None\<rparr>)
        (case mon_watch (dm_monitors d r) of
           None \<Rightarrow> d
         | Some w \<Rightarrow> d\<lparr>dm_released := snd (watch_close (os_shut os) w) # dm_released d\<rparr>)))"

definition monitor_close :: "os_answers \<Rightarrow> nat \<Rightarrow> int \<Rightarrow> monitoring \<Rightarrow> monitoring" where
  "monitor_close os r endedAt d = (case monitor_shut os r d of
     (False, d) \<Rightarrow> d
   | (True, d) \<Rightarrow> replace_records (ses_id (mon_session (dm_monitors d r))) [] endedAt d)"

definition processSessionEnded :: "os_answers \<Rightarrow> u64 \<Rightarrow> int \<Rightarrow> monitoring \<Rightarrow> monitoring" where
  "processSessionEnded os n endedAt d = (case monitor_take n d of
     (None, d) \<Rightarrow> replace_records n [] endedAt d
   | (Some r, d) \<Rightarrow> monitor_close os r endedAt d)"

subsection \<open>Interleaving\<close>

text \<open>
  Where each session is: announced or not, with its end called, its monitor taken out of the table,
  its monitor closed, or its records ended. A session's end is called once, after its closed flag was
  set (\<open>reap\<close>), so a start that reads the flag under the table's lock reads whether the end was called.
  Between the sections anything may happen: native callbacks reconcile any monitor that was ever
  made, readers come and go at the inventory, and the rest of the daemon changes what is not
  monitoring's own.
\<close>

datatype end_phase = Live | EndCalled int | EndTaken nat int | EndShut int | Ended

record mon_world =
  mw_daemon :: monitoring
  mw_phase :: "u64 \<Rightarrow> end_phase"

inductive mon_step :: "mon_world \<Rightarrow> mon_world \<Rightarrow> bool" where
  register: "ses_closed s \<longleftrightarrow> mw_phase w (ses_id s) \<noteq> Live \<Longrightarrow>
    mon_step w (w\<lparr>mw_daemon := snd (monitor_register os s (mw_daemon w))\<rparr>)"
| changed: "r < dm_next (mw_daemon w) \<Longrightarrow> mon_step w (w\<lparr>mw_daemon := reconcile os r (mw_daemon w)\<rparr>)"
| end_called: "mw_phase w n = Live \<Longrightarrow> mon_step w (w\<lparr>mw_phase := (mw_phase w)(n := EndCalled at)\<rparr>)"
| end_taken: "mw_phase w n = EndCalled at \<Longrightarrow> monitor_take n (mw_daemon w) = (ro, d) \<Longrightarrow>
    mon_step w (w\<lparr>mw_daemon := d,
      mw_phase := (mw_phase w)(n := (case ro of None \<Rightarrow> EndShut at | Some r \<Rightarrow> EndTaken r at))\<rparr>)"
| end_shut: "mw_phase w n = EndTaken r at \<Longrightarrow> monitor_shut os r (mw_daemon w) = (first, d) \<Longrightarrow>
    mon_step w (w\<lparr>mw_daemon := d, mw_phase := (mw_phase w)(n := (if first then EndShut at else Ended))\<rparr>)"
| end_cleared: "mw_phase w n = EndShut at \<Longrightarrow>
    mon_step w (w\<lparr>mw_daemon := replace_records n [] at (mw_daemon w), mw_phase := (mw_phase w)(n := Ended)\<rparr>)"
| reader: "inv_sessions st = inv_sessions (dm_state (mw_daemon w)) \<Longrightarrow>
    inv_processes st = inv_processes (dm_state (mw_daemon w)) \<Longrightarrow>
    mon_step w (w\<lparr>mw_daemon := (mw_daemon w)\<lparr>dm_state := st\<rparr>\<rparr>)"
| elsewhere: "mon_step w (w\<lparr>mw_daemon := (mw_daemon w)\<lparr>dm_host := h\<rparr>\<rparr>)"

definition new_mon_world :: "os_answers \<Rightarrow> monitoring \<Rightarrow> mon_world" where
  "new_mon_world os d = \<lparr>mw_daemon = startProcessMonitoring (\<lambda>_. os) d, mw_phase = \<lambda>_. Live\<rparr>"

subsection \<open>Identifiers\<close>

text \<open>The session an identifier names is read off its digits.\<close>

definition record_tag :: "string \<Rightarrow> u64" where
  "record_tag ident = the (parse_uint (takeWhile is_digit (drop 12 ident)))"

lemma record_tag_shell [simp]: "record_tag (shell_record_id n) = n"
proof -
  have "takeWhile is_digit (format_uint n) = format_uint n" using takeWhile_format [of "[]" n] by simp
  then show ?thesis by (simp add: record_tag_def shell_record_id_def del: takeWhile_eq_all_conv)
qed

lemma record_tag_child [simp]: "record_tag (child_record_id n pid) = n"
  using takeWhile_format [of "''-process-'' @ format_nat (unat pid)" n]
  by (simp add: record_tag_def child_record_id_def is_digit_def)

lemma record_ids_inject [simp]:
  "shell_record_id m = shell_record_id n \<longleftrightarrow> m = n"
  "child_record_id m p = child_record_id n q \<longleftrightarrow> m = n \<and> p = q"
  "shell_record_id m \<noteq> child_record_id n p"
  "child_record_id n p \<noteq> shell_record_id m"
proof -
  show "shell_record_id m = shell_record_id n \<longleftrightarrow> m = n" by (simp add: shell_record_id_def)
  have dash: "\<not> is_digit (hd (''-process-'' @ xs))" for xs by (simp add: is_digit_def)
  show "child_record_id m p = child_record_id n q \<longleftrightarrow> m = n \<and> p = q"
    using format_uint_append_inject [of "''-process-'' @ format_nat (unat p)" "''-process-'' @ format_nat (unat q)" m n] dash
    by (auto simp: child_record_id_def format_nat_inject unsigned_word_eqI)
  show 1: "shell_record_id m \<noteq> child_record_id n p" for m n p
    using format_uint_append_inject [of "[]" "''-process-'' @ format_nat (unat p)" m n] dash
    by (auto simp: child_record_id_def shell_record_id_def)
  show "child_record_id n p \<noteq> shell_record_id m" using 1 [of m n p] by simp
qed

lemma record_ids [simp]:
  "prc_ID (processRecord identity getpid s state endedAt) = shell_record_id (ses_id s)"
  "prc_ID (descendantRecord identity s child) = child_record_id (ses_id s) (ent_PID child)"
  by (simp_all add: processRecord_def descendantRecord_def)

subsection \<open>What each section changes\<close>

definition same_monitors :: "monitoring \<Rightarrow> (nat \<Rightarrow> processSessionMonitor) \<Rightarrow> bool" where
  "same_monitors d ms \<longleftrightarrow> (\<forall>j. mon_session (ms j) = mon_session (dm_monitors d j)
     \<and> mon_closed (ms j) = mon_closed (dm_monitors d j))"

definition session_listing :: "monitoring \<Rightarrow> session \<Rightarrow> processTreeEntry list \<Rightarrow> Process list" where
  "session_listing d s entries =
     processRecord (dm_identity d) (dm_pid d) s ''running'' None # map (descendantRecord (dm_identity d) s) entries"

lemma recordForeground_effect:
  "\<exists>ms h. same_monitors d ms \<and> recordForeground os entries r d = d\<lparr>dm_host := h, dm_monitors := ms\<rparr>"
proof -
  have same: "\<exists>ms h'. same_monitors d ms \<and> d\<lparr>dm_host := h\<rparr> = d\<lparr>dm_host := h', dm_monitors := ms\<rparr>" for h
    by (intro exI [of _ "dm_monitors d"] exI [of _ h]) (simp add: same_monitors_def)
  have moved: "\<exists>ms h'. same_monitors d ms \<and> upd_mon r (\<lambda>m. m\<lparr>mon_foreground := a, mon_foregroundCWD := b\<rparr>) (d\<lparr>dm_host := h\<rparr>)
      = d\<lparr>dm_host := h', dm_monitors := ms\<rparr>" for a b h
    by (intro exI [of _ "(dm_monitors d)(r := (dm_monitors d r)\<lparr>mon_foreground := a, mon_foregroundCWD := b\<rparr>)"] exI [of _ h])
      (simp add: same_monitors_def)
  have "\<exists>ms h'. same_monitors d ms \<and> d = d\<lparr>dm_host := h', dm_monitors := ms\<rparr>" using same [of "dm_host d"] by simp
  then show ?thesis
    using same moved by (simp add: recordForeground_def Let_def split: prod.split sum.split)
qed

text \<open>A reconcile of a closed monitor does nothing; of another it either leaves the inventory or replaces its session's records.\<close>

lemma reconcile_effect:
  "\<exists>ms h. same_monitors d ms \<and> (reconcile os r d = d\<lparr>dm_host := h, dm_monitors := ms\<rparr>
     \<or> \<not> mon_closed (dm_monitors d r) \<and> (\<exists>es. reconcile os r d = replace_records (ses_id (mon_session (dm_monitors d r)))
         (session_listing d (mon_session (dm_monitors d r)) es) (UnixMilli (os_now os)) (d\<lparr>dm_host := h, dm_monitors := ms\<rparr>)))"
proof -
  let ?m = "dm_monitors d r"
  have keep: "\<exists>ms h. same_monitors d ms \<and> upd_mon r f d = d\<lparr>dm_host := h, dm_monitors := ms\<rparr>"
    if "\<And>m. mon_session (f m) = mon_session m" "\<And>m. mon_closed (f m) = mon_closed m" for f
    using that by (intro exI [of _ "(dm_monitors d)(r := f ?m)"] exI [of _ "dm_host d"]) (simp add: same_monitors_def)
  have commit: "\<exists>ms h. same_monitors d ms \<and> commit_records os records r (d\<lparr>dm_host := h0, dm_monitors := ms0\<rparr>)
      = replace_records (ses_id (mon_session ?m)) records (UnixMilli (os_now os)) (d\<lparr>dm_host := h, dm_monitors := ms\<rparr>)"
    if "same_monitors d ms0" for records ms0 h0
    using that
    by (intro exI [of _ "ms0(r := (ms0 r)\<lparr>mon_lastError := None\<rparr>)"] exI [of _ h0])
      (simp add: commit_records_def same_monitors_def)
  consider (closed) "mon_closed ?m" | (none) "\<not> mon_closed ?m" "dm_tree d = None"
    | (tree) t e where "\<not> mon_closed ?m" "dm_tree d = Some t" "read_tree os t (ses_pid (mon_session ?m)) = Inl e"
    | (sync) t es e wo where "\<not> mon_closed ?m" "dm_tree d = Some t" "read_tree os t (ses_pid (mon_session ?m)) = Inr es"
        "sync_watch os es (mon_watch ?m) = (Inl e, wo)"
    | (good) t es es' wo where "\<not> mon_closed ?m" "dm_tree d = Some t" "read_tree os t (ses_pid (mon_session ?m)) = Inr es"
        "sync_watch os es (mon_watch ?m) = (Inr es', wo)"
    by (metis not_None_eq obj_sumE surj_pair)
  then show ?thesis
  proof cases
    case closed
    then have "reconcile os r d = upd_mon r (\<lambda>m. m) d" by (simp add: reconcile_def)
    with keep [of "\<lambda>m. m"] show ?thesis by (metis)
  next
    case none
    have "same_monitors d (dm_monitors d)" by (simp add: same_monitors_def)
    from commit [OF this] obtain ms h where c: "same_monitors d ms"
        "commit_records os (session_listing d (mon_session ?m) []) r (d\<lparr>dm_host := dm_host d, dm_monitors := dm_monitors d\<rparr>)
          = replace_records (ses_id (mon_session ?m)) (session_listing d (mon_session ?m) []) (UnixMilli (os_now os))
              (d\<lparr>dm_host := h, dm_monitors := ms\<rparr>)"
      by blast
    have "reconcile os r d = commit_records os (session_listing d (mon_session ?m) []) r d"
      using none by (simp add: reconcile_def session_listing_def Let_def)
    with c none show ?thesis by (intro exI [of _ ms] exI [of _ h]) auto
  next
    case tree
    then have "reconcile os r d = upd_mon r (\<lambda>m. m\<lparr>mon_lastError := Some (TreeError (ses_id (mon_session ?m)) e)\<rparr>) d"
      by (simp add: reconcile_def Let_def)
    with keep [of "\<lambda>m. m\<lparr>mon_lastError := Some (TreeError (ses_id (mon_session ?m)) e)\<rparr>"] show ?thesis by fastforce
  next
    case sync
    then have "reconcile os r d =
        upd_mon r (\<lambda>m. m\<lparr>mon_watch := wo, mon_lastError := Some (WatchError (ses_id (mon_session ?m)) e)\<rparr>) d"
      by (simp add: reconcile_def Let_def)
    with keep [of "\<lambda>m. m\<lparr>mon_watch := wo, mon_lastError := Some (WatchError (ses_id (mon_session ?m)) e)\<rparr>"]
    show ?thesis by fastforce
  next
    case good
    let ?d = "upd_mon r (\<lambda>m. m\<lparr>mon_watch := wo\<rparr>) d"
    obtain ms h where rf: "same_monitors ?d ms" "recordForeground os es' r ?d = ?d\<lparr>dm_host := h, dm_monitors := ms\<rparr>"
      using recordForeground_effect [of ?d os es' r] by blast
    have "same_monitors d ms" using rf(1) by (simp add: same_monitors_def split: if_splits)
    from commit [OF this] obtain ms2 h2 where c: "same_monitors d ms2"
        "commit_records os (session_listing d (mon_session ?m) es') r (d\<lparr>dm_host := h, dm_monitors := ms\<rparr>)
          = replace_records (ses_id (mon_session ?m)) (session_listing d (mon_session ?m) es') (UnixMilli (os_now os))
              (d\<lparr>dm_host := h2, dm_monitors := ms2\<rparr>)"
      by blast
    have "reconcile os r d = commit_records os (session_listing d (mon_session ?m) es') r (d\<lparr>dm_host := h, dm_monitors := ms\<rparr>)"
      using good rf(2) by (simp add: reconcile_def session_listing_def Let_def)
    with c good(1) show ?thesis by (intro exI [of _ ms2] exI [of _ h2]) auto
  qed
qed

subsection \<open>What holds in every reachable state\<close>

definition mons :: "monitoring \<Rightarrow> u64 \<Rightarrow> nat set" where
  "mons d n = {r. r < dm_next d \<and> ses_id (mon_session (dm_monitors d r)) = n}"

definition record_of :: "monitoring \<Rightarrow> session \<Rightarrow> Process \<Rightarrow> bool" where
  "record_of d s p \<longleftrightarrow> p = processRecord (dm_identity d) (dm_pid d) s ''running'' None
     \<or> (\<exists>child. p = descendantRecord (dm_identity d) s child)"

definition phase_ok :: "monitoring \<Rightarrow> u64 \<Rightarrow> end_phase \<Rightarrow> bool" where
  "phase_ok d n phase = (case phase of
     EndTaken r _ \<Rightarrow> map_of (dm_sessions d) n = None \<and> mons d n = {r} \<and> \<not> mon_closed (dm_monitors d r)
   | EndShut _ \<Rightarrow> map_of (dm_sessions d) n = None \<and> (\<forall>r \<in> mons d n. mon_closed (dm_monitors d r))
   | Ended \<Rightarrow> map_of (dm_sessions d) n = None \<and> (\<forall>r \<in> mons d n. mon_closed (dm_monitors d r))
       \<and> session_records (dm_state d) n = []
   | _ \<Rightarrow> mons d n = set_option (map_of (dm_sessions d) n) \<and> (\<forall>r \<in> mons d n. \<not> mon_closed (dm_monitors d r)))"

definition records_ok :: "monitoring \<Rightarrow> u64 \<Rightarrow> bool" where
  "records_ok d n \<longleftrightarrow>
     (\<forall>p \<in> ran (map_of (session_records (dm_state d) n)). \<exists>r \<in> mons d n. record_of d (mon_session (dm_monitors d r)) p)
   \<and> (\<forall>r. map_of (dm_sessions d) n = Some r \<longrightarrow> map_of (session_records (dm_state d) n) (shell_record_id n)
        = Some (processRecord (dm_identity d) (dm_pid d) (mon_session (dm_monitors d r)) ''running'' None))"

definition mon_ok :: "mon_world \<Rightarrow> bool" where
  "mon_ok w \<longleftrightarrow> inventory_ok record_tag (dm_state (mw_daemon w))
     \<and> (\<forall>n. phase_ok (mw_daemon w) n (mw_phase w n) \<and> records_ok (mw_daemon w) n)"

lemma listing_ids: "\<forall>p \<in> set (session_listing d s es). record_tag (prc_ID p) = ses_id s"
  by (auto simp: session_listing_def)

lemma listing_records: "p \<in> ran (map_of (by_id (session_listing d s es))) \<Longrightarrow> record_of d s p"
proof -
  assume "p \<in> ran (map_of (by_id (session_listing d s es)))"
  then obtain k where "map_of (by_id (session_listing d s es)) k = Some p" by (auto simp: ran_def)
  from by_id_ID [OF this] show ?thesis by (auto simp: session_listing_def record_of_def)
qed

lemma listing_shell:
  "map_of (by_id (session_listing d s es)) (shell_record_id (ses_id s))
     = Some (processRecord (dm_identity d) (dm_pid d) s ''running'' None)"
proof -
  have "map_of (rev (map (\<lambda>p. (prc_ID p, p)) (map (descendantRecord (dm_identity d) s) es))) (shell_record_id (ses_id s)) = None"
    by (auto simp: map_of_eq_None_iff)
  then show ?thesis by (simp add: map_of_by_id session_listing_def map_add_Some_iff)
qed

lemma replace_records_fields [simp]:
  "dm_sessions (replace_records n ps at d) = dm_sessions d" "dm_next (replace_records n ps at d) = dm_next d"
  "dm_monitors (replace_records n ps at d) = dm_monitors d" "dm_identity (replace_records n ps at d) = dm_identity d"
  "dm_pid (replace_records n ps at d) = dm_pid d" "mons (replace_records n ps at d) k = mons d k"
  "record_of (replace_records n ps at d) s p = record_of d s p"
  by (simp_all add: replace_records_def mons_def record_of_def)

lemma replace_records_inventory:
  assumes "inventory_ok record_tag (dm_state d)" and "\<forall>p \<in> set ps. record_tag (prc_ID p) = n"
  shows "inventory_ok record_tag (dm_state (replace_records n ps at d))"
    and "session_records (dm_state (replace_records n ps at d)) j
      = (if j = n then by_id ps else session_records (dm_state d) j)"
proof -
  obtain changes st where "replaceSession n ps at (dm_state d) = (changes, st)" by fastforce
  with replaceSession_ok [OF assms this]
  show "inventory_ok record_tag (dm_state (replace_records n ps at d))"
    and "session_records (dm_state (replace_records n ps at d)) j
      = (if j = n then by_id ps else session_records (dm_state d) j)"
    by (simp_all add: replace_records_def)
qed

lemma replace_records_phase:
  assumes "inventory_ok record_tag (dm_state d)" and "\<forall>p \<in> set ps. record_tag (prc_ID p) = n"
    and "phase_ok d k phase" and "phase = Ended \<Longrightarrow> k \<noteq> n \<or> ps = []"
  shows "phase_ok (replace_records n ps at d) k phase"
  using assms(3,4) replace_records_inventory(2) [OF assms(1,2)]
  by (cases phase) (auto simp: phase_ok_def by_id_def)

lemma replace_records_ok:
  assumes "inventory_ok record_tag (dm_state d)" and "\<forall>p \<in> set ps. record_tag (prc_ID p) = n" and "k \<noteq> n \<Longrightarrow> records_ok d k"
    and "k = n \<Longrightarrow> r \<in> mons d n \<and> ps = session_listing d (mon_session (dm_monitors d r)) es
      \<and> (\<forall>r'. map_of (dm_sessions d) n = Some r' \<longrightarrow> r' = r)"
  shows "records_ok (replace_records n ps at d) k"
proof (cases "k = n")
  case True
  let ?s = "mon_session (dm_monitors d r)"
  have r: "r \<in> mons d n" "ps = session_listing d ?s es" "\<forall>r'. map_of (dm_sessions d) n = Some r' \<longrightarrow> r' = r"
    and n: "ses_id ?s = n"
    using assms(4) [OF True] by (auto simp: mons_def)
  have "\<exists>r \<in> mons d n. record_of d (mon_session (dm_monitors d r)) p" if "p \<in> ran (map_of (by_id ps))" for p
    using r(1) listing_records [of p d ?s es] that r(2) by auto
  moreover have "map_of (by_id ps) (shell_record_id n) = Some (processRecord (dm_identity d) (dm_pid d) ?s ''running'' None)"
    using listing_shell [of d ?s es] by (simp add: r(2) n)
  ultimately show ?thesis
    using r(3) by (auto simp: records_ok_def True replace_records_inventory(2) [OF assms(1,2)])
next
  case False
  from assms(3) [OF this] False show ?thesis by (simp add: records_ok_def replace_records_inventory(2) [OF assms(1,2)])
qed

text \<open>What is said of one session depends on its own entry, its own monitors and its own records.\<close>

lemma phase_ok_cong:
  assumes "map_of (dm_sessions d') n = map_of (dm_sessions d) n" and "mons d' n = mons d n"
    and "\<forall>r \<in> mons d n. mon_closed (dm_monitors d' r) = mon_closed (dm_monitors d r)"
    and "session_records (dm_state d') n = session_records (dm_state d) n"
  shows "phase_ok d' n phase \<longleftrightarrow> phase_ok d n phase"
proof -
  have 1: "(\<forall>r \<in> mons d n. mon_closed (dm_monitors d' r)) \<longleftrightarrow> (\<forall>r \<in> mons d n. mon_closed (dm_monitors d r))"
      "(\<forall>r \<in> mons d n. \<not> mon_closed (dm_monitors d' r)) \<longleftrightarrow> (\<forall>r \<in> mons d n. \<not> mon_closed (dm_monitors d r))"
    using assms(3) by auto
  have 2: "mons d n = {r} \<Longrightarrow> mon_closed (dm_monitors d' r) = mon_closed (dm_monitors d r)" for r
    using assms(3) by simp
  show ?thesis
    by (cases phase) (simp_all add: phase_ok_def assms(1,2,4) 1 2 cong: conj_cong)
qed

lemma records_ok_cong:
  assumes "map_of (dm_sessions d') n = map_of (dm_sessions d) n" and "mons d' n = mons d n"
    and "\<forall>r \<in> mons d n. mon_session (dm_monitors d' r) = mon_session (dm_monitors d r)"
    and "session_records (dm_state d') n = session_records (dm_state d) n"
    and "dm_identity d' = dm_identity d" and "dm_pid d' = dm_pid d"
    and "\<forall>r. map_of (dm_sessions d) n = Some r \<longrightarrow> r \<in> mons d n"
  shows "records_ok d' n \<longleftrightarrow> records_ok d n"
  using assms(3,7) by (auto simp: records_ok_def record_of_def assms(1,2,4,5,6))

text \<open>Monitors that keep their sessions and their closed flags keep everything said above.\<close>

lemma same_monitors_keep:
  assumes "same_monitors d ms"
  shows "phase_ok (d\<lparr>dm_host := h, dm_monitors := ms\<rparr>) n phase \<longleftrightarrow> phase_ok d n phase"
    and "records_ok (d\<lparr>dm_host := h, dm_monitors := ms\<rparr>) n \<longleftrightarrow> records_ok d n"
    and "mons (d\<lparr>dm_host := h, dm_monitors := ms\<rparr>) n = mons d n"
proof -
  show 1: "mons (d\<lparr>dm_host := h, dm_monitors := ms\<rparr>) n = mons d n"
    using assms by (simp add: mons_def same_monitors_def)
  show "phase_ok (d\<lparr>dm_host := h, dm_monitors := ms\<rparr>) n phase \<longleftrightarrow> phase_ok d n phase"
    using assms 1 by (simp add: phase_ok_def same_monitors_def split: end_phase.split)
  show "records_ok (d\<lparr>dm_host := h, dm_monitors := ms\<rparr>) n \<longleftrightarrow> records_ok d n"
    using assms 1 by (simp add: records_ok_def same_monitors_def record_of_def)
qed

lemma reconcile_ok:
  assumes "mon_ok w" and r: "r < dm_next (mw_daemon w)"
  shows "mon_ok (w\<lparr>mw_daemon := reconcile os r (mw_daemon w)\<rparr>)"
proof -
  let ?d = "mw_daemon w"
  let ?s = "mon_session (dm_monitors ?d r)"
  let ?n = "ses_id ?s"
  have inv: "inventory_ok record_tag (dm_state ?d)" using assms(1) by (simp add: mon_ok_def)
  obtain ms h where ms: "same_monitors ?d ms"
    and alt: "reconcile os r ?d = ?d\<lparr>dm_host := h, dm_monitors := ms\<rparr>
      \<or> \<not> mon_closed (dm_monitors ?d r) \<and> (\<exists>es. reconcile os r ?d = replace_records ?n
         (session_listing ?d ?s es) (UnixMilli (os_now os)) (?d\<lparr>dm_host := h, dm_monitors := ms\<rparr>))"
    using reconcile_effect [of ?d os r] by blast
  from alt show ?thesis
  proof
    assume "reconcile os r ?d = ?d\<lparr>dm_host := h, dm_monitors := ms\<rparr>"
    with assms(1) show ?thesis by (simp add: mon_ok_def same_monitors_keep [OF ms])
  next
    assume "\<not> mon_closed (dm_monitors ?d r) \<and> (\<exists>es. reconcile os r ?d = replace_records ?n
         (session_listing ?d ?s es) (UnixMilli (os_now os)) (?d\<lparr>dm_host := h, dm_monitors := ms\<rparr>))"
    then obtain es where opn: "\<not> mon_closed (dm_monitors ?d r)" and eq: "reconcile os r ?d = replace_records ?n
         (session_listing ?d ?s es) (UnixMilli (os_now os)) (?d\<lparr>dm_host := h, dm_monitors := ms\<rparr>)" by blast
    let ?d1 = "?d\<lparr>dm_host := h, dm_monitors := ms\<rparr>"
    have rn: "r \<in> mons ?d ?n" using r by (simp add: mons_def)
    have ok1: "phase_ok ?d1 k (mw_phase w k)" "records_ok ?d1 k" for k
      using assms(1) by (simp_all add: mon_ok_def same_monitors_keep [OF ms])
    have inv1: "inventory_ok record_tag (dm_state ?d1)" using inv by simp
    have ids: "\<forall>p \<in> set (session_listing ?d ?s es). record_tag (prc_ID p) = ?n" by (rule listing_ids)
    have rn1: "r \<in> mons ?d1 ?n" using rn same_monitors_keep(3) [OF ms] by simp
    have opn1: "\<not> mon_closed (dm_monitors ?d1 r)" and sess: "mon_session (dm_monitors ?d1 r) = ?s"
      using ms opn by (simp_all add: same_monitors_def)
    have not_ended: "mw_phase w ?n \<noteq> Ended" using ok1(1) [of ?n] rn1 opn1 by (auto simp: phase_ok_def)
    have only: "\<forall>r'. map_of (dm_sessions ?d1) ?n = Some r' \<longrightarrow> r' = r"
      using ok1(1) [of ?n] rn1 by (cases "mw_phase w ?n") (auto simp: phase_ok_def)
    have list: "session_listing ?d ?s es = session_listing ?d1 (mon_session (dm_monitors ?d1 r)) es"
      using sess by (simp add: session_listing_def)
    have "phase_ok (reconcile os r ?d) k (mw_phase w k)" for k
      unfolding eq by (rule replace_records_phase [OF inv1 ids ok1(1)]) (use not_ended in auto)
    moreover have "records_ok (reconcile os r ?d) k" for k
      unfolding eq by (rule replace_records_ok [OF inv1 ids ok1(2), of _ r]) (use rn1 only list in simp)
    moreover have "inventory_ok record_tag (dm_state (reconcile os r ?d))"
      unfolding eq by (rule replace_records_inventory(1) [OF inv1 ids])
    ultimately show ?thesis by (simp add: mon_ok_def)
  qed
qed

lemma mon_ok_inventory: "mon_ok w \<Longrightarrow> inventory_ok record_tag (dm_state (mw_daemon w))"
  and mon_ok_phase: "mon_ok w \<Longrightarrow> phase_ok (mw_daemon w) n (mw_phase w n)"
  and mon_ok_records: "mon_ok w \<Longrightarrow> records_ok (mw_daemon w) n"
  by (simp_all add: mon_ok_def)

lemma new_monitor_fields [simp]:
  "mon_session (new_monitor os d s) = s" "\<not> mon_closed (new_monitor os d s)"
  by (simp_all add: new_monitor_def Let_def split: sum.split)

text \<open>A registration makes the one monitor of its session; every other session is as it was.\<close>

lemma register_ok:
  assumes "mon_ok w" and "ses_closed s \<longleftrightarrow> mw_phase w (ses_id s) \<noteq> Live"
  shows "mon_ok (w\<lparr>mw_daemon := snd (monitor_register os s (mw_daemon w))\<rparr>)"
proof (cases "ses_closed s \<or> map_of (dm_sessions (mw_daemon w)) (ses_id s) \<noteq> None")
  case True
  with assms(1) show ?thesis by (auto simp: monitor_register_def)
next
  case False
  let ?d = "mw_daemon w" and ?n = "ses_id s"
  let ?r = "dm_next ?d"
  define d1 where "d1 = ?d\<lparr>dm_sessions := AList.update ?n ?r (dm_sessions ?d), dm_next := Suc ?r,
      dm_monitors := (dm_monitors ?d)(?r := new_monitor os
        (replace_records ?n (session_listing ?d s []) (UnixMilli (os_now os))
          (?d\<lparr>dm_sessions := AList.update ?n ?r (dm_sessions ?d), dm_next := Suc ?r\<rparr>)) s)\<rparr>"
  have live: "mw_phase w ?n = Live" using assms(2) False by simp
  have eq: "snd (monitor_register os s ?d) = replace_records ?n (session_listing ?d s []) (UnixMilli (os_now os)) d1"
    using False by (simp add: monitor_register_def Let_def replace_records_def d1_def session_listing_def)
  have none: "mons ?d ?n = {}" using mon_ok_phase [OF assms(1), of ?n] live False by (simp add: phase_ok_def)
  have mons1: "mons d1 k = (if k = ?n then {?r} else mons ?d k)" for k
    using none by (auto simp: mons_def d1_def less_Suc_eq)
  have below: "r < ?r" if "r \<in> mons ?d k" for r k using that by (simp add: mons_def)
  have ph: "phase_ok d1 k (mw_phase w k)" for k
  proof (cases "k = ?n")
    case False
    have "phase_ok d1 k (mw_phase w k) \<longleftrightarrow> phase_ok ?d k (mw_phase w k)"
    proof (rule phase_ok_cong)
      show "\<forall>r \<in> mons ?d k. mon_closed (dm_monitors d1 r) = mon_closed (dm_monitors ?d r)"
        using below [of _ k] by (auto simp: d1_def)
    qed (use False in \<open>simp_all add: mons1, simp_all add: d1_def AList.update_conv'\<close>)
    with mon_ok_phase [OF assms(1)] show ?thesis by simp
  qed (simp add: live phase_ok_def mons1, simp add: d1_def AList.update_conv')
  have rc: "records_ok d1 k" if "k \<noteq> ?n" for k
  proof -
    have "records_ok d1 k \<longleftrightarrow> records_ok ?d k"
    proof (rule records_ok_cong)
      show "\<forall>r \<in> mons ?d k. mon_session (dm_monitors d1 r) = mon_session (dm_monitors ?d r)"
        using below [of _ k] by (auto simp: d1_def)
      show "\<forall>r. map_of (dm_sessions ?d) k = Some r \<longrightarrow> r \<in> mons ?d k"
        using mon_ok_phase [OF assms(1), of k] by (cases "mw_phase w k") (auto simp: phase_ok_def)
    qed (use that in \<open>simp_all add: mons1, simp_all add: d1_def AList.update_conv'\<close>)
    with mon_ok_records [OF assms(1)] show ?thesis by simp
  qed
  have inv1: "inventory_ok record_tag (dm_state d1)" using mon_ok_inventory [OF assms(1)] by (simp add: d1_def)
  have list: "session_listing ?d s [] = session_listing d1 (mon_session (dm_monitors d1 ?r)) []"
    by (simp add: session_listing_def d1_def)
  have only: "map_of (dm_sessions d1) ?n = Some ?r" by (simp add: d1_def AList.update_conv')
  note ids = listing_ids [of ?d s "[]"]
  have "phase_ok (snd (monitor_register os s ?d)) k (mw_phase w k)" for k
    unfolding eq by (rule replace_records_phase [OF inv1 ids ph]) (use live in auto)
  moreover have "records_ok (snd (monitor_register os s ?d)) k" for k
    unfolding eq by (rule replace_records_ok [OF inv1 ids rc, where r = ?r]) (use only list mons1 in auto)
  moreover have "inventory_ok record_tag (dm_state (snd (monitor_register os s ?d)))"
    unfolding eq by (rule replace_records_inventory(1) [OF inv1 ids])
  ultimately show ?thesis by (simp add: mon_ok_def)
qed

lemma entry_is_monitor:
  assumes "mon_ok w" and "map_of (dm_sessions (mw_daemon w)) n = Some r"
  shows "mons (mw_daemon w) n = {r}"
  using mon_ok_phase [OF assms(1), of n] assms(2) by (cases "mw_phase w n") (auto simp: phase_ok_def)

lemma end_taken_ok:
  assumes "mon_ok w" and "mw_phase w n = EndCalled at" and "monitor_take n (mw_daemon w) = (ro, d)"
  shows "mon_ok (w\<lparr>mw_daemon := d,
      mw_phase := (mw_phase w)(n := (case ro of None \<Rightarrow> EndShut at | Some r \<Rightarrow> EndTaken r at))\<rparr>)"
proof -
  let ?d = "mw_daemon w"
  have d: "d = ?d\<lparr>dm_sessions := AList.delete n (dm_sessions ?d)\<rparr>" and ro: "ro = map_of (dm_sessions ?d) n"
    using assms(3) by (auto simp: monitor_take_def)
  have mons: "mons d k = mons ?d k" for k by (simp add: mons_def d)
  have gone: "map_of (dm_sessions d) k = (if k = n then None else map_of (dm_sessions ?d) k)" for k
    by (simp add: d AList.delete_conv')
  have "phase_ok d k (mw_phase w k)" if "k \<noteq> n" for k
  proof -
    have "phase_ok d k (mw_phase w k) \<longleftrightarrow> phase_ok ?d k (mw_phase w k)"
      by (rule phase_ok_cong) (simp_all add: mons gone that, simp_all add: d)
    with mon_ok_phase [OF assms(1)] show ?thesis by simp
  qed
  moreover have "phase_ok d n (case ro of None \<Rightarrow> EndShut at | Some r \<Rightarrow> EndTaken r at)"
    using mon_ok_phase [OF assms(1), of n] assms(2)
    by (cases ro) (simp_all add: phase_ok_def gone mons ro, simp_all add: d)
  moreover have "records_ok d k" for k
  proof (cases "k = n")
    case True
    then show ?thesis using mon_ok_records [OF assms(1), of n] unfolding records_ok_def mons gone
      by (simp add: d record_of_def)
  next
    case False
    have "records_ok d k \<longleftrightarrow> records_ok ?d k"
      using entry_is_monitor [OF assms(1), of k]
      by (intro records_ok_cong) (simp_all add: mons gone False, simp_all add: d)
    with mon_ok_records [OF assms(1)] show ?thesis by simp
  qed
  moreover have "inventory_ok record_tag (dm_state d)" using mon_ok_inventory [OF assms(1)] by (simp add: d)
  ultimately show ?thesis by (simp add: mon_ok_def)
qed

lemma end_shut_ok:
  assumes "mon_ok w" and "mw_phase w n = EndTaken r at" and "monitor_shut os r (mw_daemon w) = (first, d)"
  shows "mon_ok (w\<lparr>mw_daemon := d, mw_phase := (mw_phase w)(n := (if first then EndShut at else Ended))\<rparr>)"
proof -
  let ?d = "mw_daemon w"
  have r: "map_of (dm_sessions ?d) n = None" "mons ?d n = {r}" "\<not> mon_closed (dm_monitors ?d r)"
    using mon_ok_phase [OF assms(1), of n] assms(2) by (simp_all add: phase_ok_def)
  obtain ws where d: "d = ?d\<lparr>dm_released := ws, dm_monitors :=
      (dm_monitors ?d)(r := (dm_monitors ?d r)\<lparr>mon_closed := True, mon_watch := None\<rparr>)\<rparr>" and f: first
  proof
    show "d = ?d\<lparr>dm_released := dm_released d, dm_monitors :=
      (dm_monitors ?d)(r := (dm_monitors ?d r)\<lparr>mon_closed := True, mon_watch := None\<rparr>)\<rparr>"
      using assms(3) r(3) by (auto simp: monitor_shut_def split: option.splits)
    show first using assms(3) r(3) by (simp add: monitor_shut_def)
  qed
  have sess: "mon_session (dm_monitors d j) = mon_session (dm_monitors ?d j)" for j by (simp add: d)
  have mons: "mons d k = mons ?d k" for k by (simp add: mons_def sess, simp add: d)
  have other: "r \<notin> mons ?d k" if "k \<noteq> n" for k using r(2) that by (auto simp: mons_def)
  have "phase_ok d k (mw_phase w k)" if "k \<noteq> n" for k
  proof -
    have "phase_ok d k (mw_phase w k) \<longleftrightarrow> phase_ok ?d k (mw_phase w k)"
    proof (rule phase_ok_cong)
      show "\<forall>j \<in> mons ?d k. mon_closed (dm_monitors d j) = mon_closed (dm_monitors ?d j)"
        using other [OF that] by (auto simp: d)
    qed (simp_all add: mons, simp_all add: d)
    with mon_ok_phase [OF assms(1)] show ?thesis by simp
  qed
  moreover have "phase_ok d n (EndShut at)"
    using r(1) by (simp add: phase_ok_def mons r(2), simp add: d)
  moreover have "records_ok d k" for k
  proof -
    have "records_ok d k \<longleftrightarrow> records_ok ?d k"
      using entry_is_monitor [OF assms(1), of k]
      by (intro records_ok_cong) (simp_all add: mons sess, simp_all add: d)
    with mon_ok_records [OF assms(1)] show ?thesis by simp
  qed
  moreover have "inventory_ok record_tag (dm_state d)" using mon_ok_inventory [OF assms(1)] by (simp add: d)
  ultimately show ?thesis using f by (simp add: mon_ok_def)
qed

lemma end_cleared_ok:
  assumes "mon_ok w" and "mw_phase w n = EndShut at"
  shows "mon_ok (w\<lparr>mw_daemon := replace_records n [] at (mw_daemon w), mw_phase := (mw_phase w)(n := Ended)\<rparr>)"
proof -
  let ?d = "mw_daemon w"
  note inv = mon_ok_inventory [OF assms(1)]
  have ids: "\<forall>p \<in> set []. record_tag (prc_ID p) = n" by simp
  note rep = replace_records_inventory [OF inv ids, where at = at]
  have gone: "session_records (dm_state (replace_records n [] at ?d)) n = []" by (simp add: rep(2) by_id_def)
  have shut: "map_of (dm_sessions ?d) n = None" "\<forall>r \<in> mons ?d n. mon_closed (dm_monitors ?d r)"
    using mon_ok_phase [OF assms(1), of n] assms(2) by (simp_all add: phase_ok_def)
  have "phase_ok (replace_records n [] at ?d) k (mw_phase w k)" for k
    by (rule replace_records_phase [OF inv ids mon_ok_phase [OF assms(1)]]) simp
  moreover have "phase_ok (replace_records n [] at ?d) n Ended"
    using shut gone by (simp add: phase_ok_def)
  moreover have "records_ok (replace_records n [] at ?d) k" for k
    using mon_ok_records [OF assms(1), of k] shut gone by (cases "k = n") (simp_all add: records_ok_def rep(2) by_id_def)
  ultimately show ?thesis using rep(1) by (simp add: mon_ok_def)
qed

lemma mon_step_ok: "mon_step w w' \<Longrightarrow> mon_ok w \<Longrightarrow> mon_ok w'"
proof (induction rule: mon_step.induct)
  case (end_called w n at)
  then have "phase_ok (mw_daemon w) n (EndCalled at)" using mon_ok_phase [of w n] by (simp add: phase_ok_def)
  with end_called.prems show ?case by (simp add: mon_ok_def)
next
  case (reader st w)
  let ?d = "(mw_daemon w)\<lparr>dm_state := st\<rparr>"
  note rec = records_only [OF reader.hyps]
  have "phase_ok ?d k (mw_phase w k) \<longleftrightarrow> phase_ok (mw_daemon w) k (mw_phase w k)" for k
    by (rule phase_ok_cong) (simp_all add: mons_def rec)
  moreover have "records_ok ?d k \<longleftrightarrow> records_ok (mw_daemon w) k" for k
    by (simp add: records_ok_def record_of_def mons_def rec)
  ultimately show ?case using reader.prems by (simp add: mon_ok_def rec)
next
  case (elsewhere w h)
  let ?d = "(mw_daemon w)\<lparr>dm_host := h\<rparr>"
  have "phase_ok ?d k (mw_phase w k) \<longleftrightarrow> phase_ok (mw_daemon w) k (mw_phase w k)" for k
    by (rule phase_ok_cong) (simp_all add: mons_def)
  moreover have "records_ok ?d k \<longleftrightarrow> records_ok (mw_daemon w) k" for k
    by (simp add: records_ok_def record_of_def mons_def)
  ultimately show ?case using elsewhere.prems by (simp add: mon_ok_def)
qed (blast intro: register_ok reconcile_ok end_taken_ok end_shut_ok end_cleared_ok)+

lemma mon_steps_ok: "mon_step\<^sup>*\<^sup>* w w' \<Longrightarrow> mon_ok w \<Longrightarrow> mon_ok w'"
  by (induction rule: rtranclp_induct) (auto intro: mon_step_ok)

lemma mon_step_ended: "mon_step w w' \<Longrightarrow> mw_phase w n = Ended \<Longrightarrow> mw_phase w' n = Ended"
  by (induction rule: mon_step.induct) auto

lemma mon_steps_ended: "mon_step\<^sup>*\<^sup>* w w' \<Longrightarrow> mw_phase w n = Ended \<Longrightarrow> mw_phase w' n = Ended"
  by (induction rule: rtranclp_induct) (auto intro: mon_step_ended)

definition fresh_monitoring :: "monitoring \<Rightarrow> bool" where
  "fresh_monitoring d \<longleftrightarrow> \<not> dm_setup d \<and> dm_next d = 0 \<and> reg_sessions (h_reg (dm_host d)) = []"

lemma new_mon_world_ok: "fresh_monitoring d \<Longrightarrow> mon_ok (new_mon_world os d)"
  by (simp add: fresh_monitoring_def new_mon_world_def startProcessMonitoring_def bindProcessLifecycle_def mon_ok_def
      phase_ok_def records_ok_def mons_def inventory_ok_def newProcessInventoryState_def session_records_def keyed_def Let_def)

text \<open>The processes a snapshot answers are the records of the sessions.\<close>

lemma snapshot_records:
  assumes "inventory_ok record_tag st"
  shows "p \<in> set (pin_Processes (inventory_snapshot st)) \<longleftrightarrow>
      map_of (session_records st (record_tag (prc_ID p))) (prc_ID p) = Some p"
    and "sorted (map prc_ID (pin_Processes (inventory_snapshot st)))"
    and "distinct (map prc_ID (pin_Processes (inventory_snapshot st)))"
proof -
  have procs: "map_of (inv_processes st) k = map_of (session_records st (record_tag k)) k" for k
    using assms by (simp add: inventory_ok_def)
  have key: "prc_ID q = k" if "map_of (inv_processes st) k = Some q" for k q
    using assms that by (auto simp: inventory_ok_def keyed_def)
  have dist: "distinct (map fst (inv_processes st))" using assms by (simp add: inventory_ok_def)
  have ids: "map prc_ID (pin_Processes (inventory_snapshot st)) = sort (map fst (inv_processes st))"
    unfolding inventory_snapshot_def snapshotLocked_def sortedProcessIDs_def
    using dist key by (auto simp: comp_def intro!: map_idI)
  show "sorted (map prc_ID (pin_Processes (inventory_snapshot st)))" and "distinct (map prc_ID (pin_Processes (inventory_snapshot st)))"
    by (simp_all add: ids dist)
  have "p \<in> set (pin_Processes (inventory_snapshot st)) \<longleftrightarrow> (\<exists>k. map_of (inv_processes st) k = Some p)"
    using dist by (force simp: inventory_snapshot_def snapshotLocked_def sortedProcessIDs_def)
  then show "p \<in> set (pin_Processes (inventory_snapshot st)) \<longleftrightarrow>
      map_of (session_records st (record_tag (prc_ID p))) (prc_ID p) = Some p"
    using key procs by metis
qed

subsection \<open>What a reconcile reports\<close>

text \<open>The entries of a snapshot that the watch leaves, or why there are none.\<close>

definition owned_entries :: "os_answers \<Rightarrow> monitoring \<Rightarrow> processSessionMonitor \<Rightarrow> monitor_error + processTreeEntry list" where
  "owned_entries os d m = (let s = mon_session m in case dm_tree d of
     None \<Rightarrow> Inr []
   | Some tree \<Rightarrow> (case read_tree os tree (ses_pid s) of
       Inl e \<Rightarrow> Inl (TreeError (ses_id s) e)
     | Inr entries \<Rightarrow> (case fst (sync_watch os entries (mon_watch m)) of
         Inl e \<Rightarrow> Inl (WatchError (ses_id s) e) | Inr entries \<Rightarrow> Inr entries)))"

lemma read_tree_distinct: "read_tree os tree root = Inr es \<Longrightarrow> distinct (map ent_PID es)"
  by (cases tree) (auto simp: read_tree_def dest: unix_reader.entries_distinct windows_reader.entries_distinct)

lemma owned_entries_distinct:
  assumes "owned_entries os d m = Inr es"
  shows "distinct (map ent_PID es)"
proof -
  have "distinct (map ent_PID es)" if "sync_watch os es0 (mon_watch m) = (Inr es, wo)" "distinct (map ent_PID es0)" for es0 wo
    using that by (cases "mon_watch m") (auto simp: sync_watch_def map_prod_def split: prod.splits dest: darwin_watch.sync_distinct)
  then show ?thesis
    using assms read_tree_distinct
    by (auto simp: owned_entries_def Let_def split: option.splits sum.splits) (metis prod.collapse)
qed

lemma reconcile_errors:
  assumes "\<not> mon_closed (dm_monitors d r)" and "owned_entries os d (dm_monitors d r) = Inl e"
  shows "dm_state (reconcile os r d) = dm_state d \<and> mon_lastError (dm_monitors (reconcile os r d) r) = Some e"
  using assms
  by (auto simp: reconcile_def owned_entries_def Let_def split: option.splits sum.splits prod.splits)

lemma reconcile_listing:
  assumes "\<not> mon_closed (dm_monitors d r)" and "owned_entries os d (dm_monitors d r) = Inr es"
  shows "dm_state (reconcile os r d) = dm_state (replace_records (ses_id (mon_session (dm_monitors d r)))
      (session_listing d (mon_session (dm_monitors d r)) es) (UnixMilli (os_now os)) d)
    \<and> mon_lastError (dm_monitors (reconcile os r d) r) = None"
proof -
  let ?m = "dm_monitors d r"
  have commit: "dm_state (commit_records os ps r d') = dm_state (replace_records (ses_id (mon_session (dm_monitors d r))) ps (UnixMilli (os_now os)) d)
      \<and> mon_lastError (dm_monitors (commit_records os ps r d') r) = None"
    if "mon_session (dm_monitors d' r) = mon_session ?m" "dm_state d' = dm_state d" for ps d'
    using that by (simp add: commit_records_def replace_records_def)
  show ?thesis
  proof (cases "dm_tree d")
    case None
    then show ?thesis
      using assms commit [of d] by (simp add: reconcile_def owned_entries_def session_listing_def Let_def)
  next
    case (Some tree)
    then obtain es0 where es0: "read_tree os tree (ses_pid (mon_session ?m)) = Inr es0"
      using assms(2) by (auto simp: owned_entries_def Let_def split: sum.splits)
    then obtain wo where wo: "sync_watch os es0 (mon_watch ?m) = (Inr es, wo)"
      using assms(2) Some by (cases "sync_watch os es0 (mon_watch ?m)") (auto simp: owned_entries_def Let_def split: sum.splits)
    let ?d = "upd_mon r (\<lambda>m. m\<lparr>mon_watch := wo\<rparr>) d"
    obtain ms h where rf: "same_monitors ?d ms" "recordForeground os es r ?d = ?d\<lparr>dm_host := h, dm_monitors := ms\<rparr>"
      using recordForeground_effect [of ?d os es r] by blast
    have "reconcile os r d = commit_records os (session_listing d (mon_session ?m) es) r (?d\<lparr>dm_host := h, dm_monitors := ms\<rparr>)"
      using assms(1) Some es0 wo rf(2) by (simp add: reconcile_def session_listing_def Let_def)
    with rf(1) commit [of "?d\<lparr>dm_host := h, dm_monitors := ms\<rparr>"] show ?thesis by (simp add: same_monitors_def)
  qed
qed

lemma by_id_listing:
  assumes "distinct (map ent_PID es)"
  shows "map_of (by_id (session_listing d s es)) k = Some p \<longleftrightarrow> p \<in> set (session_listing d s es) \<and> prc_ID p = k"
proof -
  have "distinct (map prc_ID (session_listing d s es))"
    using assms by (auto simp: session_listing_def comp_def distinct_map inj_on_def)
  then have "distinct (map fst (rev (map (\<lambda>p. (prc_ID p, p)) (session_listing d s es))))"
    by (simp add: rev_map comp_def del: map_map) (simp add: comp_def flip: rev_map)
  from map_of_eq_Some_iff [OF this] show ?thesis by (auto simp: map_of_by_id)
qed

subsection \<open>Properties\<close>

text \<open>C33. A session whose end was announced never comes back into the inventory. Whatever native callbacks
  are late, however registrations, reconciles, ends of other sessions and readers interleave with the
  sections of its end, once the end has finished no snapshot names the session's shell or any process
  under it again. And at every moment each process a snapshot names belongs to a session that was
  registered and has not finished ending, carries that session's window, pane and start, and no
  process of a session is named twice.\<close>

theorem ended_session_stays_gone:
  assumes "fresh_monitoring d" and "mon_step\<^sup>*\<^sup>* (new_mon_world os d) w" and "mw_phase w n = Ended"
    and "mon_step\<^sup>*\<^sup>* w w'"
  defines "snap \<equiv> inventory_snapshot (dm_state (mw_daemon w'))"
  shows "(\<forall>p \<in> set (pin_Processes snap). prc_ID p \<noteq> shell_record_id n \<and> (\<forall>pid. prc_ID p \<noteq> child_record_id n pid))
    \<and> (\<forall>p \<in> set (pin_Processes snap). \<exists>r < dm_next (mw_daemon w'). let s = mon_session (dm_monitors (mw_daemon w') r) in
         record_of (mw_daemon w') s p \<and> mw_phase w' (ses_id s) \<noteq> Ended)
    \<and> distinct (map prc_ID (pin_Processes snap))"
proof -
  have ok: "mon_ok w'" using mon_steps_ok assms(1,2,4) new_mon_world_ok by blast
  have gone: "mw_phase w' n = Ended" using mon_steps_ended [OF assms(4,3)] .
  note snapd = snapshot_records [OF mon_ok_inventory [OF ok], folded snap_def]
  have ended: "session_records (dm_state (mw_daemon w')) k = []" if "mw_phase w' k = Ended" for k
    using mon_ok_phase [OF ok, of k] that by (simp add: phase_ok_def)
  have rec: "\<exists>r \<in> mons (mw_daemon w') (record_tag (prc_ID p)). record_of (mw_daemon w') (mon_session (dm_monitors (mw_daemon w') r)) p
      \<and> mw_phase w' (record_tag (prc_ID p)) \<noteq> Ended" if "p \<in> set (pin_Processes snap)" for p
    using that mon_ok_records [OF ok, of "record_tag (prc_ID p)"] ended [of "record_tag (prc_ID p)"] snapd(1) [of p]
    by (auto simp: records_ok_def ran_def)
  have "\<exists>r < dm_next (mw_daemon w'). let s = mon_session (dm_monitors (mw_daemon w') r) in
         record_of (mw_daemon w') s p \<and> mw_phase w' (ses_id s) \<noteq> Ended" if "p \<in> set (pin_Processes snap)" for p
    using rec [OF that] by (auto simp: mons_def Let_def)
  moreover have "prc_ID p \<noteq> shell_record_id n \<and> (\<forall>pid. prc_ID p \<noteq> child_record_id n pid)"
    if "p \<in> set (pin_Processes snap)" for p
    using rec [OF that] gone by auto
  ultimately show ?thesis using snapd(3) by blast
qed

definition sample_monitoring :: monitoring where
  "sample_monitoring = \<lparr>dm_host = new_host (newRegistry 5 6 ''sh'') empty_store, dm_identity = [], dm_pid = 9,
     dm_setup = False, dm_state = newProcessInventoryState, dm_sessions = [], dm_tree = Some UnixTree,
     dm_events = Some DarwinEvents, dm_monitors = (\<lambda>_. \<lparr>mon_session = sample_session 0, mon_watch = None,
       mon_closed = False, mon_lastError = None, mon_foreground = [], mon_foregroundCWD = []\<rparr>),
     dm_next = 0, dm_released = []\<rparr>"

definition sample_answers :: os_answers where
  "sample_answers = \<lparr>os_table = Inr (''0 1 0 sh'' @ [CHR 0x0A] @ ''12 0 12 vi''), os_cwd = (\<lambda>_. CwdIs ''/''), os_kqueue = Inr 3, os_add = (\<lambda>_. KevOK), os_shut = None,
     os_group = 12, os_now = 5000000, os_tmp = ''t''\<rparr>"

lemma sample_fresh: "fresh_monitoring sample_monitoring"
  by (simp add: fresh_monitoring_def sample_monitoring_def new_host_def newRegistry_def)

definition sample_registered :: mon_world where
  "sample_registered = (let w = new_mon_world sample_answers sample_monitoring
     in w\<lparr>mw_daemon := snd (monitor_register sample_answers (sample_session 7) (mw_daemon w))\<rparr>)"

lemma sample_registers: "mon_step\<^sup>*\<^sup>* (new_mon_world sample_answers sample_monitoring) sample_registered"
proof -
  have "ses_closed (sample_session 7) \<longleftrightarrow>
      mw_phase (new_mon_world sample_answers sample_monitoring) (ses_id (sample_session 7)) \<noteq> Live"
    by (simp add: sample_session_def born_session_def new_mon_world_def)
  from mon_step.register [OF this] show ?thesis unfolding sample_registered_def Let_def by blast
qed

lemma sample_registered_fields:
  "mw_phase sample_registered = (\<lambda>_. Live)" "map_of (dm_sessions (mw_daemon sample_registered)) 7 = Some 0"
  "dm_next (mw_daemon sample_registered) = 1" "\<not> mon_closed (dm_monitors (mw_daemon sample_registered) 0)"
  "mon_session (dm_monitors (mw_daemon sample_registered) 0) = sample_session 7"
  by (simp_all add: sample_registered_def new_mon_world_def startProcessMonitoring_def bindProcessLifecycle_def
      monitor_register_def sample_session_def born_session_def sample_monitoring_def new_host_def newRegistry_def Let_def)

theorem ended_session_stays_gone_witness:
  "\<exists>w. mon_step\<^sup>*\<^sup>* (new_mon_world sample_answers sample_monitoring) w \<and> mw_phase w 7 = Ended
    \<and> 0 < dm_next (mw_daemon w) \<and> ses_id (mon_session (dm_monitors (mw_daemon w) 0)) = 7
    \<and> (\<forall>p \<in> set (pin_Processes (inventory_snapshot (dm_state (reconcile sample_answers 0 (mw_daemon w))))).
         prc_ID p \<noteq> shell_record_id 7)"
proof -
  let ?w = sample_registered
  let ?w1 = "?w\<lparr>mw_phase := (mw_phase ?w)(7 := EndCalled 4)\<rparr>"
  let ?d2 = "snd (monitor_take 7 (mw_daemon ?w))"
  let ?w2 = "?w1\<lparr>mw_daemon := ?d2, mw_phase := (mw_phase ?w1)(7 := EndTaken 0 4)\<rparr>"
  let ?d3 = "snd (monitor_shut sample_answers 0 ?d2)"
  let ?w3 = "?w2\<lparr>mw_daemon := ?d3, mw_phase := (mw_phase ?w2)(7 := EndShut 4)\<rparr>"
  let ?w4 = "?w3\<lparr>mw_daemon := replace_records 7 [] 4 ?d3, mw_phase := (mw_phase ?w3)(7 := Ended)\<rparr>"
  have 1: "mon_step ?w ?w1" by (rule mon_step.end_called) (simp add: sample_registered_fields)
  have 2: "mon_step ?w1 ?w2"
    using mon_step.end_taken [of ?w1 7 4 "Some 0" ?d2] by (simp add: monitor_take_def sample_registered_fields)
  have 3: "mon_step ?w2 ?w3"
    using mon_step.end_shut [of ?w2 7 0 4 sample_answers True ?d3]
    by (simp add: monitor_shut_def monitor_take_def sample_registered_fields)
  have 4: "mon_step ?w3 ?w4" using mon_step.end_cleared [of ?w3 7 4] by simp
  have run: "mon_step\<^sup>*\<^sup>* (new_mon_world sample_answers sample_monitoring) ?w4"
    using sample_registers 1 2 3 4 by (meson rtranclp.rtrancl_into_rtrancl)
  have fields: "dm_next (mw_daemon ?w4) = 1" "mon_session (dm_monitors (mw_daemon ?w4) 0) = sample_session 7"
    by (simp_all add: monitor_shut_def monitor_take_def sample_registered_fields split: option.split)
  then have late: "mon_step ?w4 (?w4\<lparr>mw_daemon := reconcile sample_answers 0 (mw_daemon ?w4)\<rparr>)"
    by (intro mon_step.changed) simp
  have "mw_phase ?w4 7 = Ended" by simp
  from ended_session_stays_gone [OF sample_fresh run this r_into_rtranclp [of mon_step, OF late]] run fields show ?thesis
    by (intro exI [of _ ?w4]) (simp add: sample_session_def born_session_def)
qed

text \<open>C34. A reconcile reports the shell and exactly the processes under it. When the table was read and the
  watch brought in line, the session's part of the inventory is its shell's record and one record for
  each process found, the sessions around it keep theirs, and the error is cleared; when either failed,
  the inventory stays as it was and the monitor keeps the error; and a monitor that was closed does
  nothing.\<close>

theorem reconcile_reports_tree:
  fixes os :: os_answers and r :: nat
  assumes "fresh_monitoring d0" and "mon_step\<^sup>*\<^sup>* (new_mon_world os0 d0) w"
  defines "d \<equiv> mw_daemon w" and "d' \<equiv> reconcile os r (mw_daemon w)"
  defines "m \<equiv> dm_monitors d r" and "processes \<equiv> \<lambda>d. set (pin_Processes (inventory_snapshot (dm_state d)))"
  shows "if mon_closed m then d' = d
    else case owned_entries os d m of
        Inl e \<Rightarrow> processes d' = processes d \<and> mon_lastError (dm_monitors d' r) = Some e
      | Inr es \<Rightarrow> mon_lastError (dm_monitors d' r) = None
          \<and> {p \<in> processes d'. record_tag (prc_ID p) = ses_id (mon_session m)}
              = insert (processRecord (dm_identity d) (dm_pid d) (mon_session m) ''running'' None)
                  (descendantRecord (dm_identity d) (mon_session m) ` set es)
          \<and> {p \<in> processes d'. record_tag (prc_ID p) \<noteq> ses_id (mon_session m)}
              = {p \<in> processes d. record_tag (prc_ID p) \<noteq> ses_id (mon_session m)}"
proof (cases "mon_closed m")
  case True
  then show ?thesis by (simp add: d'_def d_def m_def reconcile_def Let_def)
next
  case False
  let ?s = "mon_session m"
  have ok: "inventory_ok record_tag (dm_state d)"
    using mon_steps_ok [OF assms(2) new_mon_world_ok [OF assms(1)]] mon_ok_inventory unfolding d_def by blast
  show ?thesis
  proof (cases "owned_entries os d m")
    case (Inl e)
    with reconcile_errors [of d r os e] False show ?thesis by (simp add: d'_def d_def m_def processes_def)
  next
    case (Inr es)
    let ?ps = "session_listing d ?s es"
    have st: "dm_state d' = dm_state (replace_records (ses_id ?s) ?ps (UnixMilli (os_now os)) d)"
        "mon_lastError (dm_monitors d' r) = None"
      using reconcile_listing [of d r os es] False Inr by (simp_all add: d'_def d_def m_def)
    have rep: "inventory_ok record_tag (dm_state d')"
        "\<And>k. session_records (dm_state d') k = (if k = ses_id ?s then by_id ?ps else session_records (dm_state d) k)"
      unfolding st(1) using replace_records_inventory [OF ok listing_ids] by blast+
    have mem: "p \<in> processes d' \<longleftrightarrow> (if record_tag (prc_ID p) = ses_id ?s then p \<in> set ?ps else p \<in> processes d)" for p
      using snapshot_records(1) [OF rep(1), of p] snapshot_records(1) [OF ok, of p] rep(2)
        by_id_listing [OF owned_entries_distinct [OF Inr], of d ?s "prc_ID p" p]
      by (simp add: processes_def)
    have "{p \<in> processes d'. record_tag (prc_ID p) = ses_id ?s} = set ?ps"
      using listing_ids [of d ?s es] mem by auto
    moreover have "{p \<in> processes d'. record_tag (prc_ID p) \<noteq> ses_id ?s} = {p \<in> processes d. record_tag (prc_ID p) \<noteq> ses_id ?s}"
      using mem by auto
    moreover have "set ?ps = insert (processRecord (dm_identity d) (dm_pid d) ?s ''running'' None) (descendantRecord (dm_identity d) ?s ` set es)"
      by (simp add: session_listing_def)
    ultimately show ?thesis using False Inr st(2) by simp
  qed
qed

definition sample_child :: processTreeEntry where
  "sample_child = \<lparr>ent_PID = 12, ent_ParentPID = 0, ent_GroupID = 12, ent_Command = ''vi'', ent_CWD = ''/''\<rparr>"

lemma sample_read: "read_tree sample_answers UnixTree 0 = Inr [sample_child]"
proof -
  have lines: "scan_lines (''0 1 0 sh'' @ [CHR 0x0A] @ ''12 0 12 vi'') = Some [''0 1 0 sh'', ''12 0 12 vi'']"
    by (simp add: scan_lines_def byte_of_def MaxScanTokenSize_def dropCR_def)
  have rows: "read_rows [''0 1 0 sh'', ''12 0 12 vi''] = [\<lparr>row_pid = 0, row_parent = 1, row_group = 0, row_command = ''sh''\<rparr>,
      \<lparr>row_pid = 12, row_parent = 0, row_group = 12, row_command = ''vi''\<rparr>]"
    by (simp add: read_rows_def List.map_filter_simps parse_row_def Fields_def space_width_def byte_of_def
        end_field_def parse_u32_def is_digit_def digits_val_def digit_val_def)
  show ?thesis
    unfolding read_tree_def sample_answers_def sample_child_def os_answers.simps tree_source.simps Descendants_def sum.case lines
    by (simp add: rows walk_queue_of.simps children_of_def)
qed

lemma sample_sync: "fst (Sync (\<lambda>_. KevOK) [sample_child] \<lparr>wt_root = 0, wt_queue = 3, wt_tracked = [0], wt_closed = False\<rparr>) = Inr [sample_child]"
  by code_simp

lemma sample_owned: "owned_entries sample_answers (mw_daemon sample_registered) (dm_monitors (mw_daemon sample_registered) 0) = Inr [sample_child]"
proof -
  have "mon_watch (dm_monitors (mw_daemon sample_registered) 0) = Some \<lparr>wt_root = 0, wt_queue = 3, wt_tracked = [0], wt_closed = False\<rparr>"
      "dm_tree (mw_daemon sample_registered) = Some UnixTree"
    by (simp_all add: sample_registered_def new_mon_world_def startProcessMonitoring_def bindProcessLifecycle_def
        monitor_register_def sample_session_def born_session_def sample_monitoring_def new_host_def newRegistry_def Let_def
        replace_records_def new_monitor_def events_supported_def darwinSupported_def observe_root_def darwinObserve_def
        addLocked_def sample_answers_def List.insert_def)
  moreover have "os_add sample_answers = (\<lambda>_. KevOK)" "ses_pid (sample_session 7) = 0"
    by (simp_all add: sample_answers_def sample_session_def born_session_def)
  ultimately show ?thesis
    using sample_read sample_sync
    by (simp add: owned_entries_def sample_registered_fields sync_watch_def map_prod_def split_def)
qed

theorem reconcile_reports_tree_witness:
  "\<exists>p \<in> set (pin_Processes (inventory_snapshot (dm_state (reconcile sample_answers 0 (mw_daemon sample_registered))))).
     prc_ID p = child_record_id 7 12 \<and> prc_Command p = ''vi''"
proof -
  let ?p = "descendantRecord (dm_identity (mw_daemon sample_registered)) (sample_session 7) sample_child"
  have n: "ses_id (sample_session 7) = 7" by (simp add: sample_session_def born_session_def)
  from reconcile_reports_tree [OF sample_fresh sample_registers, of 0 sample_answers] sample_owned
  have "?p \<in> {p \<in> set (pin_Processes (inventory_snapshot (dm_state (reconcile sample_answers 0 (mw_daemon sample_registered))))).
      record_tag (prc_ID p) = 7}"
    by (simp add: sample_registered_fields n)
  moreover have "prc_ID ?p = child_record_id 7 12" by (simp add: n sample_child_def)
  moreover have "prc_Command ?p = ''vi''" by (simp add: descendantRecord_def sample_child_def)
  ultimately show ?thesis by blast
qed

end
