(* ===== verification/Encoding.thy ===== *)
theory Encoding
  imports Prelude
begin

section \<open>Hexadecimal and base64 text (encoding/hex, encoding/base64)\<close>

text \<open>
  The two encodings of the language's library that control messages use: tokens are random bytes as
  lower-case hexadecimal, and bytes of a terminal travel as standard base64 with padding. The decoder
  is the library's: it skips carriage returns and line feeds, wants whole groups of four, and does
  not check the bits a padded group leaves unused.
\<close>

subsection \<open>Hexadecimal\<close>

definition hex_digit :: "nat \<Rightarrow> char" where
  "hex_digit d = ''0123456789abcdef'' ! d"

definition hex_encode :: "byte list \<Rightarrow> string" where
  "hex_encode bs = concat (map (\<lambda>b. [hex_digit (unat b div 16), hex_digit (unat b mod 16)]) bs)"

lemma length_hex_encode [simp]: "length (hex_encode bs) = 2 * length bs"
  by (induction bs) (simp_all add: hex_encode_def)

lemma hex_digit_inject:
  assumes "a < 16" and "b < 16"
  shows "hex_digit a = hex_digit b \<longleftrightarrow> a = b"
proof -
  have "distinct ''0123456789abcdef''" by simp
  from nth_eq_iff_index_eq [OF this] assms show ?thesis by (simp add: hex_digit_def)
qed

lemma byte_bound: "unat (b :: byte) < 256"
  using unsigned_less [of b] by simp

lemma hex_encode_inject [simp]: "hex_encode as = hex_encode bs \<longleftrightarrow> as = bs"
proof (induction as arbitrary: bs)
  case Nil
  show ?case by (cases bs) (simp_all add: hex_encode_def)
next
  case (Cons a as)
  show ?case
  proof (cases bs)
    case (Cons b bs')
    have "hex_encode (a # as) = hex_encode bs \<longleftrightarrow>
        unat a div 16 = unat b div 16 \<and> unat a mod 16 = unat b mod 16 \<and> hex_encode as = hex_encode bs'"
      using byte_bound [of a] byte_bound [of b] by (simp add: hex_encode_def Cons hex_digit_inject)
    moreover have "unat a div 16 = unat b div 16 \<and> unat a mod 16 = unat b mod 16 \<longleftrightarrow> a = b"
      by (metis div_mult_mod_eq unsigned_word_eqI)
    ultimately show ?thesis using Cons.IH [of bs'] unfolding Cons by (metis list.inject)
  qed (simp add: hex_encode_def)
qed

subsection \<open>Base64\<close>

definition b64_alphabet :: string where
  "b64_alphabet = ''ABCDEFGHIJKLMNOPQRSTUVWXYZabcdefghijklmnopqrstuvwxyz0123456789+/''"

definition b64_digit :: "nat \<Rightarrow> char" where
  "b64_digit d = b64_alphabet ! d"

definition b64_value :: "char \<Rightarrow> nat option" where
  "b64_value ch = map_of (zip b64_alphabet [0..<64]) ch"

fun b64_encode :: "byte list \<Rightarrow> string" where
  "b64_encode [] = []"
| "b64_encode [a] = [b64_digit (unat a div 4), b64_digit (unat a mod 4 * 16), CHR ''='', CHR ''='']"
| "b64_encode [a, b] = [b64_digit (unat a div 4), b64_digit (unat a mod 4 * 16 + unat b div 16),
     b64_digit (unat b mod 16 * 4), CHR ''='']"
| "b64_encode (a # b # c # bs) = [b64_digit (unat a div 4), b64_digit (unat a mod 4 * 16 + unat b div 16),
     b64_digit (unat b mod 16 * 4 + unat c div 64), b64_digit (unat c mod 64)] @ b64_encode bs"

text \<open>The bytes that the values of a group hold.\<close>

definition b64_first :: "nat \<Rightarrow> nat \<Rightarrow> byte" where
  "b64_first p q = of_nat (p * 4 + q div 16)"

definition b64_second :: "nat \<Rightarrow> nat \<Rightarrow> byte" where
  "b64_second q r = of_nat (q mod 16 * 16 + r div 4)"

definition b64_third :: "nat \<Rightarrow> nat \<Rightarrow> byte" where
  "b64_third r s = of_nat (r mod 4 * 64 + s)"

text \<open>A group of four without line breaks; padding ends the text.\<close>

fun b64_groups :: "string \<Rightarrow> byte list option" where
  "b64_groups [] = Some []"
| "b64_groups (w # x # y # z # text) =
     (case (b64_value w, b64_value x) of
        (Some p, Some q) \<Rightarrow>
          if y = CHR ''='' then (if z = CHR ''='' \<and> text = [] then Some [b64_first p q] else None)
          else (case b64_value y of
              None \<Rightarrow> None
            | Some r \<Rightarrow>
                if z = CHR ''='' then (if text = [] then Some [b64_first p q, b64_second q r] else None)
                else (case b64_value z of
                    None \<Rightarrow> None
                  | Some s \<Rightarrow> map_option (\<lambda>bs. b64_first p q # b64_second q r # b64_third r s # bs) (b64_groups text)))
      | _ \<Rightarrow> None)"
| "b64_groups text = None"

definition b64_decode :: "string \<Rightarrow> byte list option" where
  "b64_decode text = b64_groups (filter (\<lambda>ch. ch \<noteq> CHR 0x0D \<and> ch \<noteq> CHR 0x0A) text)"

lemma b64_alphabet_facts: "distinct b64_alphabet" "length b64_alphabet = 64"
  "CHR ''='' \<notin> set b64_alphabet" "CHR 0x0D \<notin> set b64_alphabet" "CHR 0x0A \<notin> set b64_alphabet"
  by (simp_all add: b64_alphabet_def)

lemma b64_value_digit [simp]: "d < 64 \<Longrightarrow> b64_value (b64_digit d) = Some d"
  using map_of_zip_nth [of b64_alphabet "[0..<64]" d] by (simp add: b64_value_def b64_digit_def b64_alphabet_facts)

lemma b64_digit_in: "d < 64 \<Longrightarrow> b64_digit d \<in> set b64_alphabet"
  by (simp add: b64_digit_def b64_alphabet_facts)

lemma b64_digit_plain [simp]:
  assumes "d < 64"
  shows "b64_digit d \<noteq> CHR ''=''" and "b64_digit d \<noteq> CHR 0x0D" and "b64_digit d \<noteq> CHR 0x0A"
  using b64_digit_in [OF assms] b64_alphabet_facts by metis+

lemma b64_parts [simp]:
  "unat (a :: byte) div 4 < 64" "unat (a :: byte) mod 4 * 16 + unat (b :: byte) div 16 < 64" "unat (a :: byte) mod 4 * 16 < 64"
  "unat (b :: byte) mod 16 * 4 + unat (c :: byte) div 64 < 64" "unat (b :: byte) mod 16 * 4 < 64" "unat (c :: byte) mod 64 < 64"
  using byte_bound [of a] byte_bound [of b] byte_bound [of c] by auto

lemma b64_encode_no_breaks: "filter (\<lambda>ch. ch \<noteq> CHR 0x0D \<and> ch \<noteq> CHR 0x0A) (b64_encode bs) = b64_encode bs"
  by (induction bs rule: b64_encode.induct) simp_all

lemma b64_bytes:
  fixes a b c :: byte
  shows "b64_first (unat a div 4) (unat a mod 4 * 16 + unat b div 16) = a"
    and "b64_first (unat a div 4) (unat a mod 4 * 16) = a"
    and "b64_second (unat a mod 4 * 16 + unat b div 16) (unat b mod 16 * 4 + unat c div 64) = b"
    and "b64_second (unat a mod 4 * 16 + unat b div 16) (unat b mod 16 * 4) = b"
    and "b64_third (unat b mod 16 * 4 + unat c div 64) (unat c mod 64) = c"
proof -
  have a: "unat a div 4 * 4 + unat a mod 4 = unat a" and b: "unat b div 16 * 16 + unat b mod 16 = unat b"
    and c: "unat c div 64 * 64 + unat c mod 64 = unat c" by simp_all
  have lb: "unat b div 16 < 16" and lc: "unat c div 64 < 4" using byte_bound [of b] byte_bound [of c] by auto
  have "unat a div 4 * 4 + (unat a mod 4 * 16 + unat b div 16) div 16 = unat a"
      "unat a div 4 * 4 + (unat a mod 4 * 16) div 16 = unat a"
      "(unat a mod 4 * 16 + unat b div 16) mod 16 * 16 + (unat b mod 16 * 4 + unat c div 64) div 4 = unat b"
      "(unat a mod 4 * 16 + unat b div 16) mod 16 * 16 + (unat b mod 16 * 4) div 4 = unat b"
      "(unat b mod 16 * 4 + unat c div 64) mod 4 * 64 + unat c mod 64 = unat c"
    using a b c lb lc by simp_all
  then show "b64_first (unat a div 4) (unat a mod 4 * 16 + unat b div 16) = a"
    and "b64_first (unat a div 4) (unat a mod 4 * 16) = a"
    and "b64_second (unat a mod 4 * 16 + unat b div 16) (unat b mod 16 * 4 + unat c div 64) = b"
    and "b64_second (unat a mod 4 * 16 + unat b div 16) (unat b mod 16 * 4) = b"
    and "b64_third (unat b mod 16 * 4 + unat c div 64) (unat c mod 64) = c"
    unfolding b64_first_def b64_second_def b64_third_def by (simp_all only: of_nat_unat ucast_id)
qed

text \<open>What was encoded is what is decoded.\<close>

lemma b64_decode_encode: "b64_decode (b64_encode bs) = Some bs"
proof -
  have "b64_groups (b64_encode bs) = Some bs"
    by (induction bs rule: b64_encode.induct) (simp_all add: b64_bytes)
  then show ?thesis by (simp add: b64_decode_def b64_encode_no_breaks)
qed

end
