(* ===== verification/Control.thy ===== *)
theory Control
  imports Restore Monitor Encoding
begin

section \<open>The control socket (control.go, sort.go)\<close>

text \<open>
  What a connection asks of the daemon. The envelope and the payloads are the contract packages':
  the names of the commands, the protocol, the decoding of a payload out of its raw text and the
  validation of an open are one argument, \<open>wire\<close>. What the outside answers during one call (the
  clock, random bytes, whether the process takes a call, names for staged files, the start of a
  process, the operating system below a monitor, whether the answer could be written) is another, \<open>call\<close>.
  A handler answers a code with its error, or data. A session that left the registry while a
  connection still held it is closed, and what the connection does to it then is not kept.
\<close>

subsection \<open>Commands and payloads\<close>

datatype command = CommandOpen | CommandWrite | CommandResize | CommandAck | CommandClose | CommandSessions
  | CommandPane | CommandCloseWindow | CommandStatus | SessionsCommand | SessionCloseCommand | CommandModes
  | CommandLease | CommandDetachRenderer | CommandPrepareObserver | CommandDisplays | CommandProcessInventory
  | CommandObservers | CommandTail

datatype stream_command = CommandAttach | CommandAttachLease | CommandObserve | CommandObservePrepared
  | CommandProcessObserve

record tailRequest =
  tl_PaneID :: string
  tl_Bytes :: int

record Displays =
  dis_Session :: u64
  dis_Token :: string
  dis_Displays :: bool

text \<open>\<open>'j\<close> is the raw text of one argument.\<close>

record 'j wire =
  w_Protocol :: int
  w_Hello :: string
  w_Handoff :: string
  w_command :: "command \<Rightarrow> string"
  w_stream :: "stream_command \<Rightarrow> string"
  w_int :: "'j \<Rightarrow> string + int"
  w_string :: "'j \<Rightarrow> string + string"
  w_Open :: "'j \<Rightarrow> string + Open"
  w_Validate :: "Open \<Rightarrow> string option"
  w_Write :: "'j \<Rightarrow> string + u64 \<times> string"
  w_Resize :: "'j \<Rightarrow> string + u64 \<times> u16 \<times> u16"
  w_Ack :: "'j \<Rightarrow> string + u64 \<times> u64"
  w_Session :: "'j \<Rightarrow> string + u64"
  w_Pane :: "'j \<Rightarrow> string + string"
  w_Window :: "'j \<Rightarrow> string + string"
  w_Sessions :: "'j \<Rightarrow> string + string list"
  w_SessionClose :: "'j \<Rightarrow> string + string"
  w_Modes :: "'j \<Rightarrow> string + u64 \<times> byte list"
  w_Lease :: "'j \<Rightarrow> string + u64 \<times> u64"
  w_PrepareObserver :: "'j \<Rightarrow> string + PrepareObserver"
  w_Displays :: "'j \<Rightarrow> string + Displays"
  w_Tail :: "'j \<Rightarrow> string + tailRequest"
  w_Attach :: "'j \<Rightarrow> string + u64 \<times> u64 option"
  w_AttachLease :: "'j \<Rightarrow> string + string"
  w_Observe :: "'j \<Rightarrow> string + u64 \<times> string \<times> bool"
  w_ObservePrepared :: "'j \<Rightarrow> string + string"
  w_LeaseDurationMs :: int

record call =
  cl_now :: time
  cl_random :: "byte list option"
  cl_proc :: bool
  cl_tmp :: string
  cl_tmps :: "u64 \<Rightarrow> string list"
  cl_pf :: platform
  cl_os :: "u64 \<Rightarrow> os_answers"
  cl_wrote :: bool

type_synonym 'j args = "(string \<times> 'j) list"

record 'j Request =
  rq_ID :: string
  rq_Command :: string
  rq_Args :: "'j args"

subsection \<open>Answers\<close>

datatype ctl_error = NoRequestArgument | BadArgument string | InvalidOpen string | PaneRequired | BytesOutside
  | NoSuchSession u64 | NoPaneSession string | SessionError session_error | OpenError open_error
  | RingError ring_error | StoreError store_error | TokenRequired | FieldsRequired | RandomFailed
  | ObserverNotReady | NotBase64 | NoStoreKept | LeaseMissing | ObserverMissing | EventsUnsupported watch_error
  | BadProtocol string | WrongProtocol int int | BadToken string | WrongToken | NotGreeted
  | UnservedReason string | NoSuchCommand string | NotARequest string

record Opened =
  ope_Session :: u64
  ope_PaneID :: string
  ope_Generation :: u64
  ope_ShellPID :: u32
  ope_Created :: bool

record tail_answer =
  ta_paneId :: string
  ta_floor :: u64
  ta_through :: u64
  ta_retained :: nat
  ta_returned :: nat
  ta_dataB64 :: string

record Leased =
  lsd_Token :: string
  lsd_Session :: u64
  lsd_AfterSequence :: u64
  lsd_ExpiresAtMs :: int

record Table =
  tab_Commands :: "string list"
  tab_Unserved :: "(string \<times> string) list"

record Greeting =
  gr_Protocol :: int
  gr_Identity :: string
  gr_ProcessLabel :: string
  gr_Commands :: Table
  gr_Language :: string
  gr_Languages :: "string list"

datatype ctl_data = NoData | DataOpened Opened | DataBytes nat | DataResize u64 u16 u16 | DataAck u64 u64
  | DataSession u64 | DataSessions "Info list" | DataHeld string "Opened option" | DataWindow string "u64 list"
  | DataStatus "Info list" | DataReport SessionReport | DataSessionClosed SessionCloseResult
  | DataModes u64 "byte list" | DataLeased Leased | DataDetached u64 bool | DataObserverPrepared string
  | DataDisplayed u64 bool | DataInventory ProcessInventory | DataObservers "observer_count list"
  | DataTail tail_answer | DataGreeting Greeting | DataAttached u64 attach_mode u64 | DataObserved Observed
  | DataPreparedObserved string

text \<open>The data of a status leaves out the two constants of the contract that it repeats.\<close>

type_synonym answer = "(string \<times> ctl_error) + ctl_data"

text \<open>A response holds an answer, its code with its data, or the greeting, which has no code.\<close>

record Response =
  rsp_ID :: string
  rsp_Ok :: bool
  rsp_Error :: "ctl_error option"
  rsp_Code :: string
  rsp_Data :: ctl_data

subsection \<open>The daemon\<close>

text \<open>The registry and the monitoring fields of the struct are those of theory Monitor.\<close>

record daemon =
  dae_mon :: monitoring
  dae_token :: string
  dae_processLabel :: string
  dae_leases :: "(string \<times> u64) list"
  dae_pendingObservers :: "(string \<times> preparedObserver) list"

abbreviation dae_host :: "daemon \<Rightarrow> host" where
  "dae_host d \<equiv> dm_host (dae_mon d)"

definition set_host :: "host \<Rightarrow> daemon \<Rightarrow> daemon" where
  "set_host h d = d\<lparr>dae_mon := (dae_mon d)\<lparr>dm_host := h\<rparr>\<rparr>"

definition decode :: "('j \<Rightarrow> string + 'a) \<Rightarrow> 'j args \<Rightarrow> ctl_error + 'a" where
  "decode unmarshal args = (case map_of args ''request'' of
     None \<Rightarrow> Inl NoRequestArgument
   | Some raw \<Rightarrow> (case unmarshal raw of Inl e \<Rightarrow> Inl (BadArgument e) | Inr v \<Rightarrow> Inr v))"

text \<open>The first lines of a handler: its argument, and the session it names.\<close>

definition with_request :: "('j \<Rightarrow> string + 'a) \<Rightarrow> 'j args \<Rightarrow> ('a \<Rightarrow> daemon \<Rightarrow> answer \<times> daemon) \<Rightarrow> daemon \<Rightarrow> answer \<times> daemon" where
  "with_request unmarshal args f d = (case decode unmarshal args of
     Inl e \<Rightarrow> (Inl (''ARGUMENT'', e), d) | Inr request \<Rightarrow> f request d)"

definition with_session :: "u64 \<Rightarrow> (session \<Rightarrow> daemon \<Rightarrow> answer \<times> daemon) \<Rightarrow> daemon \<Rightarrow> answer \<times> daemon" where
  "with_session n f d = (case reg_get n (h_reg (dae_host d)) of
     None \<Rightarrow> (Inl (''NO_SESSION'', NoSuchSession n), d) | Some s \<Rightarrow> f s d)"

definition put_ses :: "session \<Rightarrow> daemon \<Rightarrow> daemon" where
  "put_ses s d = set_host (put_session s (dae_host d)) d"

subsection \<open>Looking at sessions\<close>

definition opened :: "session \<Rightarrow> bool \<Rightarrow> Opened" where
  "opened s created = \<lparr>ope_Session = ses_id s, ope_PaneID = ses_paneID s, ope_Generation = ses_generation s,
     ope_ShellPID = ses_pid s, ope_Created = created\<rparr>"

definition ctl_tail :: "'j wire \<Rightarrow> 'j args \<Rightarrow> daemon \<Rightarrow> answer \<times> daemon" where
  "ctl_tail w args = with_request (w_Tail w) args (\<lambda>request d.
     if tl_PaneID request = [] then (Inl (''ARGUMENT'', PaneRequired), d)
     else (let limit = (if tl_Bytes request = 0 then 4096 else tl_Bytes request)
       in if limit < 1 \<or> limit > 65536 then (Inl (''ARGUMENT'', BytesOutside), d)
          else (case byPane (tl_PaneID request) (h_reg (dae_host d)) of
              None \<Rightarrow> (Inl (''NO_SESSION'', NoPaneSession (tl_PaneID request)), d)
            | Some s \<Rightarrow> (case ring_snapshot (ses_ring s) of (floor, through, retained) \<Rightarrow>
                (let kept = (if int (length retained) > limit then drop (length retained - nat limit) retained else retained)
                 in (Inr (DataTail \<lparr>ta_paneId = tl_PaneID request, ta_floor = floor, ta_through = through,
                       ta_retained = length retained, ta_returned = length kept, ta_dataB64 = b64_encode kept\<rparr>), d))))))"

definition ctl_observers :: "daemon \<Rightarrow> answer \<times> daemon" where
  "ctl_observers d = (Inr (DataObservers (observerCounts (h_reg (dae_host d)))), d)"

definition ctl_sessions :: "daemon \<Rightarrow> answer \<times> daemon" where
  "ctl_sessions d = (Inr (DataSessions (reg_list (h_reg (dae_host d)))), d)"

definition ctl_status :: "daemon \<Rightarrow> answer \<times> daemon" where
  "ctl_status d = (Inr (DataStatus (reg_list (h_reg (dae_host d)))), d)"

definition ctl_pane :: "'j wire \<Rightarrow> 'j args \<Rightarrow> daemon \<Rightarrow> answer \<times> daemon" where
  "ctl_pane w args = with_request (w_Pane w) args (\<lambda>pane d.
     (Inr (DataHeld pane (map_option (\<lambda>s. opened s False) (byPane pane (h_reg (dae_host d))))), d))"

definition ctl_sessionReport :: "'j wire \<Rightarrow> 'j args \<Rightarrow> daemon \<Rightarrow> answer \<times> daemon" where
  "ctl_sessionReport w args = with_request (w_Sessions w) args (\<lambda>asked d.
     (Inr (DataReport (restoreReport asked (h_reg (dae_host d)))), d))"

definition ctl_processInventory :: "call \<Rightarrow> daemon \<Rightarrow> answer \<times> daemon" where
  "ctl_processInventory cl d = (let m = startProcessMonitoring (cl_os cl) (dae_mon d)
     in (Inr (DataInventory (inventory_snapshot (dm_state m))), d\<lparr>dae_mon := m\<rparr>))"

subsection \<open>Using one session\<close>

definition ctl_write :: "'j wire \<Rightarrow> call \<Rightarrow> 'j args \<Rightarrow> daemon \<Rightarrow> answer \<times> daemon" where
  "ctl_write w cl args = with_request (w_Write w) args (\<lambda>(n, text) d.
     case b64_decode text of
       None \<Rightarrow> (Inl (''ARGUMENT'', NotBase64), d)
     | Some data \<Rightarrow> with_session n (\<lambda>s d. case session_write (cl_proc cl) data s of
           (Inl e, s) \<Rightarrow> (Inl (''WRITE'', SessionError e), put_ses s d)
         | (Inr _, s) \<Rightarrow> (Inr (DataBytes (length data)), put_ses s d)) d)"

definition ctl_resize :: "'j wire \<Rightarrow> call \<Rightarrow> 'j args \<Rightarrow> daemon \<Rightarrow> answer \<times> daemon" where
  "ctl_resize w cl args = with_request (w_Resize w) args (\<lambda>(n, cols, rows). with_session n (\<lambda>s d.
     case session_resize (cl_proc cl) (cl_tmp cl) cols rows (s, h_obs (dae_host d), h_store (dae_host d)) of
       (x, s, obs, st) \<Rightarrow>
         (let d = set_host (put_session s ((dae_host d)\<lparr>h_obs := obs, h_store := st\<rparr>)) d
          in case x of Inl e \<Rightarrow> (Inl (''RESIZE'', SessionError e), d) | Inr _ \<Rightarrow> (Inr (DataResize n cols rows), d))))"

definition ctl_ack :: "contract \<Rightarrow> 'j wire \<Rightarrow> 'j args \<Rightarrow> daemon \<Rightarrow> answer \<times> daemon" where
  "ctl_ack c w args = with_request (w_Ack w) args (\<lambda>(n, through). with_session n (\<lambda>s d.
     (Inr (DataAck n through), put_ses (session_ack c through s) d)))"

definition ctl_detachRenderer :: "'j wire \<Rightarrow> call \<Rightarrow> 'j args \<Rightarrow> daemon \<Rightarrow> answer \<times> daemon" where
  "ctl_detachRenderer w cl args = with_request (w_Session w) args (\<lambda>n. with_session n (\<lambda>s d.
     case detachActiveRenderer (cl_now cl) s of (detached, s) \<Rightarrow> (Inr (DataDetached n detached), put_ses s d)))"

definition ctl_displays :: "'j wire \<Rightarrow> call \<Rightarrow> 'j args \<Rightarrow> daemon \<Rightarrow> answer \<times> daemon" where
  "ctl_displays w cl args = with_request (w_Displays w) args (\<lambda>request d.
     if dis_Token request = [] then (Inl (''ARGUMENT'', TokenRequired), d)
     else with_session (dis_Session request) (\<lambda>s d.
       case setDisplays (cl_now cl) (dis_Token request) (dis_Displays request) s of
         (Inl e, s) \<Rightarrow> (Inl (''OBSERVER_NOT_FOUND'', SessionError e), put_ses s d)
       | (Inr _, s) \<Rightarrow> (Inr (DataDisplayed (dis_Session request) (dis_Displays request)), put_ses s d)) d)"

definition ctl_modes :: "'j wire \<Rightarrow> call \<Rightarrow> 'j args \<Rightarrow> daemon \<Rightarrow> answer \<times> daemon" where
  "ctl_modes w cl args = with_request (w_Modes w) args (\<lambda>(n, report) d.
     if \<not> sessionStore (h_reg (dae_host d)) then (Inl (''UNSUPPORTED'', NoStoreKept), d)
     else (case (if report \<noteq> [] then setModes (cl_tmp cl) n report (h_store (dae_host d)) else (Inr (), h_store (dae_host d))) of
         (Inl e, st) \<Rightarrow> (Inl (''TARGET_NOT_FOUND'', StoreError e), set_host ((dae_host d)\<lparr>h_store := st\<rparr>) d)
       | (Inr _, st) \<Rightarrow> (case store_read n (st_disk st) of (x, dk) \<Rightarrow>
           (let d = set_host ((dae_host d)\<lparr>h_store := st\<lparr>st_disk := dk\<rparr>\<rparr>) d
            in case x of
                 Inl e \<Rightarrow> (Inl (''TARGET_NOT_FOUND'', StoreError e), d)
               | Inr record \<Rightarrow> (Inr (DataModes n (rec_Modes record)), d)))))"

subsection \<open>Ending sessions\<close>

definition ctl_closeSession :: "'j wire \<Rightarrow> call \<Rightarrow> 'j args \<Rightarrow> daemon \<Rightarrow> answer \<times> daemon" where
  "ctl_closeSession w cl args = with_request (w_Session w) args (\<lambda>n. with_session n (\<lambda>s d.
     case reg_close (cl_now cl) (cl_tmps cl) n (dae_host d) of
       (Inl _, h) \<Rightarrow> (Inl (''NO_SESSION'', NoSuchSession n), set_host h d)
     | (Inr _, h) \<Rightarrow> (Inr (DataSession n), set_host h d)))"

definition ctl_sessionClose :: "'j wire \<Rightarrow> call \<Rightarrow> 'j args \<Rightarrow> daemon \<Rightarrow> answer \<times> daemon" where
  "ctl_sessionClose w cl args = with_request (w_SessionClose w) args (\<lambda>name d.
     case closeSession (cl_now cl) (cl_tmps cl) name (dae_host d) of
       (result, h) \<Rightarrow> (Inr (DataSessionClosed result), set_host h d))"

fun close_labelled :: "call \<Rightarrow> string \<Rightarrow> Info list \<Rightarrow> u64 list \<times> host \<Rightarrow> u64 list \<times> host" where
  "close_labelled cl label [] acc = acc"
| "close_labelled cl label (info # infos) (ended, h) =
     (if inf_WindowLabel info = Some label then
        (case reg_close (cl_now cl) (cl_tmps cl) (inf_Session info) h of
           (Inl _, h) \<Rightarrow> close_labelled cl label infos (ended, h)
         | (Inr _, h) \<Rightarrow> close_labelled cl label infos (ended @ [inf_Session info], h))
      else close_labelled cl label infos (ended, h))"

definition ctl_closeWindow :: "'j wire \<Rightarrow> call \<Rightarrow> 'j args \<Rightarrow> daemon \<Rightarrow> answer \<times> daemon" where
  "ctl_closeWindow w cl args = with_request (w_Window w) args (\<lambda>label d.
     case close_labelled cl label (reg_list (h_reg (dae_host d))) ([], dae_host d) of
       (ended, h) \<Rightarrow> (Inr (DataWindow label ended), set_host h d))"

subsection \<open>Leases and prepared observers\<close>

definition ctl_lease :: "'j wire \<Rightarrow> call \<Rightarrow> 'j args \<Rightarrow> daemon \<Rightarrow> answer \<times> daemon" where
  "ctl_lease w cl args = with_request (w_Lease w) args (\<lambda>(n, aft). with_session n (\<lambda>s d.
     case cl_random cl of
       None \<Rightarrow> (Inl (''RANDOM'', RandomFailed), d)
     | Some bytes \<Rightarrow>
         (let token = hex_encode bytes
          in case ring_lease (ses_ring s) token aft of
               (Inl e, r) \<Rightarrow> (Inl (''LEASE_CURSOR'', RingError e), put_ses (s\<lparr>ses_ring := r\<rparr>) d)
             | (Inr _, r) \<Rightarrow>
                 (let d = put_ses (s\<lparr>ses_ring := r\<rparr>) d
                  in (Inr (DataLeased \<lparr>lsd_Token = token, lsd_Session = n, lsd_AfterSequence = aft,
                        lsd_ExpiresAtMs = UnixMilli (cl_now cl + w_LeaseDurationMs w * 1000000)\<rparr>),
                      d\<lparr>dae_leases := AList.update token n (dae_leases d)\<rparr>)))))"

text \<open>The timer of a lease, on the session it was granted for.\<close>

definition lease_expires :: "contract \<Rightarrow> string \<Rightarrow> u64 \<Rightarrow> daemon \<Rightarrow> daemon" where
  "lease_expires c token n d =
     (let d = d\<lparr>dae_leases := AList.delete token (dae_leases d)\<rparr>
      in case reg_get n (h_reg (dae_host d)) of
           None \<Rightarrow> d | Some s \<Rightarrow> put_ses (s\<lparr>ses_ring := expireLease c (ses_ring s) token\<rparr>) d)"

definition ctl_prepareObserver :: "contract \<Rightarrow> 'j wire \<Rightarrow> call \<Rightarrow> 'j args \<Rightarrow> daemon \<Rightarrow> answer \<times> daemon" where
  "ctl_prepareObserver c w cl args = with_request (w_PrepareObserver w) args (\<lambda>request d.
     if po_PaneID request = [] \<or> po_WindowLabel request = [] \<or> po_Provider request = []
     then (Inl (''ARGUMENT'', FieldsRequired), d)
     else (case cl_random cl of
         None \<Rightarrow> (Inl (''RANDOM'', RandomFailed), d)
       | Some bytes \<Rightarrow>
           (let token = hex_encode bytes;
                (i, obs) = obs_alloc (int (ObserverBufferBytes c)) (h_obs (dae_host d));
                d = set_host ((dae_host d)\<lparr>h_obs := obs\<rparr>) d
            in (Inr (DataObserverPrepared token), d\<lparr>dae_pendingObservers :=
                  AList.update token \<lparr>pre_request = request, pre_observer = i, pre_ready = False\<rparr>
                    (dae_pendingObservers d)\<rparr>))))"

definition preparation_expires :: "string \<Rightarrow> daemon \<Rightarrow> daemon" where
  "preparation_expires token d = d\<lparr>dae_pendingObservers := AList.delete token (dae_pendingObservers d)\<rparr>"

subsection \<open>Opening\<close>

text \<open>
  Three sections that other connections may come between: the prepared observer is taken, the pane is
  looked up, and the session found takes the observer or a new one is opened.
\<close>

definition take_pending :: "Open \<Rightarrow> daemon \<Rightarrow> preparedObserver option \<times> daemon" where
  "take_pending request d = (case map_of (dae_pendingObservers d) (op_ObserverToken request) of
     Some p \<Rightarrow>
       if pre_ready p \<and> po_PaneID (pre_request p) = op_PaneID request
          \<and> po_WindowLabel (pre_request p) = op_WindowLabel request
       then (Some p, d\<lparr>dae_pendingObservers := AList.delete (op_ObserverToken request) (dae_pendingObservers d)\<rparr>)
       else (None, d)
   | None \<Rightarrow> (None, d))"

definition open_begin :: "'j wire \<Rightarrow> 'j args \<Rightarrow> daemon \<Rightarrow> ((string \<times> ctl_error) + Open \<times> preparedObserver option) \<times> daemon" where
  "open_begin w args d = (case decode (w_Open w) args of
     Inl e \<Rightarrow> (Inl (''ARGUMENT'', e), d)
   | Inr request \<Rightarrow> (case w_Validate w request of
       Some e \<Rightarrow> (Inl (''ARGUMENT'', InvalidOpen e), d)
     | None \<Rightarrow>
         if op_ObserverToken request = [] then (Inr (request, None), d)
         else (case take_pending request d of
             (None, d) \<Rightarrow> (Inl (''OBSERVER_NOT_READY'', ObserverNotReady), d)
           | (Some p, d) \<Rightarrow> (Inr (request, Some p), d))))"

definition open_lookup :: "Open \<Rightarrow> daemon \<Rightarrow> session option" where
  "open_lookup request d = (case byPane (op_PaneID request) (h_reg (dae_host d)) of
     Some s \<Rightarrow> if op_PaneID request \<noteq> [] then Some s else None | None \<Rightarrow> None)"

definition open_finish :: "contract \<Rightarrow> call \<Rightarrow> Open \<Rightarrow> preparedObserver option \<Rightarrow> session option \<Rightarrow> daemon
    \<Rightarrow> (answer \<times> daemon) option" where
  "open_finish c cl request prepared existing d = (case existing of
     Some s \<Rightarrow> (case prepared of
         None \<Rightarrow> Some (Inr (DataOpened (opened s False)), d)
       | Some p \<Rightarrow> (case adoptObserver (op_ObserverToken request) (pre_observer p) (po_Displays (pre_request p)) (s, h_obs (dae_host d)) of
           (s, obs) \<Rightarrow> Some (Inr (DataOpened (opened s False)), set_host (put_session s ((dae_host d)\<lparr>h_obs := obs\<rparr>)) d)))
   | None \<Rightarrow> (case openWithObserver c (cl_pf cl) (cl_now cl) (cl_tmp cl) request prepared (dae_host d) of
       None \<Rightarrow> None
     | Some (Inl e, h) \<Rightarrow> Some (Inl (''OPEN'', OpenError e), set_host h d)
     | Some (Inr n, h) \<Rightarrow> Some (Inr (DataOpened (opened (the (reg_get n (h_reg h))) True)), set_host h d)))"

definition ctl_open :: "contract \<Rightarrow> 'j wire \<Rightarrow> call \<Rightarrow> 'j args \<Rightarrow> daemon \<Rightarrow> (answer \<times> daemon) option" where
  "ctl_open c w cl args d = (case open_begin w args d of
     (Inl e, d) \<Rightarrow> Some (Inl e, d)
   | (Inr (request, prepared), d) \<Rightarrow> open_finish c cl request prepared (open_lookup request d) d)"

subsection \<open>The table of commands\<close>

text \<open>Two diagnostic commands carry names of their own; every other name is the contract's.\<close>

definition command_name :: "'j wire \<Rightarrow> command \<Rightarrow> string" where
  "command_name w x = (case x of
     CommandObservers \<Rightarrow> ''pty.observers'' | CommandTail \<Rightarrow> ''pty.tail'' | _ \<Rightarrow> w_command w x)"

definition commands :: "'j wire \<Rightarrow> (string \<times> command) list" where
  "commands w = map (\<lambda>x. (command_name w x, x)) [CommandOpen, CommandWrite, CommandResize, CommandAck, CommandClose,
     CommandSessions, CommandPane, CommandCloseWindow, CommandStatus, SessionsCommand, SessionCloseCommand,
     CommandModes, CommandLease, CommandDetachRenderer, CommandPrepareObserver, CommandDisplays,
     CommandProcessInventory, CommandObservers, CommandTail]"

definition unserved :: "'j wire \<Rightarrow> (string \<times> string) list" where
  "unserved w = [(w_Handoff w, ''this daemon reports handoff level 0: no fd plan is written, and '' @
     ''ordering a handoff without one ends every shell it holds'')]"

definition run_command :: "contract \<Rightarrow> 'j wire \<Rightarrow> call \<Rightarrow> command \<Rightarrow> 'j args \<Rightarrow> daemon \<Rightarrow> (answer \<times> daemon) option" where
  "run_command c w cl x args d = (case x of
     CommandOpen \<Rightarrow> ctl_open c w cl args d
   | CommandWrite \<Rightarrow> Some (ctl_write w cl args d)
   | CommandResize \<Rightarrow> Some (ctl_resize w cl args d)
   | CommandAck \<Rightarrow> Some (ctl_ack c w args d)
   | CommandClose \<Rightarrow> Some (ctl_closeSession w cl args d)
   | CommandSessions \<Rightarrow> Some (ctl_sessions d)
   | CommandPane \<Rightarrow> Some (ctl_pane w args d)
   | CommandCloseWindow \<Rightarrow> Some (ctl_closeWindow w cl args d)
   | CommandStatus \<Rightarrow> Some (ctl_status d)
   | SessionsCommand \<Rightarrow> Some (ctl_sessionReport w args d)
   | SessionCloseCommand \<Rightarrow> Some (ctl_sessionClose w cl args d)
   | CommandModes \<Rightarrow> Some (ctl_modes w cl args d)
   | CommandLease \<Rightarrow> Some (ctl_lease w cl args d)
   | CommandDetachRenderer \<Rightarrow> Some (ctl_detachRenderer w cl args d)
   | CommandPrepareObserver \<Rightarrow> Some (ctl_prepareObserver c w cl args d)
   | CommandDisplays \<Rightarrow> Some (ctl_displays w cl args d)
   | CommandProcessInventory \<Rightarrow> Some (ctl_processInventory cl d)
   | CommandObservers \<Rightarrow> Some (ctl_observers d)
   | CommandTail \<Rightarrow> Some (ctl_tail w args d))"

subsection \<open>The greeting and the answers\<close>

definition refusal :: "string \<Rightarrow> string \<Rightarrow> ctl_error \<Rightarrow> Response" where
  "refusal ident code message = \<lparr>rsp_ID = ident, rsp_Ok = False, rsp_Error = Some message, rsp_Code = code, rsp_Data = NoData\<rparr>"

definition accepted :: "string \<Rightarrow> ctl_data \<Rightarrow> Response" where
  "accepted ident result = \<lparr>rsp_ID = ident, rsp_Ok = True, rsp_Error = None, rsp_Code = ''OK'', rsp_Data = result\<rparr>"

definition sortTable :: "Table \<Rightarrow> Table" where
  "sortTable table = \<lparr>tab_Commands = sort (tab_Commands table), tab_Unserved = sort_key fst (tab_Unserved table)\<rparr>"

definition greet_protocol :: "'j wire \<Rightarrow> 'j args \<Rightarrow> ctl_error option" where
  "greet_protocol w args = (case map_of args ''protocol'' of
     None \<Rightarrow> None
   | Some raw \<Rightarrow> (case w_int w raw of
       Inl e \<Rightarrow> Some (BadProtocol e)
     | Inr wanted \<Rightarrow> if wanted \<noteq> w_Protocol w then Some (WrongProtocol (w_Protocol w) wanted) else None))"

definition greet_token :: "'j wire \<Rightarrow> 'j args \<Rightarrow> string \<Rightarrow> ctl_error option" where
  "greet_token w args issued = (case (case map_of args ''token'' of None \<Rightarrow> Inr [] | Some raw \<Rightarrow> w_string w raw) of
     Inl e \<Rightarrow> Some (BadToken e)
   | Inr token \<Rightarrow> if token \<noteq> issued then Some WrongToken else None)"

definition greet :: "'j wire \<Rightarrow> 'j Request \<Rightarrow> bool \<Rightarrow> daemon \<Rightarrow> Response \<times> bool" where
  "greet w request greeted d = (case greet_protocol w (rq_Args request) of
     Some e \<Rightarrow> (refusal (rq_ID request) ''PROTOCOL'' e, greeted)
   | None \<Rightarrow> (case greet_token w (rq_Args request) (dae_token d) of
       Some e \<Rightarrow> (refusal (rq_ID request) ''TOKEN'' e, greeted)
     | None \<Rightarrow>
         (let table = sortTable \<lparr>tab_Commands = map fst (commands w), tab_Unserved = unserved w\<rparr>
          in (\<lparr>rsp_ID = rq_ID request, rsp_Ok = True, rsp_Error = None, rsp_Code = [],
                rsp_Data = DataGreeting \<lparr>gr_Protocol = w_Protocol w, gr_Identity = dm_identity (dae_mon d),
                  gr_ProcessLabel = dae_processLabel d, gr_Commands = table, gr_Language = ''en'', gr_Languages = [''en'']\<rparr>\<rparr>, True))))"

definition respond :: "string \<Rightarrow> answer \<Rightarrow> Response" where
  "respond ident x = (case x of Inl (code, e) \<Rightarrow> refusal ident code e | Inr result \<Rightarrow> accepted ident result)"

definition answer_request :: "contract \<Rightarrow> 'j wire \<Rightarrow> call \<Rightarrow> 'j Request \<Rightarrow> bool \<Rightarrow> daemon \<Rightarrow> ((Response \<times> bool) \<times> daemon) option" where
  "answer_request c w cl request greeted d =
     (if rq_Command request = w_Hello w then Some (greet w request greeted d, d)
      else if \<not> greeted then Some ((refusal (rq_ID request) ''GREETING'' NotGreeted, greeted), d)
      else (case map_of (unserved w) (rq_Command request) of
          Some reason \<Rightarrow> Some ((refusal (rq_ID request) ''UNSERVED'' (UnservedReason reason), greeted), d)
        | None \<Rightarrow> (case map_of (commands w) (rq_Command request) of
            None \<Rightarrow> Some ((refusal (rq_ID request) ''UNKNOWN_COMMAND'' (NoSuchCommand (rq_Command request)), greeted), d)
          | Some x \<Rightarrow> map_option (\<lambda>(result, d). ((respond (rq_ID request) result, greeted), d))
              (run_command c w cl x (rq_Args request) d))))"

subsection \<open>Streams\<close>

text \<open>
  A stream that was started, with what its end undoes: a renderer of a session, an observer of a
  session, a prepared observer of a pane, or a subscription to the inventory.
\<close>

datatype stream = OutputStream u64 u64 u64 | ObserverStream u64 nat | PreparedStream string nat | ProcessStream nat

type_synonym start_result = "(string \<times> ctl_error) + ctl_data \<times> stream"

definition ctl_attach :: "'j wire \<Rightarrow> 'j args \<Rightarrow> daemon \<Rightarrow> start_result \<times> daemon" where
  "ctl_attach w args d = (case decode (w_Attach w) args of
     Inl e \<Rightarrow> (Inl (''ARGUMENT'', e), d)
   | Inr (n, from) \<Rightarrow> (case reg_get n (h_reg (dae_host d)) of
       None \<Rightarrow> (Inl (''NO_SESSION'', NoSuchSession n), d)
     | Some s \<Rightarrow> (case attachRenderer s of (generation, s) \<Rightarrow>
         (case ring_resolve (ses_ring s) from of (at, mode) \<Rightarrow>
           (Inr (DataAttached (ses_id s) mode at, OutputStream n generation at), put_ses s d)))))"

definition stream_end :: "time \<Rightarrow> stream \<Rightarrow> daemon \<Rightarrow> daemon" where
  "stream_end now st d = (case st of
     OutputStream n generation _ \<Rightarrow> (case reg_get n (h_reg (dae_host d)) of
       None \<Rightarrow> d | Some s \<Rightarrow> put_ses (detachRenderer now generation s) d)
   | ObserverStream n i \<Rightarrow> (case reg_get n (h_reg (dae_host d)) of
       None \<Rightarrow> d
     | Some s \<Rightarrow> (case removeObserver now i (s, h_obs (dae_host d)) of
         (s, obs) \<Rightarrow> set_host (put_session s ((dae_host d)\<lparr>h_obs := obs\<rparr>)) d))
   | PreparedStream pane i \<Rightarrow> (case byPane pane (h_reg (dae_host d)) of
       None \<Rightarrow> d
     | Some s \<Rightarrow> (case removeObserver now i (s, h_obs (dae_host d)) of
         (s, obs) \<Rightarrow> set_host (put_session s ((dae_host d)\<lparr>h_obs := obs\<rparr>)) d))
   | ProcessStream i \<Rightarrow> d\<lparr>dae_mon := (dae_mon d)\<lparr>dm_state := inventory_stop i (dm_state (dae_mon d))\<rparr>\<rparr>)"

text \<open>The deferred detach runs on every way out of an attach by lease, the refusal of the lease included.\<close>

definition ctl_attachLease :: "contract \<Rightarrow> 'j wire \<Rightarrow> call \<Rightarrow> 'j args \<Rightarrow> daemon \<Rightarrow> start_result \<times> daemon" where
  "ctl_attachLease c w cl args d = (case decode (w_AttachLease w) args of
     Inl e \<Rightarrow> (Inl (''ARGUMENT'', e), d)
   | Inr token \<Rightarrow> (case map_of (dae_leases d) token of
       None \<Rightarrow> (Inl (''LEASE_NOT_FOUND'', LeaseMissing), d)
     | Some n \<Rightarrow>
         (let d = d\<lparr>dae_leases := AList.delete token (dae_leases d)\<rparr>
          in case reg_get n (h_reg (dae_host d)) of
               None \<Rightarrow> (Inl (''NO_SESSION'', NoSuchSession n), d)
             | Some s \<Rightarrow> (case replaceRenderer s of (generation, s) \<Rightarrow>
                 (case consumeLease c (ses_ring s) token of
                    (Inl e, r) \<Rightarrow> (Inl (''LEASE_BROKEN'', RingError e),
                       put_ses (detachRenderer (cl_now cl) generation (s\<lparr>ses_ring := r\<rparr>)) d)
                  | (Inr at, r) \<Rightarrow> (Inr (DataAttached n ModeResumed at, OutputStream n generation at),
                       put_ses (s\<lparr>ses_ring := r\<rparr>) d))))))"

definition ctl_observe :: "contract \<Rightarrow> 'j wire \<Rightarrow> 'j args \<Rightarrow> daemon \<Rightarrow> start_result \<times> daemon" where
  "ctl_observe c w args d = (case decode (w_Observe w) args of
     Inl e \<Rightarrow> (Inl (''ARGUMENT'', e), d)
   | Inr (n, token, displays) \<Rightarrow> (case reg_get n (h_reg (dae_host d)) of
       None \<Rightarrow> (Inl (''NO_SESSION'', NoSuchSession n), d)
     | Some s \<Rightarrow> (case session_observe c token displays (s, h_obs (dae_host d)) of
         (x, s, obs) \<Rightarrow>
           (let d = set_host (put_session s ((dae_host d)\<lparr>h_obs := obs\<rparr>)) d
            in case x of
                 Inl e \<Rightarrow> (Inl (''OBSERVER_TOKEN'', SessionError e), d)
               | Inr (i, observed) \<Rightarrow> (Inr (DataObserved observed, ObserverStream n i), d)))))"

definition ctl_observePrepared :: "'j wire \<Rightarrow> 'j args \<Rightarrow> daemon \<Rightarrow> start_result \<times> daemon" where
  "ctl_observePrepared w args d = (case decode (w_ObservePrepared w) args of
     Inl e \<Rightarrow> (Inl (''ARGUMENT'', e), d)
   | Inr token \<Rightarrow> (case map_of (dae_pendingObservers d) token of
       None \<Rightarrow> (Inl (''OBSERVER_NOT_FOUND'', ObserverMissing), d)
     | Some p \<Rightarrow> (Inr (DataPreparedObserved token, PreparedStream (po_PaneID (pre_request p)) (pre_observer p)),
         d\<lparr>dae_pendingObservers := AList.update token (p\<lparr>pre_ready := True\<rparr>) (dae_pendingObservers d)\<rparr>)))"

definition ctl_processObserve :: "call \<Rightarrow> daemon \<Rightarrow> start_result \<times> daemon" where
  "ctl_processObserve cl d =
     (let m = startProcessMonitoring (cl_os cl) (dae_mon d)
      in case events_supported (case dm_events m of None \<Rightarrow> UnsupportedEvents | Some source \<Rightarrow> source) of
           Inl e \<Rightarrow> (Inl (''PROCESS_OBSERVE_UNSUPPORTED'', EventsUnsupported e), d\<lparr>dae_mon := m\<rparr>)
         | Inr _ \<Rightarrow> (case inventory_observe (dm_state m) of (snapshot, i, st) \<Rightarrow>
             (Inr (DataInventory snapshot, ProcessStream i), d\<lparr>dae_mon := m\<lparr>dm_state := st\<rparr>\<rparr>)))"

definition start_stream :: "contract \<Rightarrow> 'j wire \<Rightarrow> call \<Rightarrow> stream_command \<Rightarrow> 'j args \<Rightarrow> daemon \<Rightarrow> start_result \<times> daemon" where
  "start_stream c w cl x args d = (case x of
     CommandProcessObserve \<Rightarrow> ctl_processObserve cl d
   | CommandAttach \<Rightarrow> ctl_attach w args d
   | CommandAttachLease \<Rightarrow> ctl_attachLease c w cl args d
   | CommandObserve \<Rightarrow> ctl_observe c w args d
   | CommandObservePrepared \<Rightarrow> ctl_observePrepared w args d)"

subsection \<open>A connection\<close>

definition stream_of :: "'j wire \<Rightarrow> string \<Rightarrow> stream_command option" where
  "stream_of w name = map_of (map (\<lambda>x. (w_stream w x, x))
     [CommandProcessObserve, CommandAttach, CommandAttachLease, CommandObserve, CommandObservePrepared]) name"

datatype next_line = NextLine bool | Hangup | Streaming stream

text \<open>
  One line of a connection. An answer that cannot be written ends it, and takes back what starting a
  stream did, but for a prepared observer.
\<close>

definition serve_line :: "contract \<Rightarrow> 'j wire \<Rightarrow> call \<Rightarrow> string + 'j Request \<Rightarrow> bool \<Rightarrow> daemon
    \<Rightarrow> ((Response \<times> next_line) \<times> daemon) option" where
  "serve_line c w cl line greeted d = (case line of
     Inl e \<Rightarrow> Some ((\<lparr>rsp_ID = [], rsp_Ok = False, rsp_Error = Some (NotARequest e), rsp_Code = [], rsp_Data = NoData\<rparr>,
         if cl_wrote cl then NextLine greeted else Hangup), d)
   | Inr request \<Rightarrow> (case stream_of w (rq_Command request) of
       Some x \<Rightarrow>
         if \<not> greeted then Some ((refusal (rq_ID request) ''GREETING'' NotGreeted, Hangup), d)
         else Some (case start_stream c w cl x (rq_Args request) d of
             (Inl (code, e), d) \<Rightarrow> ((refusal (rq_ID request) code e, Hangup), d)
           | (Inr (result, st), d) \<Rightarrow>
               if cl_wrote cl then ((accepted (rq_ID request) result, Streaming st), d)
               else ((accepted (rq_ID request) result, Hangup),
                     case st of PreparedStream _ _ \<Rightarrow> d | _ \<Rightarrow> stream_end (cl_now cl) st d))
     | None \<Rightarrow> map_option (\<lambda>((response, greeted), d).
           ((response, if cl_wrote cl then NextLine greeted else Hangup), d))
         (answer_request c w cl request greeted d)))"

fun serveControl :: "contract \<Rightarrow> 'j wire \<Rightarrow> bool \<Rightarrow> (call \<times> (string + 'j Request)) list \<Rightarrow> daemon
    \<Rightarrow> ((Response list \<times> next_line) \<times> daemon) option" where
  "serveControl c w greeted [] d = Some (([], NextLine greeted), d)"
| "serveControl c w greeted ((cl, line) # lines) d = (case serve_line c w cl line greeted d of
     None \<Rightarrow> None
   | Some ((response, NextLine greeted), d) \<Rightarrow>
       map_option (\<lambda>((responses, final), d). ((response # responses, final), d)) (serveControl c w greeted lines d)
   | Some ((response, final), d) \<Rightarrow> Some (([response], final), d))"

end
