(* ===== verification/ControlRuns.thy ===== *)
theory ControlRuns
  imports Control
begin

section \<open>What connections can do to the daemon\<close>

text \<open>
  The properties of the control socket: what a connection reaches before it has greeted, what any
  sequence of commands keeps of the sessions and their panes, and two
  places where commands that meet leave a session in a state no one asked for.
\<close>

subsection \<open>What a command keeps of the sessions\<close>

definition same_shell :: "session \<Rightarrow> session \<Rightarrow> bool" where
  "same_shell s s' \<longleftrightarrow> ses_id s' = ses_id s \<and> ses_pid s' = ses_pid s \<and> ses_closed s' = ses_closed s
     \<and> set (ses_process s) \<subseteq> set (ses_process s') \<and> ses_paneID s' = ses_paneID s"

lemma same_shell_refl [simp]: "same_shell s s"
  by (simp add: same_shell_def)

lemma same_shell_ring: "same_shell s s' \<Longrightarrow> same_shell s (s'\<lparr>ses_ring := r\<rparr>)"
  by (simp add: same_shell_def)

lemma same_shell_trans: "same_shell s t \<Longrightarrow> same_shell t u \<Longrightarrow> same_shell s u"
  by (auto simp: same_shell_def)

lemma same_shell_ops:
  "session_write ok data s = (x1, s1) \<Longrightarrow> same_shell s s1"
  "session_resize ok tmp cols rows (s, h, dk) = (x2, s2, h2, dk2) \<Longrightarrow> same_shell s s2"
  "same_shell s (session_ack c through s)"
  "detachActiveRenderer now s = (b, s3) \<Longrightarrow> same_shell s s3"
  "setDisplays now token displays s = (x4, s4) \<Longrightarrow> same_shell s s4"
  "attachRenderer s = (g, s5) \<Longrightarrow> same_shell s s5"
  "replaceRenderer s = (g, s6) \<Longrightarrow> same_shell s s6"
  "same_shell s (detachRenderer now g s)"
  "session_observe c token displays (s, h) = (x7, s7, h7) \<Longrightarrow> same_shell s s7"
  "removeObserver now i (s, h) = (s8, h8) \<Longrightarrow> same_shell s s8"
  "adoptObserver token i displays (s, h) = (s9, h9) \<Longrightarrow> same_shell s s9"
  by (auto simp: same_shell_def Let_def attachRenderer_def replaceRenderer_def detachRenderer_def signal_resume_def
      detach_locked_def detachActiveRenderer_def detach_active_locked_def session_write_def session_resize_def
      session_observe_def removeObserver_def setDisplays_def adoptObserver_def session_ack_def show_to_def
      split: prod.splits option.splits if_splits)

text \<open>
  \<open>kept\<close>: from a registry in order to one in order, with the same shells accounted for, no new
  session, and every session that stays in its pane.
\<close>

definition kept :: "host \<Rightarrow> host \<Rightarrow> bool" where
  "kept h h' \<longleftrightarrow> (host_ok h \<longrightarrow> host_ok h' \<and> mset (host_pids h') = mset (host_pids h)
     \<and> (\<forall>n s'. reg_get n (h_reg h') = Some s' \<longrightarrow> (\<exists>s. reg_get n (h_reg h) = Some s \<and> ses_paneID s' = ses_paneID s)))"

lemma kept_refl [simp]: "kept h h"
  by (simp add: kept_def)

lemma kept_trans: "kept h h' \<Longrightarrow> kept h' h'' \<Longrightarrow> kept h h''"
  unfolding kept_def by metis

lemma kept_same:
  assumes "reg_sessions (h_reg h') = reg_sessions (h_reg h)" and "reg_stopped (h_reg h') = reg_stopped (h_reg h)"
    and "h_gone h' = h_gone h" and "h_killed h' = h_killed h"
  shows "kept h h'"
  using assms by (simp add: kept_def host_ok_def host_pids_def reg_get_def)

lemma kept_put:
  assumes "reg_get n (h_reg h) = Some s" and "same_shell s s'" and "h_reg h' = h_reg h" and "h_gone h' = h_gone h"
    and "h_killed h' = h_killed h"
  shows "kept h (put_session s' h')"
  unfolding kept_def
proof (intro impI conjI allI)
  assume ok: "host_ok h"
  then have n: "ses_id s = n" "ses_closed s \<longrightarrow> shell_ended s"
    using assms(1) by (auto simp: host_ok_def reg_get_def dest: map_of_SomeD)
  then have "ses_id s' = n" "ses_pid s' = ses_pid s" "ses_closed s' \<longrightarrow> shell_ended s'"
    using assms(2) by (auto simp: same_shell_def shell_ended_def)
  from host_ok_put [OF ok assms(1) this assms(3-5)]
  show "host_ok (put_session s' h')" "mset (host_pids (put_session s' h')) = mset (host_pids h)" by simp_all
  show "\<exists>t. reg_get k (h_reg h) = Some t \<and> ses_paneID u = ses_paneID t" if "reg_get k (h_reg (put_session s' h')) = Some u" for k u
    using that assms n \<open>ses_id s' = n\<close>
    by (cases "k = n") (auto simp: put_session_def reg_get_def AList.update_conv' same_shell_def)
qed

lemma reg_close_sessions:
  assumes "host_ok h" and "reg_close now tmps n h = (x, h')"
  shows "reg_get k (h_reg h') = (if k = n then None else reg_get k (h_reg h))"
    and "x = (if reg_get n (h_reg h) = None then Inl (NoSession n) else Inr ())"
proof -
  have "reg_sessions (h_reg h') = AList.delete n (reg_sessions (h_reg h))"
  proof (cases "reg_get n (h_reg h)")
    case (Some s)
    then have sn: "(n, s) \<in> set (reg_sessions (h_reg h))" by (auto simp: reg_get_def dest: map_of_SomeD)
    have "h_reg (reap_gone now tmps True s h0) = h_reg h0" for h0
      using reap_gone_frame [OF closed_ended [OF assms(1) sn], of now tmps True h0] by auto
    with assms Some show ?thesis by (auto simp: reg_close_def Let_def forgetOutcome_def split: if_splits)
  qed (use assms in \<open>auto simp: reg_close_def Let_def forgetOutcome_def split: if_splits\<close>)
  then show "reg_get k (h_reg h') = (if k = n then None else reg_get k (h_reg h))"
    by (simp add: reg_get_def AList.delete_conv')
  show "x = (if reg_get n (h_reg h) = None then Inl (NoSession n) else Inr ())"
    using assms(2) by (auto simp: reg_close_def Let_def split: option.splits)
qed

lemma kept_close:
  assumes "reg_close now tmps n h = (x, h')"
  shows "kept h h'"
  unfolding kept_def
proof (intro impI conjI allI)
  assume ok: "host_ok h"
  from reg_close_ok [OF this assms] show "host_ok h'" "mset (host_pids h') = mset (host_pids h)" by simp_all
  show "\<exists>t. reg_get k (h_reg h) = Some t \<and> ses_paneID u = ses_paneID t" if "reg_get k (h_reg h') = Some u" for k u
    using that reg_close_sessions(1) [OF ok assms, of k] by (auto split: if_splits)
qed

lemma set_host_host [simp]: "dae_host (set_host h d) = h"
  by (simp add: set_host_def)

lemma put_ses_host [simp]: "dae_host (put_ses s d) = put_session s (dae_host d)"
  by (simp add: put_ses_def)

lemma kept_close_labelled:
  "close_labelled cl label infos (ended, h) = (ended', h') \<Longrightarrow> kept h h'"
proof (induction infos arbitrary: ended h)
  case (Cons info infos)
  show ?case
  proof (cases "inf_WindowLabel info = Some label")
    case True
    obtain x h1 where c: "reg_close (cl_now cl) (cl_tmps cl) (inf_Session info) h = (x, h1)" by fastforce
    then obtain e1 where "close_labelled cl label infos (e1, h1) = (ended', h')"
      using Cons.prems True by (auto split: sum.splits)
    from kept_trans [OF kept_close [OF c] Cons.IH [OF this]] show ?thesis .
  next
    case False
    with Cons show ?thesis by simp
  qed
qed simp

lemma monitoring_host:
  shows "\<exists>st. dm_host (reconcile os r d) = (dm_host d)\<lparr>h_store := st\<rparr>"
    and "\<exists>st. dm_host (processSessionStarted os s d) = (dm_host d)\<lparr>h_store := st\<rparr>"
proof -
  have same: "\<exists>st. h = h\<lparr>h_store := st\<rparr>" for h :: host by (rule exI [of _ "h_store h"]) simp
  have fg: "\<exists>st. dm_host (recordForeground os es r d) = (dm_host d)\<lparr>h_store := st\<rparr>" for es d r
    using same [of "dm_host d"] by (auto simp: recordForeground_def Let_def split: prod.split sum.split)
  have com: "dm_host (commit_records os ps r d) = dm_host d" for ps r d
    by (simp add: commit_records_def replace_records_def)
  have fg2: "\<exists>st. dm_host (recordForeground os es r (upd_mon r f d)) = (dm_host d)\<lparr>h_store := st\<rparr>" for es f r d
    using fg [of es r "upd_mon r f d"] by simp
  show rec: "\<exists>st. dm_host (reconcile os r d) = (dm_host d)\<lparr>h_store := st\<rparr>" for r d
    using same [of "dm_host d"] fg2
    by (simp add: reconcile_def com Let_def split: option.split sum.split prod.split)
  have "dm_host (snd (monitor_register os s d)) = dm_host d"
    by (simp add: monitor_register_def replace_records_def Let_def)
  then show "\<exists>st. dm_host (processSessionStarted os s d) = (dm_host d)\<lparr>h_store := st\<rparr>"
    using rec [of _ "snd (monitor_register os s d)"] same [of "dm_host d"]
    by (cases "monitor_register os s d") (auto simp: processSessionStarted_def split: option.split)
qed

lemma monitoring_fold_host:
  "\<exists>st. dm_host (fold (\<lambda>s. processSessionStarted (os (ses_id s)) s) ss d) = (dm_host d)\<lparr>h_store := st\<rparr>"
proof (induction ss arbitrary: d)
  case Nil
  show ?case by (rule exI [of _ "h_store (dm_host d)"]) simp
next
  case (Cons s ss)
  obtain st where "dm_host (processSessionStarted (os (ses_id s)) s d) = (dm_host d)\<lparr>h_store := st\<rparr>"
    using monitoring_host(2) by blast
  with Cons [of "processSessionStarted (os (ses_id s)) s d"] show ?case by auto
qed

lemma startProcessMonitoring_host:
  "\<exists>st. dm_host (startProcessMonitoring os d) = (dm_host d)\<lparr>h_store := st\<rparr>
    \<or> dm_host (startProcessMonitoring os d) = (snd (bindProcessLifecycle (dm_host d)))\<lparr>h_store := st\<rparr>"
proof (cases "dm_setup d")
  case True
  then show ?thesis by (intro exI [of _ "h_store (dm_host d)"]) (simp add: startProcessMonitoring_def)
next
  case False
  then obtain d1 existing where "dm_host (startProcessMonitoring os d) =
      dm_host (fold (\<lambda>s. processSessionStarted (os (ses_id s)) s) existing d1)"
      "dm_host d1 = snd (bindProcessLifecycle (dm_host d))"
    by (simp add: startProcessMonitoring_def split_def Let_def)
  with monitoring_fold_host [of os existing d1] show ?thesis by auto
qed

lemma kept_startProcessMonitoring: "kept (dm_host d) (dm_host (startProcessMonitoring os d))"
  using startProcessMonitoring_host [of os d] by (intro kept_same) (auto simp: bindProcessLifecycle_def)

lemma kept_session:
  assumes "\<And>s. reg_get n (h_reg (dae_host d)) = Some s \<Longrightarrow> kept (dae_host d) (dae_host (snd (f s d)))"
  shows "kept (dae_host d) (dae_host (snd (with_session n f d)))"
  using assms by (simp add: with_session_def split: option.split)

lemma kept_request:
  assumes "\<And>x. kept (dae_host d) (dae_host (snd (f x d)))"
  shows "kept (dae_host d) (dae_host (snd (with_request unmarshal args f d)))"
  using assms by (simp add: with_request_def split: sum.split)

lemma kept_put_at:
  assumes "reg_get n (h_reg h) = Some s" and "same_shell s s'"
  shows "kept h (put_session s' h)" and "kept h (put_session s' (h\<lparr>h_obs := obs\<rparr>))"
    and "kept h (put_session s' (h\<lparr>h_obs := obs, h_store := st\<rparr>))"
  by (rule kept_put [OF assms]; simp)+

lemmas kept_ops =
  kept_put_at(1) [OF _ same_shell_ops(1)] kept_put_at(3) [OF _ same_shell_ops(2)] kept_put_at(1) [OF _ same_shell_ops(3)]
  kept_put_at(1) [OF _ same_shell_ops(4)] kept_put_at(1) [OF _ same_shell_ops(5)] kept_put_at(1) [OF _ same_shell_ops(6)]
  kept_put_at(1) [OF _ same_shell_ops(8)] kept_put_at(2) [OF _ same_shell_ops(9)] kept_put_at(2) [OF _ same_shell_ops(10)]
  kept_put_at(2) [OF _ same_shell_ops(11)] kept_put_at(1) [OF _ same_shell_ring [OF same_shell_refl]]
  kept_put_at(1) [OF _ same_shell_ring [OF same_shell_ops(7)]]
  kept_put_at(1) [OF _ same_shell_trans [OF same_shell_ring [OF same_shell_ops(7)] same_shell_ops(8)]]

lemma kept_write: "kept (dae_host d) (dae_host (snd (ctl_write w cl args d)))"
  unfolding ctl_write_def
  by (rule kept_request) (auto intro!: kept_session split: prod.split sum.split option.split dest: kept_ops(1))

lemma kept_resize: "kept (dae_host d) (dae_host (snd (ctl_resize w cl args d)))"
  unfolding ctl_resize_def
  by (rule kept_request) (auto intro!: kept_session simp: Let_def split: prod.split sum.split intro: kept_ops(2))

lemma kept_ack: "kept (dae_host d) (dae_host (snd (ctl_ack c w args d)))"
  unfolding ctl_ack_def by (rule kept_request) (auto intro!: kept_session kept_ops(3) split: prod.split)

lemma kept_detachRenderer: "kept (dae_host d) (dae_host (snd (ctl_detachRenderer w cl args d)))"
  unfolding ctl_detachRenderer_def
  by (rule kept_request) (auto intro!: kept_session split: prod.split dest: kept_ops(4))

lemma kept_displays: "kept (dae_host d) (dae_host (snd (ctl_displays w cl args d)))"
  unfolding ctl_displays_def
  by (rule kept_request) (auto intro!: kept_session split: prod.split sum.split dest: kept_ops(5))

lemma kept_lease: "kept (dae_host d) (dae_host (snd (ctl_lease w cl args d)))"
  unfolding ctl_lease_def
  by (rule kept_request) (auto intro!: kept_session simp: Let_def split: prod.split sum.split option.split intro: kept_ops(11))

lemma kept_ends:
  "kept (dae_host d) (dae_host (snd (ctl_closeSession w cl args d)))"
  "kept (dae_host d) (dae_host (snd (ctl_sessionClose w cl args d)))"
  "kept (dae_host d) (dae_host (snd (ctl_closeWindow w cl args d)))"
  unfolding ctl_closeSession_def ctl_sessionClose_def ctl_closeWindow_def closeSession_def
  by (rule kept_request; auto intro!: kept_session simp: Let_def split: prod.split sum.split option.split
      dest: kept_close kept_close_labelled)+

lemma kept_modes: "kept (dae_host d) (dae_host (snd (ctl_modes w cl args d)))"
proof -
  have store: "kept h (h\<lparr>h_store := st\<rparr>)" for h st by (rule kept_same) simp_all
  show ?thesis
    unfolding ctl_modes_def
    by (rule kept_request) (auto simp: Let_def store split: prod.split sum.split)
qed

lemma kept_others:
  "kept (dae_host d) (dae_host (snd (ctl_prepareObserver c w cl args d)))"
  "kept (dae_host d) (dae_host (snd (ctl_tail w args d)))"
  "kept (dae_host d) (dae_host (snd (ctl_pane w args d)))"
  "kept (dae_host d) (dae_host (snd (ctl_sessionReport w args d)))"
  "kept (dae_host d) (dae_host (snd (ctl_processInventory cl d)))"
proof -
  have heap: "kept h (h\<lparr>h_obs := obs\<rparr>)" for h obs by (rule kept_same) simp_all
  show "kept (dae_host d) (dae_host (snd (ctl_prepareObserver c w cl args d)))"
    unfolding ctl_prepareObserver_def
    by (rule kept_request) (auto simp: Let_def heap split: prod.split option.split)
  show "kept (dae_host d) (dae_host (snd (ctl_tail w args d)))"
    unfolding ctl_tail_def by (rule kept_request) (auto simp: Let_def split: prod.split option.split)
  show "kept (dae_host d) (dae_host (snd (ctl_pane w args d)))"
    "kept (dae_host d) (dae_host (snd (ctl_sessionReport w args d)))"
    unfolding ctl_pane_def ctl_sessionReport_def by (rule kept_request; simp)+
  show "kept (dae_host d) (dae_host (snd (ctl_processInventory cl d)))"
    by (simp add: ctl_processInventory_def Let_def kept_startProcessMonitoring)
qed

lemmas kept_commands = kept_write kept_resize kept_ack kept_detachRenderer kept_displays kept_lease kept_ends kept_modes kept_others

lemma run_command_kept:
  assumes "run_command c w cl x args d = Some (result, d')" and "x \<noteq> CommandOpen"
  shows "kept (dae_host d) (dae_host d')"
proof -
  have d': "kept (dae_host d) (dae_host (snd p)) \<Longrightarrow> p = (result, d') \<Longrightarrow> kept (dae_host d) (dae_host d')" for p
    by simp
  show ?thesis
    using assms by (cases x) (auto simp: run_command_def ctl_sessions_def ctl_status_def ctl_observers_def intro: kept_commands [THEN d'])
qed

lemma kept_stream_end: "kept (dae_host d) (dae_host (stream_end now st d))"
proof (cases st)
  case (PreparedStream pane i)
  have "kept (dae_host d) (put_session s' ((dae_host d)\<lparr>h_obs := obs\<rparr>))"
    if found: "byPane pane (h_reg (dae_host d)) = Some s" and removed: "removeObserver now i (s, h_obs (dae_host d)) = (s', obs)" for s s' obs
  proof (cases "host_ok (dae_host d)")
    case True
    obtain n where "(n, s) \<in> set (reg_sessions (h_reg (dae_host d)))"
      using find_in [OF found [unfolded byPane_def]] by auto
    then have "reg_get n (h_reg (dae_host d)) = Some s" using True by (auto simp: reg_get_def host_ok_def)
    then show ?thesis using removed by (rule kept_ops(9))
  qed (simp add: kept_def)
  then show ?thesis by (auto simp: stream_end_def PreparedStream split: option.split prod.split)
next
  case (ObserverStream n i)
  then show ?thesis by (auto simp: stream_end_def split: option.split prod.split intro: kept_ops(9))
qed (auto simp: stream_end_def split: option.split intro: kept_ops(7))

lemma kept_start_stream:
  assumes "start_stream c w cl x args d = (result, d')"
  shows "kept (dae_host d) (dae_host d')"
proof -
  have "kept (dae_host d) (dae_host (snd (ctl_attach w args d)))"
    by (auto simp: ctl_attach_def split: sum.split option.split prod.split intro: kept_ops(6))
  moreover have "kept (dae_host d) (dae_host (snd (ctl_attachLease c w cl args d)))"
    by (auto simp: ctl_attachLease_def Let_def split: sum.split option.split prod.split intro: kept_ops(12,13))
  moreover have "kept (dae_host d) (dae_host (snd (ctl_observe c w args d)))"
    by (auto simp: ctl_observe_def Let_def split: sum.split option.split prod.split intro: kept_ops(8))
  moreover have "kept (dae_host d) (dae_host (snd (ctl_observePrepared w args d)))"
    by (simp add: ctl_observePrepared_def split: sum.split option.split)
  moreover have "kept (dae_host d) (dae_host (snd (ctl_processObserve cl d)))"
    by (simp add: ctl_processObserve_def Let_def kept_startProcessMonitoring split: sum.split prod.split)
  ultimately have "kept (dae_host d) (dae_host (snd (start_stream c w cl x args d)))"
    by (cases x) (simp_all add: start_stream_def)
  with assms show ?thesis by simp
qed

lemma kept_lease_expires: "kept (dae_host d) (dae_host (lease_expires c token n d))"
  by (auto simp: lease_expires_def Let_def split: option.split intro: kept_ops(11))

lemma kept_on_session:
  assumes "\<forall>tmps ended. op \<noteq> SReap tmps ended"
  shows "kept h (on_session c now n op h)"
proof (cases "reg_get n (h_reg h)")
  case (Some s)
  define wd where "wd = \<lparr>sw_ses = s, sw_heap = h_obs h, sw_store = h_store h, sw_out = [], sw_taken = (\<lambda>_. [])\<rparr>"
  have "same_shell s (sw_ses (session_step c now wd op))"
    using step_frame [OF assms, of wd c now] by (simp add: same_shell_def wd_def Let_def)
  from kept_put [OF Some this] Some show ?thesis by (simp add: on_session_def wd_def Let_def)
qed (simp add: on_session_def)

lemma kept_shell_exits: "kept h (shell_exits now tmps n h)"
  unfolding kept_def
proof (intro impI conjI allI)
  assume ok: "host_ok h"
  from shell_exits_ok [OF this, of now tmps n] show "host_ok (shell_exits now tmps n h)"
    "mset (host_pids (shell_exits now tmps n h)) = mset (host_pids h)" by simp_all
  fix k u assume u: "reg_get k (h_reg (shell_exits now tmps n h)) = Some u"
  show "\<exists>s. reg_get k (h_reg h) = Some s \<and> ses_paneID u = ses_paneID s"
  proof (cases "reg_get n (h_reg h)")
    case (Some s)
    define s0 where "s0 = s\<lparr>ses_ring := fst (ring_end (ses_ring s))\<rparr>"
    obtain s' h' where r: "reap_host now tmps True s0 h = (s', h')" by fastforce
    have s: "ses_id s = n" "ses_closed s0 \<longrightarrow> shell_ended s0"
      using ok Some by (auto simp: host_ok_def reg_get_def s0_def shell_ended_def dest: map_of_SomeD)
    have "shell_exits now tmps n h = put_session s' h'" using Some r by (simp add: shell_exits_def s0_def)
    with reap_host_frame [OF r s(2)] u Some s(1) show ?thesis
      by (cases "k = n") (auto simp: put_session_def reg_get_def AList.update_conv' s0_def)
  qed (use u in \<open>simp add: shell_exits_def\<close>)
qed

lemma kept_endAbandoned:
  assumes "endAbandoned now tmps h = (k, h')"
  shows "kept h h'"
  unfolding kept_def
proof (intro impI conjI allI)
  assume ok: "host_ok h"
  from endAbandoned_ok [OF this assms] show "host_ok h'" "mset (host_pids h') = mset (host_pids h)" by simp_all
  have "reg_sessions (h_reg h') = filter (\<lambda>x. \<not> abandoned_at now (h_reg h) (snd x)) (reg_sessions (h_reg h))"
    using endAbandoned_gone [OF ok assms] by auto
  then show "\<exists>s. reg_get n (h_reg h) = Some s \<and> ses_paneID u = ses_paneID s" if "reg_get n (h_reg h') = Some u" for n u
    using that ok by (auto simp: reg_get_def host_ok_def dest!: map_of_SomeD)
qed

lemma kept_shutdown:
  assumes "shutdown now tmp tmps h = (k, h')"
  shows "kept h h'"
  using shutdown_ok [OF _ assms] by (auto simp: kept_def reg_get_def)

subsection \<open>Runs of the daemon\<close>

text \<open>
  Whole commands, one after another, from whatever connections, with the timers, the ends of streams,
  the sweep, shells that exit, the pumps and the stop between them; and the numbers of all shells ever
  started.
\<close>

definition shells_started :: "'j wire \<Rightarrow> call \<Rightarrow> command \<Rightarrow> 'j args \<Rightarrow> daemon \<Rightarrow> u32 list" where
  "shells_started w cl x args d = (if x \<noteq> CommandOpen then [] else case open_begin w args d of
     (Inr (request, _), d) \<Rightarrow> if open_lookup request d = None then starts (cl_pf cl) request (h_reg (dae_host d)) else []
   | _ \<Rightarrow> [])"

inductive ctl_step :: "contract \<Rightarrow> 'j wire \<Rightarrow> daemon \<times> u32 list \<Rightarrow> daemon \<times> u32 list \<Rightarrow> bool" for c w where
  commands: "run_command c w cl x args d = Some (result, d') \<Longrightarrow> ctl_step c w (d, ps) (d', ps @ shells_started w cl x args d)"
| streams: "start_stream c w cl y args d = (started, d') \<Longrightarrow> ctl_step c w (d, ps) (d', ps)"
| ends: "ctl_step c w (d, ps) (stream_end now st d, ps)"
| lease_timer: "ctl_step c w (d, ps) (lease_expires c token n d, ps)"
| preparation_timer: "ctl_step c w (d, ps) (preparation_expires token d, ps)"
| sweeps: "endAbandoned now tmps (dae_host d) = (k, h) \<Longrightarrow> ctl_step c w (d, ps) (set_host h d, ps)"
| exits: "ctl_step c w (d, ps) (set_host (shell_exits now tmps' n (dae_host d)) d, ps)"
| uses: "\<forall>tmps ended. op \<noteq> SReap tmps ended \<Longrightarrow> ctl_step c w (d, ps) (set_host (on_session c now n op (dae_host d)) d, ps)"
| monitors: "dm_host m = (dae_host d)\<lparr>h_store := st\<rparr> \<Longrightarrow> ctl_step c w (d, ps) (d\<lparr>dae_mon := m\<rparr>, ps)"
| stops: "shutdown now tmp tmps (dae_host d) = (k, h) \<Longrightarrow> ctl_step c w (d, ps) (set_host h d, ps)"

definition panes_unique :: "registry \<Rightarrow> bool" where
  "panes_unique r \<longleftrightarrow> (\<forall>n m s t. reg_get n r = Some s \<and> reg_get m r = Some t \<and> ses_paneID s = ses_paneID t
     \<and> ses_paneID s \<noteq> [] \<longrightarrow> n = m)"

definition daemon_ok :: "daemon \<times> u32 list \<Rightarrow> bool" where
  "daemon_ok x \<longleftrightarrow> (case x of (d, ps) \<Rightarrow> host_ok (dae_host d) \<and> mset ps = mset (host_pids (dae_host d))
     \<and> panes_unique (h_reg (dae_host d)))"

lemma kept_ok:
  assumes "kept (dae_host d) (dae_host d')" and "daemon_ok (d, ps)"
  shows "daemon_ok (d', ps)"
proof -
  have frame: "\<exists>s. reg_get n (h_reg (dae_host d)) = Some s \<and> ses_paneID s' = ses_paneID s"
    if "reg_get n (h_reg (dae_host d')) = Some s'" for n s'
    using assms that by (simp add: kept_def daemon_ok_def)
  have "panes_unique (h_reg (dae_host d'))"
    unfolding panes_unique_def
  proof (intro allI impI, elim conjE)
    fix n m s' t'
    assume s': "reg_get n (h_reg (dae_host d')) = Some s'" and t': "reg_get m (h_reg (dae_host d')) = Some t'"
      and eq: "ses_paneID s' = ses_paneID t'" "ses_paneID s' \<noteq> []"
    obtain s t where "reg_get n (h_reg (dae_host d)) = Some s" "ses_paneID s' = ses_paneID s"
        "reg_get m (h_reg (dae_host d)) = Some t" "ses_paneID t' = ses_paneID t"
      using frame [OF s'] frame [OF t'] by blast
    with eq assms(2) show "n = m" by (auto simp: daemon_ok_def panes_unique_def)
  qed
  with assms show ?thesis by (simp add: kept_def daemon_ok_def)
qed

lemma byPane_None:
  assumes "byPane pane r = None" and "reg_get n r = Some s"
  shows "ses_paneID s \<noteq> pane"
  using assms by (auto simp: byPane_def reg_get_def find_None_iff dest!: map_of_SomeD)

lemma byPane_Some:
  assumes "byPane pane (h_reg h) = Some s" and "host_ok h"
  shows "reg_get (ses_id s) (h_reg h) = Some s \<and> ses_paneID s = pane"
proof -
  from find_in [OF assms(1) [unfolded byPane_def]] obtain n where "(n, s) \<in> set (reg_sessions (h_reg h))" "ses_paneID s = pane"
    by (auto simp: byPane_def find_Some_iff)
  then show ?thesis using assms(2) by (auto simp: reg_get_def host_ok_def)
qed

lemma open_begin_host: "open_begin w args d = (x, d') \<Longrightarrow> dae_host d' = dae_host d"
  by (auto simp: open_begin_def take_pending_def split: sum.splits option.splits if_splits)

lemma open_existing_kept:
  assumes "open_finish c cl request prepared (Some s) d = Some (result, d')" and "open_lookup request d = Some s"
  shows "kept (dae_host d) (dae_host d')"
proof (cases "host_ok (dae_host d)")
  case True
  have "byPane (op_PaneID request) (h_reg (dae_host d)) = Some s"
    using assms(2) by (auto simp: open_lookup_def split: option.splits if_splits)
  from byPane_Some [OF this True] assms(1) show ?thesis
    by (auto simp: open_finish_def split: option.splits prod.splits intro: kept_ops(10))
qed (simp add: kept_def)

lemma open_new_ok:
  assumes "open_finish c cl request prepared None d = Some (result, d')" and "open_lookup request d = None"
    and "daemon_ok (d, ps)"
  shows "daemon_ok (d', ps @ starts (cl_pf cl) request (h_reg (dae_host d)))"
proof -
  obtain x where o: "openWithObserver c (cl_pf cl) (cl_now cl) (cl_tmp cl) request prepared (dae_host d) = Some (x, dae_host d')"
    using assms(1) by (auto simp: open_finish_def split: option.splits sum.splits)
  have ok: "host_ok (dae_host d)" "mset ps = mset (host_pids (dae_host d))" "panes_unique (h_reg (dae_host d))"
    using assms(3) by (simp_all add: daemon_ok_def)
  have free: "ses_paneID s \<noteq> op_PaneID request" if "reg_get n (h_reg (dae_host d)) = Some s" "op_PaneID request \<noteq> []" for n s
    using assms(2) that byPane_None by (auto simp: open_lookup_def split: option.splits if_splits)
  have "panes_unique (h_reg (dae_host d'))" using o
  proof (cases rule: openWithObserver_cases)
    case (opened n pid st fd dk obs led)
    define s where "s = (open_session c (cl_pf cl) (cl_now cl) request prepared (h_reg (dae_host d)) n pid)\<lparr>ses_store := st, ses_feed := fd\<rparr>"
    have "reg_get k (h_reg (dae_host d')) = (if k = n then Some s else reg_get k (h_reg (dae_host d)))" for k
      using opened(6) by (simp add: reg_get_def AList.update_conv' s_def)
    moreover have "ses_paneID s = op_PaneID request" by (simp add: s_def)
    ultimately show ?thesis using ok(3) free unfolding panes_unique_def by (simp split: if_splits) metis
  qed (use ok(3) in simp_all)
  with open_ok [OF ok(1) o] ok(2) show ?thesis by (simp add: daemon_ok_def)
qed

lemma ctl_step_ok: "ctl_step c w x y \<Longrightarrow> daemon_ok x \<Longrightarrow> daemon_ok y"
proof (induction rule: ctl_step.induct)
  case (commands cl x args d result d' ps)
  show ?case
  proof (cases "x = CommandOpen")
    case False
    with kept_ok [OF run_command_kept [OF commands.hyps False] commands.prems] show ?thesis by (simp add: shells_started_def)
  next
    case True
    obtain b d1 where b: "open_begin w args d = (b, d1)" by fastforce
    have ok1: "daemon_ok (d1, ps)" using commands.prems open_begin_host [OF b] by (simp add: daemon_ok_def)
    show ?thesis
    proof (cases b)
      case (Inl e)
      with commands.hyps True b ok1 show ?thesis by (simp add: run_command_def ctl_open_def shells_started_def)
    next
      case (Inr rp)
      obtain request prepared where rp: "rp = (request, prepared)" by fastforce
      have f: "open_finish c cl request prepared (open_lookup request d1) d1 = Some (result, d')"
        using commands.hyps True b Inr rp by (simp add: run_command_def ctl_open_def)
      show ?thesis
      proof (cases "open_lookup request d1")
        case None
        with open_new_ok [OF f [unfolded None] None ok1] b Inr rp True show ?thesis by (simp add: shells_started_def)
      next
        case (Some s)
        with kept_ok [OF open_existing_kept [OF f [unfolded Some] Some] ok1] b Inr rp True show ?thesis
          by (simp add: shells_started_def)
      qed
    qed
  qed
next
  case (preparation_timer d ps token)
  then show ?case by (simp add: daemon_ok_def preparation_expires_def)
next
  case (monitors m st d ps)
  have "kept (dae_host d) (dae_host (d\<lparr>dae_mon := m\<rparr>))" by (rule kept_same) (simp_all add: monitors.hyps)
  then show ?case using monitors.prems by (rule kept_ok)
next
  case (uses op d ps now n)
  have "kept (dae_host d) (dae_host (set_host (on_session c now n op (dae_host d)) d))"
    by (simp add: kept_on_session [OF uses.hyps])
  then show ?case using uses.prems by (rule kept_ok)
qed (erule kept_ok [rotated], simp add: kept_start_stream kept_stream_end kept_lease_expires kept_endAbandoned kept_shell_exits kept_shutdown)+

lemma ctl_steps_ok: "(ctl_step c w)\<^sup>*\<^sup>* x y \<Longrightarrow> daemon_ok x \<Longrightarrow> daemon_ok y"
  by (induction rule: rtranclp_induct) (auto intro: ctl_step_ok)

subsection \<open>Properties\<close>

text \<open>A greeting that this daemon admits: no other protocol is asked for, and its token is sent.\<close>

definition admits :: "'j wire \<Rightarrow> daemon \<Rightarrow> 'j Request \<Rightarrow> bool" where
  "admits w d request \<longleftrightarrow> rq_Command request = w_Hello w
     \<and> (case map_of (rq_Args request) ''protocol'' of None \<Rightarrow> True | Some raw \<Rightarrow> w_int w raw = Inr (w_Protocol w))
     \<and> (case map_of (rq_Args request) ''token'' of None \<Rightarrow> dae_token d = [] | Some raw \<Rightarrow> w_string w raw = Inr (dae_token d))"

lemma answer_fields [simp]:
  "rsp_ID (refusal ident code e) = ident" "\<not> rsp_Ok (refusal ident code e)" "rsp_Error (refusal ident code e) = Some e"
  "rsp_Code (refusal ident code e) = code" "rsp_Data (refusal ident code e) = NoData"
  "rsp_ID (accepted ident x) = ident" "rsp_Ok (accepted ident x)" "rsp_Error (accepted ident x) = None"
  "rsp_Code (accepted ident x) = ''OK''" "rsp_Data (accepted ident x) = x"
  by (simp_all add: refusal_def accepted_def)

lemma greet_admits:
  assumes "rq_Command request = w_Hello w"
  shows "snd (greet w request False d) = admits w d request \<and> rsp_Ok (fst (greet w request False d)) = admits w d request"
  using assms
  by (auto simp: greet_def admits_def greet_protocol_def greet_token_def Let_def
      split: option.splits sum.splits if_splits)

lemma ungreeted_line:
  assumes "\<forall>request. line = Inr request \<longrightarrow> \<not> admits w d request"
  shows "\<exists>response. \<not> rsp_Ok response \<and> (serve_line c w cl line False d = Some ((response, NextLine False), d)
    \<or> serve_line c w cl line False d = Some ((response, Hangup), d))"
proof (cases line)
  case (Inl e)
  then show ?thesis by (simp add: serve_line_def)
next
  case (Inr request)
  show ?thesis
  proof (cases "stream_of w (rq_Command request)")
    case None
    have "rq_Command request = w_Hello w \<Longrightarrow> \<not> snd (greet w request False d) \<and> \<not> rsp_Ok (fst (greet w request False d))"
      using greet_admits [of request w d] assms Inr by simp
    then have "\<exists>response. \<not> rsp_Ok response \<and> answer_request c w cl request False d = Some ((response, False), d)"
      by (cases "greet w request False d") (auto simp: answer_request_def)
    with None Inr show ?thesis by (cases "cl_wrote cl") (auto simp: serve_line_def)
  qed (auto simp: Inr serve_line_def)
qed

lemma admitted_line:
  assumes "admits w d request" and "cl_wrote cl" and "stream_of w (w_Hello w) = None"
  shows "\<exists>response g. serve_line c w cl (Inr request) False d = Some ((response, NextLine True), d)
    \<and> rsp_Ok response \<and> rsp_Data response = DataGreeting g
    \<and> gr_Commands g = sortTable \<lparr>tab_Commands = map fst (commands w), tab_Unserved = unserved w\<rparr>"
proof -
  have hello: "rq_Command request = w_Hello w" using assms(1) by (simp add: admits_def)
  have "snd (greet w request False d)" using greet_admits [OF hello] assms(1) by blast
  then obtain response g where "greet w request False d = (response, True)" "rsp_Ok response" "rsp_Data response = DataGreeting g"
      "gr_Commands g = sortTable \<lparr>tab_Commands = map fst (commands w), tab_Unserved = unserved w\<rparr>"
    by (auto simp: greet_def Let_def split: option.splits)
  with assms(2,3) hello show ?thesis
    by (intro exI [of _ response] exI [of _ g]) (simp add: serve_line_def answer_request_def)
qed

lemma ungreeted_connection:
  assumes "\<forall>(cl, line) \<in> set lines. \<forall>request. line = Inr request \<longrightarrow> \<not> admits w d request"
  shows "\<exists>responses final. serveControl c w False lines d = Some ((responses, final), d)
      \<and> (\<forall>r \<in> set responses. \<not> rsp_Ok r) \<and> (final = NextLine False \<or> final = Hangup)"
  using assms
proof (induction lines)
  case (Cons x lines)
  obtain cl line where x: "x = (cl, line)" by fastforce
  have "\<forall>request. line = Inr request \<longrightarrow> \<not> admits w d request" using Cons.prems x by auto
  from ungreeted_line [OF this, of c cl] obtain response where r: "\<not> rsp_Ok response"
      "serve_line c w cl line False d = Some ((response, NextLine False), d)
        \<or> serve_line c w cl line False d = Some ((response, Hangup), d)" by blast
  obtain responses final where "serveControl c w False lines d = Some ((responses, final), d)"
      "\<forall>r \<in> set responses. \<not> rsp_Ok r" "final = NextLine False \<or> final = Hangup"
    using Cons by auto
  with r show ?case by (auto simp: x)
qed simp

text \<open>C28. Nothing is reached before the greeting. On a connection none of whose lines is a greeting with this
  daemon's token and no other protocol, every answer is a refusal, no stream starts, the connection
  is never taken for greeted and the daemon is left exactly as it was, whatever the lines are. A line
  that is such a greeting is accepted, changes nothing but the connection, and is answered with a table
  that names exactly the commands with a handler and the one refused, each list in order.\<close>

theorem nothing_before_greeting:
  assumes "\<forall>(cl, line) \<in> set lines. \<forall>request. line = Inr request \<longrightarrow> \<not> admits w d request"
  shows "(\<exists>responses final. serveControl c w False lines d = Some ((responses, final), d)
      \<and> (\<forall>r \<in> set responses. \<not> rsp_Ok r) \<and> (final = NextLine False \<or> final = Hangup))
    \<and> (\<forall>cl request. admits w d request \<and> cl_wrote cl \<and> stream_of w (w_Hello w) = None \<longrightarrow>
        (\<exists>response g. serve_line c w cl (Inr request) False d = Some ((response, NextLine True), d)
          \<and> rsp_Ok response \<and> rsp_Data response = DataGreeting g \<and> sorted (tab_Commands (gr_Commands g))
          \<and> set (tab_Commands (gr_Commands g)) = command_name w ` set (map snd (commands w))
          \<and> sorted (map fst (tab_Unserved (gr_Commands g))) \<and> fst ` set (tab_Unserved (gr_Commands g)) = {w_Handoff w}))"
proof (intro conjI ungreeted_connection [OF assms] allI impI, elim conjE)
  fix cl :: call and request :: "'a Request"
  assume "admits w d request" "cl_wrote cl" "stream_of w (w_Hello w) = None"
  from admitted_line [OF this, of c] obtain response g where g:
      "serve_line c w cl (Inr request) False d = Some ((response, NextLine True), d)" "rsp_Ok response" "rsp_Data response = DataGreeting g"
      "gr_Commands g = sortTable \<lparr>tab_Commands = map fst (commands w), tab_Unserved = unserved w\<rparr>" by blast
  have sorted: "sorted (tab_Commands (gr_Commands g))" "sorted (map fst (tab_Unserved (gr_Commands g)))"
    by (simp_all add: g(4) sortTable_def)
  have "set (tab_Commands (gr_Commands g)) = command_name w ` set (map snd (commands w))"
    unfolding g(4) sortTable_def Table.select_convs set_sort by (simp add: commands_def)
  moreover have "fst ` set (tab_Unserved (gr_Commands g)) = {w_Handoff w}"
    unfolding g(4) sortTable_def Table.select_convs set_sort by (simp add: unserved_def)
  ultimately show "\<exists>response g. serve_line c w cl (Inr request) False d = Some ((response, NextLine True), d)
          \<and> rsp_Ok response \<and> rsp_Data response = DataGreeting g \<and> sorted (tab_Commands (gr_Commands g))
          \<and> set (tab_Commands (gr_Commands g)) = command_name w ` set (map snd (commands w))
          \<and> sorted (map fst (tab_Unserved (gr_Commands g))) \<and> fst ` set (tab_Unserved (gr_Commands g)) = {w_Handoff w}"
    using g(1-3) sorted by blast
qed

text \<open>A wire, a call and a daemon to evaluate the model on.\<close>

definition sample_names :: "command \<Rightarrow> string" where
  "sample_names x = (case x of CommandOpen \<Rightarrow> ''pty.open'' | CommandWrite \<Rightarrow> ''pty.write'' | CommandResize \<Rightarrow> ''pty.resize''
     | CommandAck \<Rightarrow> ''pty.ack'' | CommandClose \<Rightarrow> ''pty.close'' | CommandSessions \<Rightarrow> ''pty.sessions'' | CommandPane \<Rightarrow> ''pty.pane''
     | CommandCloseWindow \<Rightarrow> ''pty.closeWindow'' | CommandStatus \<Rightarrow> ''pty.status'' | SessionsCommand \<Rightarrow> ''sessions''
     | SessionCloseCommand \<Rightarrow> ''session.close'' | CommandModes \<Rightarrow> ''pty.modes'' | CommandLease \<Rightarrow> ''pty.lease''
     | CommandDetachRenderer \<Rightarrow> ''pty.detach'' | CommandPrepareObserver \<Rightarrow> ''pty.prepare'' | CommandDisplays \<Rightarrow> ''pty.displays''
     | CommandProcessInventory \<Rightarrow> ''process.inventory'' | CommandObservers \<Rightarrow> ''pty.observers'' | CommandTail \<Rightarrow> ''pty.tail'')"

definition sample_wire :: "string wire" where
  "sample_wire = \<lparr>w_Protocol = 1, w_Hello = ''hello'', w_Handoff = ''pty.handoff'', w_command = sample_names,
     w_stream = (\<lambda>x. case x of CommandAttach \<Rightarrow> ''pty.attach'' | CommandAttachLease \<Rightarrow> ''pty.attachLease''
       | CommandObserve \<Rightarrow> ''pty.observe'' | CommandObservePrepared \<Rightarrow> ''pty.observePrepared''
       | CommandProcessObserve \<Rightarrow> ''process.observe''),
     w_int = (\<lambda>raw. if raw = ''1'' then Inr 1 else Inl ''not one''), w_string = Inr, w_Open = (\<lambda>_. Inr sample_open),
     w_Validate = (\<lambda>_. None), w_Write = (\<lambda>raw. Inr (7, raw)), w_Resize = (\<lambda>_. Inr (7, 80, 24)), w_Ack = (\<lambda>_. Inr (7, 0)),
     w_Session = (\<lambda>_. Inr 7), w_Pane = Inr, w_Window = Inr, w_Sessions = (\<lambda>raw. Inr [raw]), w_SessionClose = Inr,
     w_Modes = (\<lambda>_. Inr (7, [])), w_Lease = (\<lambda>_. Inr (7, 0)),
     w_PrepareObserver = (\<lambda>raw. Inr \<lparr>po_PaneID = raw, po_WindowLabel = ''w'', po_Provider = ''v'', po_Displays = True\<rparr>),
     w_Displays = (\<lambda>raw. Inr \<lparr>dis_Session = 7, dis_Token = raw, dis_Displays = True\<rparr>),
     w_Tail = (\<lambda>raw. Inr \<lparr>tl_PaneID = raw, tl_Bytes = 0\<rparr>), w_Attach = (\<lambda>_. Inr (7, None)), w_AttachLease = Inr,
     w_Observe = (\<lambda>_. Inr (7, [], False)), w_ObservePrepared = Inr, w_LeaseDurationMs = 1000\<rparr>"

definition sample_call :: call where
  "sample_call = \<lparr>cl_now = 3, cl_random = Some [1, 2], cl_proc = True, cl_tmp = ''t'', cl_tmps = (\<lambda>_. []), cl_pf = sample_platform,
     cl_os = (\<lambda>_. sample_answers), cl_wrote = True\<rparr>"

definition sample_daemon :: daemon where
  "sample_daemon = \<lparr>dae_mon = sample_monitoring, dae_token = ''secret'', dae_processLabel = [], dae_leases = [],
     dae_pendingObservers = []\<rparr>"

theorem nothing_before_greeting_witness:
  "(\<exists>responses final. serveControl small_contract sample_wire False
      [(sample_call, Inr \<lparr>rq_ID = ''1'', rq_Command = ''pty.open'', rq_Args = []\<rparr>), (sample_call, Inl ''eof''),
       (sample_call, Inr \<lparr>rq_ID = ''2'', rq_Command = ''hello'', rq_Args = [(''token'', ''guess'')]\<rparr>)] sample_daemon
      = Some ((responses, final), sample_daemon) \<and> (\<forall>r \<in> set responses. \<not> rsp_Ok r))
   \<and> (\<exists>response. serve_line small_contract sample_wire sample_call
        (Inr \<lparr>rq_ID = ''3'', rq_Command = ''hello'', rq_Args = [(''token'', ''secret'')]\<rparr>) False sample_daemon
        = Some ((response, NextLine True), sample_daemon) \<and> rsp_Ok response)"
proof -
  let ?lines = "[(sample_call, Inr \<lparr>rq_ID = ''1'', rq_Command = ''pty.open'', rq_Args = []\<rparr>), (sample_call, Inl ''eof''),
       (sample_call, Inr \<lparr>rq_ID = ''2'', rq_Command = ''hello'', rq_Args = [(''token'', ''guess'')]\<rparr>)]"
  let ?hello = "\<lparr>rq_ID = ''3'', rq_Command = ''hello'', rq_Args = [(''token'', ''secret'')]\<rparr>"
  have 1: "\<forall>(cl, line) \<in> set ?lines. \<forall>request. line = Inr request \<longrightarrow> \<not> admits sample_wire sample_daemon request"
    by (simp add: admits_def sample_wire_def sample_daemon_def)
  have 2: "admits sample_wire sample_daemon ?hello \<and> cl_wrote sample_call \<and> stream_of sample_wire (w_Hello sample_wire) = None"
    by (simp add: admits_def sample_wire_def sample_daemon_def sample_call_def stream_of_def)
  from nothing_before_greeting [OF 1, of small_contract] 2 show ?thesis by blast
qed

text \<open>C29. One shell per pane, and no shell unaddressed. However commands of any connections, the ends of
  streams, timers, sweeps, shells that exit and the stop follow each other, each command whole: no two
  sessions of the registry have the same pane, and every shell that was ever started belongs to a
  session the registry addresses under its id, or was ended.\<close>

theorem one_shell_per_pane:
  assumes "reg_sessions (h_reg (dae_host d0)) = []" and "h_gone (dae_host d0) = []" and "h_killed (dae_host d0) = []"
    and "(ctl_step c w)\<^sup>*\<^sup>* (d0, []) (d, ps)"
  shows "(\<forall>n m s t. reg_get n (h_reg (dae_host d)) = Some s \<and> reg_get m (h_reg (dae_host d)) = Some t
        \<and> ses_paneID s = ses_paneID t \<and> ses_paneID s \<noteq> [] \<longrightarrow> n = m)
    \<and> (\<forall>n s. reg_get n (h_reg (dae_host d)) = Some s \<longrightarrow> ses_id s = n)
    \<and> mset ps = mset (map (ses_pid \<circ> snd) (reg_sessions (h_reg (dae_host d)))) + mset (map ses_pid (h_gone (dae_host d)))
        + mset (h_killed (dae_host d))
    \<and> (\<forall>s \<in> set (h_gone (dae_host d)). shell_ended s)"
proof -
  have "daemon_ok (d0, [])" using assms(1-3) by (simp add: daemon_ok_def host_ok_def host_pids_def panes_unique_def reg_get_def)
  from ctl_steps_ok [OF assms(4) this] have "host_ok (dae_host d)" "mset ps = mset (host_pids (dae_host d))"
      "panes_unique (h_reg (dae_host d))" by (simp_all add: daemon_ok_def)
  then show ?thesis
    unfolding panes_unique_def by (auto simp: host_ok_def host_pids_def reg_get_def dest!: map_of_SomeD)
qed

lemma sample_daemon_opens:
  "\<exists>result d. run_command small_contract sample_wire sample_call CommandOpen [(''request'', [])] sample_daemon = Some (result, d)
    \<and> shells_started sample_wire sample_call CommandOpen [(''request'', [])] sample_daemon = [41]"
proof -
  obtain h' where h: "openWithObserver small_contract sample_platform 3 ''t'' sample_open None
      (new_host ((newRegistry 5 6 ''sh'')\<lparr>reg_store := False\<rparr>) empty_store) = Some (Inr 7, h')"
    using sample_opens_any by blast
  have r: "(newRegistry 5 6 ''sh'')\<lparr>reg_store := False\<rparr> = newRegistry 5 6 ''sh''" by (simp add: newRegistry_def)
  have b: "open_begin sample_wire [(''request'', [])] sample_daemon = (Inr (sample_open, None), sample_daemon)"
    by (simp add: open_begin_def decode_def sample_wire_def sample_open_def)
  have l: "open_lookup sample_open sample_daemon = None"
    by (simp add: open_lookup_def byPane_def sample_daemon_def sample_monitoring_def new_host_def newRegistry_def)
  have "starts sample_platform sample_open (h_reg (dae_host sample_daemon)) = [41]"
    by (simp add: starts_def open_shell_def sample_open_def sample_platform_def)
  with b l h r show ?thesis
    by (simp add: run_command_def ctl_open_def open_finish_def shells_started_def sample_call_def)
      (simp add: sample_daemon_def sample_monitoring_def)
qed

theorem one_shell_per_pane_witness:
  "\<exists>d. (ctl_step small_contract sample_wire)\<^sup>*\<^sup>* (sample_daemon, []) (d, [41])
    \<and> {#41#} = mset (map (ses_pid \<circ> snd) (reg_sessions (h_reg (dae_host d)))) + mset (map ses_pid (h_gone (dae_host d)))
        + mset (h_killed (dae_host d))"
proof -
  obtain result d where o: "run_command small_contract sample_wire sample_call CommandOpen [(''request'', [])] sample_daemon = Some (result, d)"
      "shells_started sample_wire sample_call CommandOpen [(''request'', [])] sample_daemon = [41]"
    using sample_daemon_opens by blast
  from ctl_step.commands [OF o(1), of "[]"] o(2) have run: "(ctl_step small_contract sample_wire)\<^sup>*\<^sup>* (sample_daemon, []) (d, [41])" by auto
  have 1: "reg_sessions (h_reg (dae_host sample_daemon)) = []" "h_gone (dae_host sample_daemon) = []" "h_killed (dae_host sample_daemon) = []"
    by (simp_all add: sample_daemon_def sample_monitoring_def new_host_def newRegistry_def)
  from one_shell_per_pane [OF 1 run] run show ?thesis by auto
qed

lemma open_finish_creates:
  assumes "open_finish c cl request prepared None d = Some (Inr x, d')" and "host_ok (dae_host d)"
  shows "\<exists>s. x = DataOpened (opened s True) \<and> ses_paneID s = op_PaneID request \<and> \<not> ses_closed s
    \<and> reg_get (ses_id s) (h_reg (dae_host d)) = None \<and> host_ok (dae_host d')
    \<and> (\<forall>k. reg_get k (h_reg (dae_host d')) = (if k = ses_id s then Some s else reg_get k (h_reg (dae_host d))))"
proof -
  obtain n h where o: "openWithObserver c (cl_pf cl) (cl_now cl) (cl_tmp cl) request prepared (dae_host d) = Some (Inr n, h)"
      and x: "x = DataOpened (opened (the (reg_get n (h_reg h))) True)" "d' = set_host h d"
    using assms(1) by (auto simp: open_finish_def split: option.splits sum.splits)
  from o show ?thesis
  proof (cases rule: openWithObserver_cases)
    case (opened m pid st fd dk obs led)
    define s where "s = (open_session c (cl_pf cl) (cl_now cl) request prepared (h_reg (dae_host d)) n pid)\<lparr>ses_store := st, ses_feed := fd\<rparr>"
    have "reg_get k (h_reg h) = (if k = n then Some s else reg_get k (h_reg (dae_host d)))" for k
      using opened(1,6) by (simp add: reg_get_def AList.update_conv' s_def)
    moreover have "ses_id s = n" "ses_paneID s = op_PaneID request" "\<not> ses_closed s" by (simp_all add: s_def)
    ultimately show ?thesis
      using opened(1,4) x open_ok [OF assms(2) o] by (intro exI [of _ s]) (auto simp: reg_get_def)
  qed simp_all
qed

text \<open>C31. Two opens that meet give a pane two shells. The lookup of the pane and the start of its shell are
  separate sections: when two connections open one pane and both look before either has registered,
  each is answered with a session of its own, created for it, and both run in the pane, which every
  lookup by pane then resolves to one of them only.\<close>

theorem concurrent_opens_share_pane:
  assumes "host_ok (dae_host d)"
    and "open_begin w args1 d = (Inr (request1, prepared1), d1)" and "open_begin w args2 d1 = (Inr (request2, prepared2), d2)"
    and "op_PaneID request1 = pane" and "op_PaneID request2 = pane"
    and "open_lookup request1 d2 = None" and "open_lookup request2 d2 = None"
    and "open_finish c cl1 request1 prepared1 (open_lookup request1 d2) d2 = Some (Inr x1, d3)"
    and "open_finish c cl2 request2 prepared2 (open_lookup request2 d2) d3 = Some (Inr x2, d4)"
  shows "\<exists>s t. x1 = DataOpened (opened s True) \<and> x2 = DataOpened (opened t True) \<and> ses_id s \<noteq> ses_id t
    \<and> ses_paneID s = pane \<and> ses_paneID t = pane \<and> \<not> ses_closed s \<and> \<not> ses_closed t
    \<and> reg_get (ses_id s) (h_reg (dae_host d4)) = Some s \<and> reg_get (ses_id t) (h_reg (dae_host d4)) = Some t"
proof -
  have "host_ok (dae_host d2)"
    using assms(1) open_begin_host [OF assms(2)] open_begin_host [OF assms(3)] by simp
  from open_finish_creates [OF assms(8) [unfolded assms(6)] this] obtain s where s: "x1 = DataOpened (opened s True)"
      "ses_paneID s = pane" "\<not> ses_closed s" "host_ok (dae_host d3)"
      "\<And>k. reg_get k (h_reg (dae_host d3)) = (if k = ses_id s then Some s else reg_get k (h_reg (dae_host d2)))"
    using assms(4) by blast
  from open_finish_creates [OF assms(9) [unfolded assms(7)] s(4)] obtain t where t: "x2 = DataOpened (opened t True)"
      "ses_paneID t = pane" "\<not> ses_closed t" "reg_get (ses_id t) (h_reg (dae_host d3)) = None"
      "\<And>k. reg_get k (h_reg (dae_host d4)) = (if k = ses_id t then Some t else reg_get k (h_reg (dae_host d3)))"
    using assms(5) by blast
  have "ses_id s \<noteq> ses_id t" using t(4) by (auto simp: s(5))
  with s t show ?thesis by (intro exI [of _ s] exI [of _ t]) auto
qed

lemma open_finish_succeeds:
  assumes "\<not> reg_stopped (h_reg (dae_host d))" and "reg_next (h_reg (dae_host d)) = n" and "n + 1 \<notin> fst ` set (reg_sessions (h_reg (dae_host d)))"
  shows "\<exists>x d'. open_finish small_contract sample_call sample_open None None d = Some (Inr x, d')
    \<and> reg_stopped (h_reg (dae_host d')) = False \<and> reg_next (h_reg (dae_host d')) = n + 1
    \<and> fst ` set (reg_sessions (h_reg (dae_host d'))) = insert (n + 1) (fst ` set (reg_sessions (h_reg (dae_host d))))"
proof -
  have i: "issue_from n (map fst (reg_sessions (h_reg (dae_host d)))) = Some (n + 1)"
    using assms(3) by (subst issue_from.simps) simp
  have "\<exists>h'. openWithObserver small_contract sample_platform 3 ''t'' sample_open None (dae_host d) = Some (Inr (n + 1), h')"
    using assms(1,2) i
    by (simp add: openWithObserver_def sample_open_def sample_platform_def issueLocked_def Let_def split_def)
  then obtain h' where o: "openWithObserver small_contract sample_platform 3 ''t'' sample_open None (dae_host d) = Some (Inr (n + 1), h')"
    by blast
  from o have "reg_stopped (h_reg h') = False \<and> reg_next (h_reg h') = n + 1
      \<and> fst ` set (reg_sessions (h_reg h')) = insert (n + 1) (fst ` set (reg_sessions (h_reg (dae_host d))))"
  proof (cases rule: openWithObserver_cases)
    case (opened m pid st fd dk obs led)
    then show ?thesis using assms(1) by (auto simp: dom_update)
  qed simp_all
  with o show ?thesis by (auto simp: open_finish_def sample_call_def)
qed

theorem concurrent_opens_share_pane_witness:
  "\<exists>x1 x2 d3 d4 s t. open_finish small_contract sample_call sample_open None (open_lookup sample_open sample_daemon) sample_daemon = Some (Inr x1, d3)
    \<and> open_finish small_contract sample_call sample_open None (open_lookup sample_open sample_daemon) d3 = Some (Inr x2, d4)
    \<and> reg_get (ses_id s) (h_reg (dae_host d4)) = Some s \<and> reg_get (ses_id t) (h_reg (dae_host d4)) = Some t
    \<and> ses_id s \<noteq> ses_id t \<and> ses_paneID s = ''p1'' \<and> ses_paneID t = ''p1''"
proof -
  have b: "open_begin sample_wire [(''request'', [])] sample_daemon = (Inr (sample_open, None), sample_daemon)"
    by (simp add: open_begin_def decode_def sample_wire_def sample_open_def)
  have l: "open_lookup sample_open sample_daemon = None"
    by (simp add: open_lookup_def byPane_def sample_daemon_def sample_monitoring_def new_host_def newRegistry_def)
  have ok: "host_ok (dae_host sample_daemon)" "\<not> reg_stopped (h_reg (dae_host sample_daemon))"
      "reg_next (h_reg (dae_host sample_daemon)) = 6" "reg_sessions (h_reg (dae_host sample_daemon)) = []"
    by (simp_all add: sample_daemon_def sample_monitoring_def new_host_def newRegistry_def host_ok_def)
  obtain x1 d3 where 1: "open_finish small_contract sample_call sample_open None None sample_daemon = Some (Inr x1, d3)"
      "\<not> reg_stopped (h_reg (dae_host d3))" "reg_next (h_reg (dae_host d3)) = 7" "fst ` set (reg_sessions (h_reg (dae_host d3))) = {7}"
    using open_finish_succeeds [OF ok(2,3)] ok(4) by auto
  obtain x2 d4 where 2: "open_finish small_contract sample_call sample_open None None d3 = Some (Inr x2, d4)"
    using open_finish_succeeds [OF 1(2,3)] 1(4) by auto
  have p: "op_PaneID sample_open = ''p1''" by (simp add: sample_open_def)
  from concurrent_opens_share_pane [OF ok(1) b b p p l l] 1(1) 2 l show ?thesis by fastforce
qed

text \<open>C32. A refused lease takes the renderer that is attached. An attach by a lease that turns out to be
  broken is refused, but its replacement of the renderer came first and its deferred detach undoes the
  replacement only: the connection that was rendering is no longer counted, its pump no longer waits
  for it, the session is stamped as detached, so that a sweep after the window ends it although that
  connection is still being served, and the end of that connection changes nothing any more.\<close>

theorem broken_lease_detaches_renderer:
  assumes "decode (w_AttachLease w) args = Inr token" and "map_of (dae_leases d) token = Some n"
    and "reg_get n (h_reg (dae_host d)) = Some s" and "ses_id s = n" and "ses_rendererAttached s" and "ses_displaying s = []"
    and "consumeLease c (ses_ring s) token = (Inl e, r)"
  shows "\<exists>d' s'. ctl_attachLease c w cl args d = (Inl (''LEASE_BROKEN'', RingError e), d')
    \<and> reg_get n (h_reg (dae_host d')) = Some s' \<and> \<not> ses_rendererAttached s' \<and> ses_detachedAt s' = Some (cl_now cl)
    \<and> (\<forall>written. \<not> shouldPause c written s') \<and> (\<forall>now. detach_locked now (ses_rendererGeneration s) s' = s')
    \<and> (\<forall>moment. cl_now cl < moment \<and> (\<forall>at. ses_writtenAt s = Some at \<longrightarrow> at < moment) \<longrightarrow> abandonedSince moment s')"
proof -
  obtain g s1 where g: "replaceRenderer s = (g, s1)" by fastforce
  then have s1: "s1 = s\<lparr>ses_rendererGeneration := g, ses_rendererAttached := True, ses_detachedAt := None\<rparr>"
    by (auto simp: replaceRenderer_def Let_def)
  define s' where "s' = detachRenderer (cl_now cl) g (s1\<lparr>ses_ring := r\<rparr>)"
  have s': "s' = s\<lparr>ses_rendererGeneration := g, ses_rendererAttached := False, ses_detachedAt := Some (cl_now cl),
      ses_ring := r, ses_resume := True\<rparr>"
    using assms(6) by (simp add: s'_def s1 detachRenderer_def detach_locked_def presenceLocked_def signal_resume_def Let_def)
  have "ctl_attachLease c w cl args d = (Inl (''LEASE_BROKEN'', RingError e), put_ses s' (d\<lparr>dae_leases := AList.delete token (dae_leases d)\<rparr>))"
    using assms(1-3,7) g by (simp add: ctl_attachLease_def s'_def) (simp add: s1)
  moreover have "reg_get n (h_reg (put_session s' (dae_host d))) = Some s'"
    using assms(4) by (simp add: put_session_def reg_get_def AList.update_conv' s')
  moreover have "abandonedSince moment s'" if "cl_now cl < moment" "\<forall>at. ses_writtenAt s = Some at \<longrightarrow> at < moment" for moment
    using that assms(6) by (simp add: abandonedSince_def presenceLocked_def s' split: option.split)
  ultimately show ?thesis
    by (intro exI [of _ "put_ses s' (d\<lparr>dae_leases := AList.delete token (dae_leases d)\<rparr>)"] exI [of _ s'])
      (simp, simp add: s' shouldPause_def detach_locked_def)
qed

definition leased_session :: session where
  "leased_session = (sample_session 7)\<lparr>ses_rendererAttached := True, ses_rendererGeneration := 1,
     ses_ring := (newRing small_contract 8)\<lparr>ring_leases := [(''k'', \<lparr>after = 0, broken = True\<rparr>)]\<rparr>\<rparr>"

definition leased_daemon :: daemon where
  "leased_daemon = (put_ses leased_session sample_daemon)\<lparr>dae_leases := [(''k'', 7)]\<rparr>"

theorem broken_lease_detaches_renderer_witness:
  "\<exists>d' s'. fst (ctl_attachLease small_contract sample_wire sample_call [(''request'', ''k'')] leased_daemon)
      = Inl (''LEASE_BROKEN'', RingError (LeaseBroken ''k''))
    \<and> d' = snd (ctl_attachLease small_contract sample_wire sample_call [(''request'', ''k'')] leased_daemon)
    \<and> reg_get 7 (h_reg (dae_host d')) = Some s' \<and> \<not> ses_rendererAttached s' \<and> abandonedSince 4 s'"
proof -
  have 1: "decode (w_AttachLease sample_wire) [(''request'', ''k'')] = Inr ''k''" by (simp add: decode_def sample_wire_def)
  have 2: "map_of (dae_leases leased_daemon) ''k'' = Some 7" by (simp add: leased_daemon_def)
  have 3: "reg_get 7 (h_reg (dae_host leased_daemon)) = Some leased_session" "ses_id leased_session = 7"
      "ses_rendererAttached leased_session" "ses_displaying leased_session = []" "ses_writtenAt leased_session = None"
    by (simp_all add: leased_daemon_def put_ses_def set_host_def put_session_def reg_get_def leased_session_def
        sample_session_def born_session_def sample_daemon_def sample_monitoring_def new_host_def newRegistry_def)
  obtain r where 4: "consumeLease small_contract (ses_ring leased_session) ''k'' = (Inl (LeaseBroken ''k''), r)"
    by (simp add: consumeLease_def leased_session_def Let_def)
  from broken_lease_detaches_renderer [OF 1 2 3(1-4) 4, of sample_call] 3(5) show ?thesis by (force simp: sample_call_def)
qed

end
