(* ===== verification/Startup.thy ===== *)
theory Startup
  imports ControlRuns
begin

section \<open>Starting and stopping (main.go, listen_unix.go, listen_windows.go, limits_unix.go, process_label.go)\<close>

text \<open>
  The life of the daemon around what it serves: the token it shares with its clients, the records it
  stands up again, the address it listens on, the sweep that runs beside the connections, and the stop.
  The runtime directory holds the token and the socket; it is a directory of theory Disk, with a script of
  the calls that fail, and beside it the addresses that some daemon answers on and
  the soft and hard limits of open files, where they can be read. The paths and the check of
  a label are the contract's, \<open>places\<close>; everything else from outside is \<open>surroundings\<close>.
\<close>

subsection \<open>Data\<close>

record runtime =
  rt_disk :: disk
  rt_listening :: "string list"
  rt_limit :: "(nat \<times> nat) option"

record places =
  pl_TokenPath :: "string \<Rightarrow> string \<Rightarrow> string"
  pl_ControlSocketPath :: "string \<Rightarrow> string \<Rightarrow> bool \<Rightarrow> string"
  pl_ParseProcessLabel :: "string \<Rightarrow> string + string"
  pl_DefaultProcessLabel :: string
  pl_IsAbs :: "string \<Rightarrow> bool"

record surroundings =
  su_windows :: bool
  su_darwin :: bool
  su_random :: "byte list option"
  su_seed1 :: "byte list option \<times> int"
  su_seed2 :: "byte list option \<times> int"
  su_pid :: u32
  su_limitSet :: bool
  su_now :: time
  su_tmp :: "u64 \<Rightarrow> string"
  su_pf :: platform
  su_os :: "u64 \<Rightarrow> os_answers"
  su_sid :: "string + string"

datatype start_error = LabelInvalid string | NameInvalid string | NoHome | RuntimeNotAbsolute | Preparing
  | ReadingToken store_error | GeneratingToken | WritingToken | StoreUnavailable store_error | AlreadyListening string
  | Clearing string | PathTooLong nat nat | Binding string | Restricting string | PipeACL string | PipeNoSID

subsection \<open>The token\<close>

definition token_text :: "byte list \<Rightarrow> string" where
  "token_text bs = map (\<lambda>b. char_of (unat b)) bs"

definition token_bytes :: "string \<Rightarrow> byte list" where
  "token_bytes t = map (\<lambda>c. of_nat (of_char c)) t"

text \<open>\<open>os.WriteFile\<close> cuts an existing file off first; a write that fails leaves what it wrote.\<close>

definition os_WriteFile :: "string \<Rightarrow> byte list \<Rightarrow> disk \<Rightarrow> (store_error + unit) \<times> disk" where
  "os_WriteFile name bs d = (case next_fault d of
     (Passes, d) \<Rightarrow> (Inr (), d\<lparr>files := AList.update name (RawFile bs) (files d)\<rparr>)
   | (Fails n, d) \<Rightarrow> (Inl OsError, d\<lparr>files := AList.update name (RawFile (take n bs)) (files d)\<rparr>)
   | (Crashed, d) \<Rightarrow> (Inl OsError, d))"

definition create_token :: "string \<Rightarrow> byte list option \<Rightarrow> disk \<Rightarrow> (start_error + string) \<times> disk" where
  "create_token path random d = (case random of
     None \<Rightarrow> (Inl GeneratingToken, d)
   | Some raw \<Rightarrow> (case os_WriteFile path (token_bytes (hex_encode raw)) d of
       (Inl e, d) \<Rightarrow> (Inl WritingToken, d)
     | (Inr _, d) \<Rightarrow> (Inr (hex_encode raw), d)))"

definition loadOrCreateToken :: "string \<Rightarrow> byte list option \<Rightarrow> disk \<Rightarrow> (start_error + string) \<times> disk" where
  "loadOrCreateToken path random d = (case os_lookup path d of
     (Inr existing, d) \<Rightarrow> if length (file_bytes existing) > 0 then (Inr (token_text (file_bytes existing)), d)
       else create_token path random d
   | (Inl e, d) \<Rightarrow> if e \<noteq> NotExist then (Inl (ReadingToken e), d) else create_token path random d)"

subsection \<open>The address\<close>

definition socketPathLimit :: nat where
  "socketPathLimit = 104"

text \<open>Binding makes the socket's file; closing a listener removes it.\<close>

definition net_Listen :: "string \<Rightarrow> runtime \<Rightarrow> bool \<times> runtime" where
  "net_Listen path rt = (case next_fault (rt_disk rt) of
     (Passes, d) \<Rightarrow> (if map_of (files d) path \<noteq> None then (False, rt\<lparr>rt_disk := d\<rparr>)
        else (True, rt\<lparr>rt_disk := d\<lparr>files := AList.update path (RawFile []) (files d)\<rparr>, rt_listening := path # rt_listening rt\<rparr>))
   | (_, d) \<Rightarrow> (False, rt\<lparr>rt_disk := d\<rparr>))"

definition listener_Close :: "string \<Rightarrow> runtime \<Rightarrow> runtime" where
  "listener_Close path rt = rt\<lparr>rt_disk := snd (os_Remove path (rt_disk rt)), rt_listening := removeAll path (rt_listening rt)\<rparr>"

definition unix_listen :: "string \<Rightarrow> runtime \<Rightarrow> (start_error + unit) \<times> runtime" where
  "unix_listen path rt =
     (if path \<in> set (rt_listening rt) then (Inl (AlreadyListening path), rt)
      else (case os_Remove path (rt_disk rt) of
        (removed, d) \<Rightarrow>
          (let rt = rt\<lparr>rt_disk := d\<rparr>
           in if removed \<noteq> Inr () \<and> removed \<noteq> Inl NotExist then (Inl (Clearing path), rt)
              else if length path > socketPathLimit then (Inl (PathTooLong (length path) socketPathLimit), rt)
              else (case net_Listen path rt of
                (False, rt) \<Rightarrow> (Inl (Binding path), rt)
              | (True, rt) \<Rightarrow> (case os_call (rt_disk rt) of
                  (Inl _, d) \<Rightarrow> (Inl (Restricting path), listener_Close path (rt\<lparr>rt_disk := d\<rparr>))
                | (Inr _, d) \<Rightarrow> (Inr (), rt\<lparr>rt_disk := d\<rparr>))))))"

text \<open>On Windows a pipe that only the user's own id may open; \<open>sid\<close> is what asking for that id answers.\<close>

definition pipe_access :: "string \<Rightarrow> string" where
  "pipe_access sid = ''D:P(A;;GA;;;'' @ sid @ '')''"

definition ListenPipe :: "string \<Rightarrow> runtime \<Rightarrow> bool \<times> runtime" where
  "ListenPipe address rt = (case next_fault (rt_disk rt) of
     (Passes, d) \<Rightarrow> (if address \<in> set (rt_listening rt) then (False, rt\<lparr>rt_disk := d\<rparr>)
        else (True, rt\<lparr>rt_disk := d, rt_listening := address # rt_listening rt\<rparr>))
   | (_, d) \<Rightarrow> (False, rt\<lparr>rt_disk := d\<rparr>))"

definition windows_listen :: "string + string \<Rightarrow> string \<Rightarrow> runtime \<Rightarrow> (start_error + string) \<times> runtime" where
  "windows_listen sid address rt = (case sid of
     Inl e \<Rightarrow> (Inl (PipeACL e), rt)
   | Inr sid \<Rightarrow> if sid = [] then (Inl PipeNoSID, rt)
       else (case ListenPipe address rt of
           (False, rt) \<Rightarrow> (Inl (Binding address), rt) | (True, rt) \<Rightarrow> (Inr (pipe_access sid), rt)))"

definition listen :: "surroundings \<Rightarrow> string \<Rightarrow> runtime \<Rightarrow> (start_error + unit) \<times> runtime" where
  "listen su address rt = (if su_windows su then apfst (map_sum id (\<lambda>_. ())) (windows_listen (su_sid su) address rt)
     else unix_listen address rt)"

text \<open>The soft limit of open files becomes the hard one, where that can be read and set.\<close>

definition raiseOpenFileLimit :: "(nat \<times> nat) option \<Rightarrow> bool \<Rightarrow> (nat \<times> nat) option" where
  "raiseOpenFileLimit limit settable = (case limit of
     None \<Rightarrow> None
   | Some (cur, hard) \<Rightarrow> if cur \<ge> hard then Some (cur, hard) else if settable then Some (hard, hard) else Some (cur, hard))"

definition raised_limit :: "surroundings \<Rightarrow> (nat \<times> nat) option \<Rightarrow> (nat \<times> nat) option" where
  "raised_limit su limit = (if su_windows su then limit else raiseOpenFileLimit limit (su_limitSet su))"

subsection \<open>The arguments\<close>

definition processLabelFromEnvironment :: "places \<Rightarrow> string \<Rightarrow> string + string" where
  "processLabelFromEnvironment pl value = (if value = [] then Inr (pl_DefaultProcessLabel pl) else pl_ParseProcessLabel pl value)"

definition main_arguments :: "places \<Rightarrow> string \<Rightarrow> string \<Rightarrow> string \<Rightarrow> string \<Rightarrow> start_error + string \<times> string" where
  "main_arguments pl label name home runtimeRoot = (case processLabelFromEnvironment pl label of
     Inl e \<Rightarrow> Inl (LabelInvalid e)
   | Inr processLabel \<Rightarrow> (case pl_ParseProcessLabel pl name of
       Inl e \<Rightarrow> Inl (NameInvalid e)
     | Inr sidecarName \<Rightarrow>
         if home = [] then Inl NoHome
         else if runtimeRoot = [] \<or> \<not> pl_IsAbs pl runtimeRoot then Inl RuntimeNotAbsolute
         else Inr (processLabel, sidecarName)))"

subsection \<open>Running\<close>

record announcement =
  an_Address :: string
  an_ProcessLabel :: string
  an_Token :: string

text \<open>No address holds a monitor yet.\<close>

definition no_monitor :: "contract \<Rightarrow> processSessionMonitor" where
  "no_monitor c = \<lparr>mon_session = fresh_session c 0 0 0 0 [] [] [] [] 0 0 [], mon_watch = None, mon_closed = True,
     mon_lastError = None, mon_foreground = [], mon_foregroundCWD = []\<rparr>"

definition new_daemon :: "contract \<Rightarrow> surroundings \<Rightarrow> string \<Rightarrow> string \<Rightarrow> string \<Rightarrow> string \<Rightarrow> store \<Rightarrow> daemon" where
  "new_daemon c su shell token processLabel sidecarName st =
     \<lparr>dae_mon = \<lparr>dm_host = new_host (newRegistry (case_prod randomInstanceSeed (su_seed1 su)) (case_prod randomInstanceSeed (su_seed2 su)) shell) st,
        dm_identity = sidecarName, dm_pid = su_pid su, dm_setup = False, dm_state = newProcessInventoryState, dm_sessions = [],
        dm_tree = Some (newProcessTreeReader (su_windows su)), dm_events = Some (newProcessTreeEventSource (su_darwin su)),
        dm_monitors = (\<lambda>_. no_monitor c), dm_next = 0, dm_released = []\<rparr>,
      dae_token = token, dae_processLabel = processLabel, dae_leases = [], dae_pendingObservers = []\<rparr>"

text \<open>
  The store is attached, monitoring starts and every record is stood up again, before anything listens.
  What the registry announces of a session is in its ledger, which the monitors follow on their own.
\<close>

definition stand_up :: "contract \<Rightarrow> surroundings \<Rightarrow> daemon \<Rightarrow> restoreOutcome list \<times> daemon" where
  "stand_up c su d =
     (let d = set_host (attachStore (dae_host d)) d;
          d = d\<lparr>dae_mon := startProcessMonitoring (su_os su) (dae_mon d)\<rparr>
      in case restore c (su_pf su) (su_now su) (su_tmp su) (dae_host d) of (outcomes, h) \<Rightarrow> (outcomes, set_host h d))"

text \<open>
  A start up to the announcement. Once the store is open its close is deferred, so a start that fails
  behind it closes the store and does nothing else about what it stood up.
\<close>

definition run_start :: "contract \<Rightarrow> places \<Rightarrow> surroundings \<Rightarrow> string \<Rightarrow> string \<Rightarrow> string \<Rightarrow> string \<Rightarrow> disk \<Rightarrow> runtime
    \<Rightarrow> (start_error + announcement) \<times> daemon option \<times> runtime" where
  "run_start c pl su runtimeRoot shell processLabel sidecarName home rt = (case os_call (rt_disk rt) of
     (Inl _, d) \<Rightarrow> (Inl Preparing, None, rt\<lparr>rt_disk := d\<rparr>)
   | (Inr _, d) \<Rightarrow> (case loadOrCreateToken (pl_TokenPath pl runtimeRoot sidecarName) (su_random su) d of
       (Inl e, d) \<Rightarrow> (Inl e, None, rt\<lparr>rt_disk := d\<rparr>)
     | (Inr token, d) \<Rightarrow>
         (let rt = rt\<lparr>rt_disk := d\<rparr>
          in case newStore home of
               Inl e \<Rightarrow> (Inl (StoreUnavailable e), None, rt)
             | Inr sessions \<Rightarrow>
                 (let (outcomes, d) = stand_up c su (new_daemon c su shell token processLabel sidecarName sessions);
                      rt = rt\<lparr>rt_limit := raised_limit su (rt_limit rt)\<rparr>;
                      address = pl_ControlSocketPath pl runtimeRoot sidecarName (su_windows su)
                  in case listen su address rt of
                       (Inl e, rt) \<Rightarrow> (Inl e, Some (set_host ((dae_host d)\<lparr>h_store := store_close (h_store (dae_host d))\<rparr>) d), rt)
                     | (Inr _, rt) \<Rightarrow> (Inr \<lparr>an_Address = address, an_ProcessLabel = processLabel, an_Token = token\<rparr>, Some d, rt)))))"

definition sweepEvery :: int where
  "sweepEvery = 15 * 1000000000"

text \<open>The sweep, one entry a tick, each with its clock and names for staged files; it ends with the list.\<close>

fun sweepAbandoned :: "(time \<times> (u64 \<Rightarrow> string list)) list \<Rightarrow> host \<Rightarrow> host" where
  "sweepAbandoned [] h = h"
| "sweepAbandoned ((now, tmps) # ticks) h = sweepAbandoned ticks (snd (endAbandoned now tmps h))"

text \<open>A signal: the listener is closed, every session is stopped, and the store is closed on the way out.\<close>

definition run_stop :: "string \<Rightarrow> time \<Rightarrow> (u64 \<Rightarrow> string) \<Rightarrow> (u64 \<Rightarrow> string list) \<Rightarrow> daemon \<times> runtime \<Rightarrow> nat \<times> daemon \<times> runtime" where
  "run_stop address now tmp tmps = (\<lambda>(d, rt). case shutdown now tmp tmps (dae_host d) of
     (ended, h) \<Rightarrow> (ended, set_host (h\<lparr>h_store := store_close (h_store h)\<rparr>) d, listener_Close address rt))"

subsection \<open>The token is kept\<close>

lemma token_text_bytes [simp]: "token_text (token_bytes t) = t"
proof -
  have "char_of (unat (of_nat (of_char c) :: byte)) = c" for c
    using nat_of_char_less_256 [of c] by (simp add: unat_of_nat)
  then show ?thesis by (simp add: token_text_def token_bytes_def comp_def)
qed

lemma length_tokens [simp]: "length (token_text bs) = length bs" "length (token_bytes t) = length t"
  by (simp_all add: token_text_def token_bytes_def)

lemma os_WriteFile_entry:
  assumes "os_WriteFile name bs d = (x, d')"
  shows "(x = Inr () \<longrightarrow> entry d' name = Some (RawFile bs)) \<and> (\<forall>other. other \<noteq> name \<longrightarrow> entry d' other = entry d other)"
  using assms by (auto simp: os_WriteFile_def AList.update_conv' dest!: next_faultD split: prod.splits fault.splits)

lemma create_token_keeps:
  assumes "create_token path random d = (Inr token, d1)"
  shows "(\<exists>raw. random = Some raw \<and> token = hex_encode raw) \<and> entry d1 path = Some (RawFile (token_bytes token))
    \<and> (\<forall>other. other \<noteq> path \<longrightarrow> entry d1 other = entry d other)"
  using assms os_WriteFile_entry [of path _ d] by (fastforce simp: create_token_def split: option.splits prod.splits sum.splits)

lemma token_kept:
  assumes "loadOrCreateToken path random d = (Inr token, d1)" and "random \<noteq> Some []"
  shows "token \<noteq> [] \<and> (\<exists>f. entry d1 path = Some f \<and> token = token_text (file_bytes f))
    \<and> (\<forall>other. other \<noteq> path \<longrightarrow> entry d1 other = entry d other)
    \<and> (\<forall>f. entry d path = Some f \<and> file_bytes f \<noteq> [] \<longrightarrow> entry d1 path = Some f)"
proof -
  obtain x d0 where l: "os_lookup path d = (x, d0)" by fastforce
  have e: "entry d0 = entry d" using os_lookup_files [OF l] by simp
  show ?thesis
  proof (cases "\<exists>f. x = Inr f \<and> file_bytes f \<noteq> []")
    case True
    then obtain f where "x = Inr f" "file_bytes f \<noteq> []" by blast
    moreover from this have "entry d path = Some f" using os_lookup_Inr l by blast
    ultimately show ?thesis using assms(1) l e by (auto simp: loadOrCreateToken_def token_text_def)
  next
    case False
    then have c: "create_token path random d0 = (Inr token, d1)"
      using assms(1) l by (auto simp: loadOrCreateToken_def split: sum.splits if_splits)
    have "\<not> (\<exists>f. entry d path = Some f \<and> file_bytes f \<noteq> [])"
    proof (cases x)
      case (Inl e)
      then have "e = NotExist" using assms(1) l by (auto simp: loadOrCreateToken_def split: if_splits)
      with Inl l os_lookup_NotExist [of path d d0] show ?thesis by simp
    next
      case (Inr f)
      with l os_lookup_Inr [of path d f d0] False show ?thesis by simp
    qed
    moreover obtain raw where "random = Some raw" "token = hex_encode raw" using create_token_keeps [OF c] by blast
    moreover from this assms(2) have "token \<noteq> []" by (cases raw) (auto simp: hex_encode_def)
    ultimately show ?thesis using create_token_keeps [OF c] e by auto
  qed
qed

lemma token_loaded:
  assumes "entry d path = Some f" and "file_bytes f \<noteq> []" and "faults d = []"
  shows "loadOrCreateToken path random d = (Inr (token_text (file_bytes f)), d)"
  using assms by (simp add: loadOrCreateToken_def os_lookup_def)

text \<open>A token whose write was cut short is the token of the next start.\<close>

lemma cut_token_is_taken:
  assumes "entry d path = None" and "faults d = [Passes, Fails n]" and "0 < n" and "n < 2 * length raw"
  shows "\<exists>d1. loadOrCreateToken path (Some raw) d = (Inl WritingToken, d1)
    \<and> loadOrCreateToken path random d1 = (Inr (take n (hex_encode raw)), d1)"
proof -
  define d1 where "d1 = d\<lparr>files := AList.update path (RawFile (take n (token_bytes (hex_encode raw)))) (files d), faults := []\<rparr>"
  have "loadOrCreateToken path (Some raw) d = (Inl WritingToken, d1)"
    using assms(1,2) by (simp add: loadOrCreateToken_def os_lookup_def next_fault_def create_token_def os_WriteFile_def d1_def)
  moreover have "entry d1 path = Some (RawFile (take n (token_bytes (hex_encode raw))))" "faults d1 = []"
    by (simp_all add: d1_def AList.update_conv')
  moreover have "take n (token_bytes (hex_encode raw)) \<noteq> []" using assms(3,4) by (cases raw) (auto simp: token_bytes_def hex_encode_def)
  moreover have "token_text (take n (token_bytes t)) = take n t" for t
    using token_text_bytes [of "take n t"] by (simp add: token_bytes_def take_map)
  ultimately show ?thesis using token_loaded [of d1 path _ random] by simp
qed

subsection \<open>What a start stands up\<close>

text \<open>Every session of the registry runs and was not told anything, and none that came back is missing.\<close>

definition stood_up :: "host \<Rightarrow> bool" where
  "stood_up h \<longleftrightarrow> reg_store (h_reg h) \<and> \<not> reg_stopped (h_reg h) \<and> h_gone h = [] \<and> h_killed h = []
     \<and> (\<forall>n s. reg_get n (h_reg h) = Some s \<longrightarrow> \<not> ses_closed s \<and> ses_process s = [])
     \<and> (\<forall>n outcome. map_of (reg_outcomes (h_reg h)) n = Some outcome \<and> oc_Outcome outcome \<noteq> SessionFailed \<longrightarrow> reg_get n (h_reg h) \<noteq> None)"

lemma refill_fields [simp]:
  "ses_id (refill c out through s) = ses_id s" "ses_closed (refill c out through s) = ses_closed s"
  "ses_process (refill c out through s) = ses_process s"
  by (simp_all add: refill_def Let_def split_def)

lemma fresh_session_fields [simp]:
  "ses_id (fresh_session c now n g pid pane window cwd command cols rows environment) = n"
  "\<not> ses_closed (fresh_session c now n g pid pane window cwd command cols rows environment)"
  "ses_process (fresh_session c now n g pid pane window cwd command cols rows environment) = []"
  by (simp_all add: fresh_session_def)

lemma tell_ledger_fields [simp]:
  "h_reg (tell_ledger x h) = h_reg h" "h_gone (tell_ledger x h) = h_gone h" "h_killed (tell_ledger x h) = h_killed h"
  by (simp_all add: tell_ledger_def)

lemma restoreOne_stands:
  assumes "restoreOne c pf now tmp n h = (outcome, h')" and "stood_up h"
  shows "stood_up (recordOutcome n outcome h')"
proof (cases "h_reg h' = h_reg h \<and> h_gone h' = h_gone h \<and> h_killed h' = h_killed h \<and> oc_Outcome outcome = SessionFailed")
  case True
  then show ?thesis using assms(2) by (auto simp: stood_up_def recordOutcome_def reg_get_def AList.update_conv' split: if_splits)
next
  case False
  have running: "\<not> reg_stopped (h_reg h)" using assms(2) by (simp add: stood_up_def)
  with False assms(1) have "\<exists>s g. h_reg h' = (h_reg h)\<lparr>reg_generation := g, reg_sessions := AList.update n s (reg_sessions (h_reg h))\<rparr>
      \<and> \<not> ses_closed s \<and> ses_process s = [] \<and> h_gone h' = h_gone h \<and> h_killed h' = h_killed h"
    unfolding restoreOne_def
    by (auto simp: restore_failed_def Let_def put_session_def split: prod.splits sum.splits if_splits intro!: exI)
  then show ?thesis using assms(2) by (auto simp: stood_up_def recordOutcome_def reg_get_def AList.update_conv' split: if_splits)
qed

lemma restore_all_stands: "stood_up h \<Longrightarrow> stood_up (snd (restore_all c pf now tmp ns h))"
  by (induction ns arbitrary: h) (auto simp: split_def dest: restoreOne_stands [OF surjective_pairing])

lemma restore_stands: "stood_up h \<Longrightarrow> stood_up (snd (restore c pf now tmp h))"
proof (cases "store_list (st_disk (h_store h))")
  case (Pair x d)
  assume a: "stood_up h"
  then have "stood_up (h\<lparr>h_store := (h_store h)\<lparr>st_disk := d\<rparr>\<rparr>)" by (simp add: stood_up_def)
  from restore_all_stands [OF this] this show ?thesis
    using a Pair by (cases x) (auto simp: restore_def sessionStore_def stood_up_def markStoreRead_def reg_get_def)
qed

text \<open>Every record the store lists is answered for, whether its session came back or not.\<close>

lemma restoreOne_outcomes:
  "restoreOne c pf now tmp n h = (outcome, h') \<Longrightarrow> reg_outcomes (h_reg h') = reg_outcomes (h_reg h)"
  unfolding restoreOne_def
  by (auto simp: Let_def put_session_def split: prod.splits sum.splits if_splits)

lemma restore_all_answers:
  "n \<in> set ns \<or> map_of (reg_outcomes (h_reg h)) n \<noteq> None \<Longrightarrow>
     map_of (reg_outcomes (h_reg (snd (restore_all c pf now tmp ns h)))) n \<noteq> None"
proof (induction ns arbitrary: h)
  case (Cons m ns)
  obtain outcome h1 where r: "restoreOne c pf now (tmp m) m h = (outcome, h1)" by fastforce
  from Cons.prems have "n \<in> set ns \<or> map_of (reg_outcomes (h_reg (recordOutcome m outcome h1))) n \<noteq> None"
    by (auto simp: recordOutcome_def restoreOne_outcomes [OF r] AList.update_conv')
  from Cons.IH [OF this] show ?case by (simp add: r)
qed simp

lemma restore_answers:
  assumes "reg_store (h_reg h)" and "store_list (st_disk (h_store h)) = (Inr ns, d)" and "n \<in> set ns"
  shows "map_of (reg_outcomes (h_reg (snd (restore c pf now tmp h)))) n \<noteq> None"
  using assms restore_all_answers [of n ns] by (simp add: restore_def sessionStore_def markStoreRead_def)

lemma stand_up_stands:
  assumes "stand_up c su (new_daemon c su shell token processLabel sidecarName st) = (outcomes, d)"
  shows "stood_up (dae_host d) \<and> dm_setup (dae_mon d) \<and> dae_token d = token \<and> dae_processLabel d = processLabel
    \<and> dae_leases d = [] \<and> dae_pendingObservers d = []
    \<and> (\<forall>ns dk. store_list (st_disk st) = (Inr ns, dk) \<longrightarrow>
        (\<forall>n\<in>set ns. map_of (reg_outcomes (h_reg (dae_host d))) n \<noteq> None))"
proof -
  define d0 where "d0 = new_daemon c su shell token processLabel sidecarName st"
  define d1 where "d1 = (set_host (attachStore (dae_host d0)) d0)"
  define m where "m = startProcessMonitoring (su_os su) (dae_mon d1)"
  have m: "dm_setup m" "stood_up (dm_host m)" "h_store (dm_host m) = st"
    by (simp_all add: m_def d1_def d0_def startProcessMonitoring_def new_daemon_def set_host_def attachStore_def
        bindProcessLifecycle_def new_host_def newRegistry_def stood_up_def reg_get_def Let_def)
  have "d = set_host (snd (restore c (su_pf su) (su_now su) (su_tmp su) (dm_host m))) (d1\<lparr>dae_mon := m\<rparr>)"
    using assms by (simp add: stand_up_def d0_def d1_def m_def Let_def split_def)
  moreover have "map_of (reg_outcomes (h_reg (snd (restore c (su_pf su) (su_now su) (su_tmp su) (dm_host m))))) n \<noteq> None"
    if "store_list (st_disk st) = (Inr ns, dk)" "n \<in> set ns" for n ns dk
    using restore_answers [of "dm_host m" ns dk n] that m(2,3) by (simp add: stood_up_def)
  ultimately show ?thesis using m(1) restore_stands [OF m(2)] by (simp add: set_host_def d1_def d0_def new_daemon_def)
qed

subsection \<open>What listening changes\<close>

lemma os_call_entries: "os_call d = (x, d') \<Longrightarrow> entry d' = entry d"
  by (simp add: os_call_files)

lemma net_Listen_entry:
  assumes "net_Listen path rt = (ok, rt')"
  shows "(\<forall>other. other \<noteq> path \<longrightarrow> entry (rt_disk rt') other = entry (rt_disk rt) other)
    \<and> rt_listening rt' = (if ok then path # rt_listening rt else rt_listening rt)"
  using assms by (auto simp: net_Listen_def AList.update_conv' dest!: next_faultD split: prod.splits fault.splits if_splits)

lemma listener_Close_entry:
  "(\<forall>other. other \<noteq> path \<longrightarrow> entry (rt_disk (listener_Close path rt)) other = entry (rt_disk rt) other)
    \<and> rt_listening (listener_Close path rt) = removeAll path (rt_listening rt)"
  using os_Remove_entry [of path "rt_disk rt"] by (cases "os_Remove path (rt_disk rt)") (auto simp: listener_Close_def)

lemma listen_effect:
  assumes "listen su address rt = (x, rt')" and "address \<notin> set (rt_listening rt)"
  shows "(\<forall>other. other \<noteq> address \<longrightarrow> entry (rt_disk rt') other = entry (rt_disk rt) other)
    \<and> rt_listening rt' = (case x of Inl _ \<Rightarrow> rt_listening rt | Inr _ \<Rightarrow> address # rt_listening rt)"
proof (cases "su_windows su")
  case True
  then show ?thesis using assms
    by (auto simp: listen_def windows_listen_def ListenPipe_def dest!: next_faultD split: sum.splits if_splits prod.splits fault.splits)
next
  case False
  obtain r d where r: "os_Remove address (rt_disk rt) = (r, d)" by fastforce
  have e1: "entry d other = entry (rt_disk rt) other" if "other \<noteq> address" for other
    using os_Remove_entry [OF r] that by auto
  obtain ok rt1 where n: "net_Listen address (rt\<lparr>rt_disk := d\<rparr>) = (ok, rt1)" by fastforce
  obtain y d2 where o: "os_call (rt_disk rt1) = (y, d2)" by fastforce
  from net_Listen_entry [OF n] os_call_entries [OF o] listener_Close_entry [of address "rt1\<lparr>rt_disk := d2\<rparr>"] assms False r n o e1
  show ?thesis
    by (auto simp: listen_def unix_listen_def Let_def split: if_splits sum.splits bool.splits)
qed

subsection \<open>Beside the connections, and at the end\<close>

lemma sweepAbandoned_ok:
  assumes "host_ok h"
  shows "host_ok (sweepAbandoned ticks h) \<and> mset (host_pids (sweepAbandoned ticks h)) = mset (host_pids h)"
  using assms
proof (induction ticks arbitrary: h)
  case (Cons tick ticks)
  obtain now tmps where t: "tick = (now, tmps)" by fastforce
  obtain k h1 where e: "endAbandoned now tmps h = (k, h1)" by fastforce
  from endAbandoned_ok [OF Cons.prems e] Cons.IH [of h1] show ?case by (simp add: t e)
qed simp

text \<open>A stop answers how many sessions it ended, holds none of them any more and opens no other.\<close>

lemma run_stop_ends:
  assumes "host_ok (dae_host d)" and "run_stop address now tmp tmps (d, rt) = (k, d', rt')"
  shows "k = length (reg_sessions (h_reg (dae_host d))) \<and> reg_sessions (h_reg (dae_host d')) = [] \<and> reg_stopped (h_reg (dae_host d'))
    \<and> mset (host_pids (dae_host d')) = mset (host_pids (dae_host d)) \<and> address \<notin> set (rt_listening rt')"
proof -
  obtain n h where s: "shutdown now tmp tmps (dae_host d) = (n, h)" by fastforce
  have r: "k = n" "d' = set_host (h\<lparr>h_store := store_close (h_store h)\<rparr>) d" "rt' = listener_Close address rt"
    using assms(2) s by (auto simp: run_stop_def)
  have "host_pids (dae_host d') = host_pids h" "h_reg (dae_host d') = h_reg h" by (simp_all add: r set_host_def host_pids_def)
  with shutdown_ok [OF assms(1) s] listener_Close_entry [of address rt] r(1,3) show ?thesis by simp
qed

subsection \<open>Properties\<close>

lemma run_start_cases:
  assumes "run_start c pl su runtimeRoot shell processLabel sidecarName home rt = (x, Some d, rt')"
  obtains token d1 outcomes d2 sessions y where
    "loadOrCreateToken (pl_TokenPath pl runtimeRoot sidecarName) (su_random su) d1 = (Inr token, d2)" "entry d1 = entry (rt_disk rt)"
    "newStore home = Inr sessions"
    "listen su (pl_ControlSocketPath pl runtimeRoot sidecarName (su_windows su)) (rt\<lparr>rt_disk := d2,
       rt_limit := raised_limit su (rt_limit rt)\<rparr>) = (y, rt')"
    "case y of Inl e \<Rightarrow> x = Inl e \<and> (\<exists>d0. stand_up c su (new_daemon c su shell token processLabel sidecarName sessions) = (outcomes, d0)
        \<and> d = set_host ((dae_host d0)\<lparr>h_store := store_close (h_store (dae_host d0))\<rparr>) d0)
      | Inr _ \<Rightarrow> stand_up c su (new_daemon c su shell token processLabel sidecarName sessions) = (outcomes, d)
        \<and> x = Inr \<lparr>an_Address = pl_ControlSocketPath pl runtimeRoot sidecarName (su_windows su), an_ProcessLabel = processLabel, an_Token = token\<rparr>"
proof -
  obtain z d1 where o: "os_call (rt_disk rt) = (z, d1)" by fastforce
  obtain t d2 where l: "loadOrCreateToken (pl_TokenPath pl runtimeRoot sidecarName) (su_random su) d1 = (t, d2)" by fastforce
  from assms o l obtain token sessions where t: "t = Inr token" "newStore home = Inr sessions" "z = Inr ()"
    by (auto simp: run_start_def Let_def split: sum.splits)
  obtain outcomes d0 where s: "stand_up c su (new_daemon c su shell token processLabel sidecarName sessions) = (outcomes, d0)" by fastforce
  obtain y rt1 where y: "listen su (pl_ControlSocketPath pl runtimeRoot sidecarName (su_windows su)) (rt\<lparr>rt_disk := d2,
      rt_limit := raised_limit su (rt_limit rt)\<rparr>) = (y, rt1)" by fastforce
  from assms o l t s y show ?thesis
    by (intro that [of d1 token d2 sessions y outcomes]) (auto simp: run_start_def Let_def os_call_entries split: sum.splits)
qed

text \<open>A first start on a home that holds the record of one session.\<close>

definition sample_places :: places where
  "sample_places = \<lparr>pl_TokenPath = (\<lambda>root name. root @ ''/token''), pl_ControlSocketPath = (\<lambda>root name windows. root @ ''/sock''),
     pl_ParseProcessLabel = Inr, pl_DefaultProcessLabel = ''pty'', pl_IsAbs = (\<lambda>_. True)\<rparr>"

definition sample_surroundings :: surroundings where
  "sample_surroundings = \<lparr>su_windows = False, su_darwin = False, su_random = Some [1, 255], su_seed1 = (None, 5), su_seed2 = (None, 6),
     su_pid = 9, su_limitSet = True, su_now = 20, su_tmp = (\<lambda>_. ''z''), su_pf = sample_platform,
     su_os = (\<lambda>_. sample_answers), su_sid = Inr ''S''\<rparr>"

definition sample_runtime :: "string list \<Rightarrow> runtime" where
  "sample_runtime listening = \<lparr>rt_disk = \<lparr>files = [], faults = []\<rparr>, rt_listening = listening, rt_limit = Some (256, 1024)\<rparr>"

lemma created_store_restores:
  assumes "h_store h = \<lparr>st_disk = st_disk created_store, st_open = [], st_records = []\<rparr>" and "reg_store (h_reg h)" and "\<not> reg_stopped (h_reg h)"
  shows "map_option oc_Outcome (map_of (reg_outcomes (h_reg (snd (restore small_contract sample_platform now tmp h)))) 7) = Some SessionDegraded"
proof -
  have l: "store_list (st_disk (h_store h)) = (Inr [7], st_disk (h_store h))"
    by (simp add: assms(1) store_list_def created_store_def os_ReadDir_def)
  have 1: "int (HighWatermark small_contract) \<le> outputSegmentBound" "length ([] :: byte list) + 2 < 2 ^ 64"
    by (simp_all add: small_contract_def outputSegmentBound_def)
  have log: "stored_log 7 (h_store h) []"
    by (rule stored_log_entries [OF created_store_log]) (simp_all add: assms(1) heldWriter_def created_store_def)
  have rd: "reads small_contract 7 (h_store h) sample_record"
    by (rule reads_healthy [OF log]) (simp_all add: assms(1) created_store_def shown_def sample_record_def)
  have st: "pf_start sample_platform (restored_shell sample_record (h_reg h)) (rec_CWD sample_record) (rec_Environment sample_record)
      (rec_Cols sample_record) (rec_Rows sample_record) = Inr 41"
    by (simp add: sample_platform_def restored_shell_def Shell_def sample_record_def)
  obtain outcome h1 where r: "restoreOne small_contract sample_platform now (tmp 7) 7 h = (outcome, h1)" by fastforce
  with restoreOne_restored [OF small_contract_ok 1 log rd assms(3) st, of now "tmp 7"]
  have "oc_Outcome outcome = SessionDegraded" by (auto simp: sample_record_def)
  with l r assms(2) show ?thesis by (simp add: restore_def sessionStore_def markStoreRead_def recordOutcome_def AList.update_conv')
qed

lemma sample_run:
  "\<exists>d rt'. run_start small_contract sample_places sample_surroundings ''/r'' ''sh'' ''pty'' ''pty'' (st_disk created_store) (sample_runtime listening)
     = (if ''/r/sock'' \<in> set listening then Inl (AlreadyListening ''/r/sock'')
        else Inr \<lparr>an_Address = ''/r/sock'', an_ProcessLabel = ''pty'', an_Token = ''01ff''\<rparr>, Some d, rt')
     \<and> map_option oc_Outcome (map_of (reg_outcomes (h_reg (dae_host d))) 7) = Some SessionDegraded"
proof -
  let ?d0 = "new_daemon small_contract sample_surroundings ''sh'' ''01ff'' ''pty'' ''pty'' \<lparr>st_disk = st_disk created_store, st_open = [], st_records = []\<rparr>"
  obtain outcomes d where s: "stand_up small_contract sample_surroundings ?d0 = (outcomes, d)" by fastforce
  have "map_option oc_Outcome (map_of (reg_outcomes (h_reg (dae_host (snd (stand_up small_contract sample_surroundings ?d0))))) 7) = Some SessionDegraded"
    unfolding stand_up_def Let_def
    by (simp add: split_def set_host_def sample_surroundings_def new_daemon_def attachStore_def startProcessMonitoring_def bindProcessLifecycle_def
        new_host_def newRegistry_def Let_def created_store_restores)
  with s have o: "map_option oc_Outcome (map_of (reg_outcomes (h_reg (dae_host d))) 7) = Some SessionDegraded" by simp
  have t: "hex_encode [1, 255] = ''01ff''" by code_simp
  show ?thesis
    using s o by (auto simp: run_start_def sample_runtime_def sample_places_def sample_surroundings_def os_defs newStore_def created_store_def t
        loadOrCreateToken_def create_token_def os_WriteFile_def Let_def listen_def unix_listen_def net_Listen_def socketPathLimit_def)
qed

text \<open>C39. A daemon that announced itself admits whoever holds its token, and nobody without one. After a
  start that succeeded the address is one that is listened on; the token that is announced is not empty,
  is what the token's file in the runtime directory holds, and is what the greeting of every connection
  is checked against: a greeting for no other protocol is admitted when it carries this token, and one that
  carries no token or another one is not. The next start from that file takes the same token.\<close>

theorem announced_token_admits:
  assumes "run_start c pl su runtimeRoot shell processLabel sidecarName home rt = (Inr a, Some d, rt')"
    and "su_random su \<noteq> Some []" and "pl_TokenPath pl runtimeRoot sidecarName \<noteq> pl_ControlSocketPath pl runtimeRoot sidecarName (su_windows su)"
    and "pl_ControlSocketPath pl runtimeRoot sidecarName (su_windows su) \<notin> set (rt_listening rt)"
  shows "an_Address a \<in> set (rt_listening rt') \<and> an_Token a \<noteq> []
    \<and> (\<exists>f. entry (rt_disk rt') (pl_TokenPath pl runtimeRoot sidecarName) = Some f \<and> token_text (file_bytes f) = an_Token a)
    \<and> (\<forall>request. rq_Command request = w_Hello w \<and> map_of (rq_Args request) ''protocol'' = None \<longrightarrow>
        (admits w d request \<longleftrightarrow> (\<exists>raw. map_of (rq_Args request) ''token'' = Some raw \<and> w_string w raw = Inr (an_Token a))))
    \<and> (faults (rt_disk rt') = [] \<longrightarrow> (\<forall>random. loadOrCreateToken (pl_TokenPath pl runtimeRoot sidecarName) random (rt_disk rt')
          = (Inr (an_Token a), rt_disk rt')))"
  using assms(1)
proof (cases rule: run_start_cases)
  case (1 token d1 outcomes d2 sessions y)
  let ?path = "pl_TokenPath pl runtimeRoot sidecarName"
  from 1(5) have a: "a = \<lparr>an_Address = pl_ControlSocketPath pl runtimeRoot sidecarName (su_windows su), an_ProcessLabel = processLabel, an_Token = token\<rparr>"
      and up: "stand_up c su (new_daemon c su shell token processLabel sidecarName sessions) = (outcomes, d)" and y: "\<exists>u. y = Inr u"
    by (auto split: sum.splits)
  obtain f where f: "token \<noteq> []" "entry d2 ?path = Some f" "token = token_text (file_bytes f)"
    using token_kept [OF 1(1) assms(2)] by blast
  have l: "entry (rt_disk rt') ?path = Some f" "an_Address a \<in> set (rt_listening rt')"
    using listen_effect [OF 1(4)] assms(3,4) f(2) y by (auto simp: a)
  have "dae_token d = token" using stand_up_stands [OF up] by simp
  then have "admits w d request \<longleftrightarrow> (\<exists>raw. map_of (rq_Args request) ''token'' = Some raw \<and> w_string w raw = Inr (an_Token a))"
    if "rq_Command request = w_Hello w" "map_of (rq_Args request) ''protocol'' = None" for request
    using that f(1) by (auto simp: admits_def a split: option.splits)
  moreover have "file_bytes f \<noteq> []" using f(1,3) by (auto simp: token_text_def)
  ultimately show ?thesis using l f token_loaded [OF l(1)] by (auto simp: a)
qed

theorem announced_token_admits_witness:
  "\<exists>d rt'. run_start small_contract sample_places sample_surroundings ''/r'' ''sh'' ''pty'' ''pty'' (st_disk created_store) (sample_runtime [])
      = (Inr \<lparr>an_Address = ''/r/sock'', an_ProcessLabel = ''pty'', an_Token = ''01ff''\<rparr>, Some d, rt')
    \<and> ''/r/sock'' \<in> set (rt_listening rt')
    \<and> admits sample_wire d \<lparr>rq_ID = [], rq_Command = ''hello'', rq_Args = [(''token'', ''01ff'')]\<rparr>
    \<and> \<not> admits sample_wire d \<lparr>rq_ID = [], rq_Command = ''hello'', rq_Args = []\<rparr>"
proof -
  obtain d rt' where r: "run_start small_contract sample_places sample_surroundings ''/r'' ''sh'' ''pty'' ''pty'' (st_disk created_store) (sample_runtime [])
      = (Inr \<lparr>an_Address = ''/r/sock'', an_ProcessLabel = ''pty'', an_Token = ''01ff''\<rparr>, Some d, rt')"
    using sample_run [of "[]"] by auto
  have p: "su_random sample_surroundings \<noteq> Some []"
      "pl_TokenPath sample_places ''/r'' ''pty'' \<noteq> pl_ControlSocketPath sample_places ''/r'' ''pty'' (su_windows sample_surroundings)"
      "pl_ControlSocketPath sample_places ''/r'' ''pty'' (su_windows sample_surroundings) \<notin> set (rt_listening (sample_runtime []))"
    by (simp_all add: sample_surroundings_def sample_places_def sample_runtime_def)
  have h: "w_Hello sample_wire = ''hello''" "w_string sample_wire = Inr" by (simp_all add: sample_wire_def)
  from announced_token_admits [OF r p, of sample_wire] r h show ?thesis
    by (auto simp: all_conj_distrib dest: spec [of _ "\<lparr>rq_ID = [], rq_Command = ''hello'', rq_Args = [(''token'', ''01ff'')]\<rparr>"]
        spec [of _ "\<lparr>rq_ID = [], rq_Command = ''hello'', rq_Args = []\<rparr>"])
qed

text \<open>C40. A start that is refused the address has already stood the sessions up. When another daemon
  answers on the address, the start fails, but only after the records were restored: every session the
  home's store lists has an outcome in the registry, and each whose outcome is not a failure has a new
  shell that runs, beside the one of the daemon that holds the address; the failed start ends none of
  them, it closes its store and leaves.\<close>

theorem refused_start_leaves_shells:
  assumes "run_start c pl su runtimeRoot shell processLabel sidecarName home rt = (x, Some d, rt')" and "\<not> su_windows su"
    and "pl_ControlSocketPath pl runtimeRoot sidecarName False \<in> set (rt_listening rt)"
    and "newStore home = Inr st" and "store_list (st_disk st) = (Inr ns, dk)"
  shows "x = Inl (AlreadyListening (pl_ControlSocketPath pl runtimeRoot sidecarName False))
    \<and> rt_listening rt' = rt_listening rt
    \<and> (\<forall>n\<in>set ns. \<exists>outcome. map_of (reg_outcomes (h_reg (dae_host d))) n = Some outcome
        \<and> (oc_Outcome outcome \<noteq> SessionFailed \<longrightarrow>
            (\<exists>s. reg_get n (h_reg (dae_host d)) = Some s \<and> \<not> ses_closed s \<and> ses_process s = [])))
    \<and> h_gone (dae_host d) = [] \<and> h_killed (dae_host d) = []"
  using assms(1)
proof (cases rule: run_start_cases)
  case (1 token d1 outcomes d2 sessions y)
  from 1(4) assms(2,3) have y: "y = Inl (AlreadyListening (pl_ControlSocketPath pl runtimeRoot sidecarName False))" "rt_listening rt' = rt_listening rt"
    by (auto simp: listen_def unix_listen_def)
  with 1(5) obtain d0 where d0: "stand_up c su (new_daemon c su shell token processLabel sidecarName sessions) = (outcomes, d0)"
      "d = set_host ((dae_host d0)\<lparr>h_store := store_close (h_store (dae_host d0))\<rparr>) d0" "x = Inl (AlreadyListening (pl_ControlSocketPath pl runtimeRoot sidecarName False))"
    by auto
  have "sessions = st" using 1(3) assms(4) by simp
  then have up: "stood_up (dae_host d0)" "\<forall>n\<in>set ns. map_of (reg_outcomes (h_reg (dae_host d0))) n \<noteq> None"
    using stand_up_stands [OF d0(1)] assms(5) by auto
  have "\<exists>outcome. map_of (reg_outcomes (h_reg (dae_host d0))) n = Some outcome
      \<and> (oc_Outcome outcome \<noteq> SessionFailed \<longrightarrow>
          (\<exists>s. reg_get n (h_reg (dae_host d0)) = Some s \<and> \<not> ses_closed s \<and> ses_process s = []))" if "n \<in> set ns" for n
    using that up by (fastforce simp: stood_up_def)
  with y d0(2,3) up(1) show ?thesis by (simp add: stood_up_def set_host_def)
qed

theorem refused_start_leaves_shells_witness:
  "\<exists>d rt' s. run_start small_contract sample_places sample_surroundings ''/r'' ''sh'' ''pty'' ''pty'' (st_disk created_store) (sample_runtime [''/r/sock''])
      = (Inl (AlreadyListening ''/r/sock''), Some d, rt')
    \<and> reg_get 7 (h_reg (dae_host d)) = Some s \<and> \<not> ses_closed s \<and> ses_process s = []"
proof -
  obtain d rt' where r: "run_start small_contract sample_places sample_surroundings ''/r'' ''sh'' ''pty'' ''pty'' (st_disk created_store) (sample_runtime [''/r/sock''])
      = (Inl (AlreadyListening ''/r/sock''), Some d, rt')"
      and o: "map_option oc_Outcome (map_of (reg_outcomes (h_reg (dae_host d))) 7) = Some SessionDegraded"
    using sample_run [of "[''/r/sock'']"] by auto
  let ?st = "\<lparr>st_disk = st_disk created_store, st_open = [], st_records = []\<rparr>"
  have p: "\<not> su_windows sample_surroundings" "pl_ControlSocketPath sample_places ''/r'' ''pty'' False \<in> set (rt_listening (sample_runtime [''/r/sock'']))"
      "newStore (st_disk created_store) = Inr ?st" "store_list (st_disk ?st) = (Inr [7], st_disk created_store)"
    by (simp_all add: sample_surroundings_def sample_places_def sample_runtime_def newStore_def created_store_def
        store_list_def os_ReadDir_def os_defs)
  from refused_start_leaves_shells [OF r p] o r show ?thesis by auto
qed

end
