(* ===== verification/SessionProcess.thy ===== *)
theory SessionProcess
  imports Prelude
begin

section \<open>The process of a session (process_unix.go)\<close>

text \<open>
  What a session relies on from the process it holds, as a locale, and the process of the Unix
  platforms. The part of the system that matters here is a table: the running processes with their
  groups, the children that ended and were not waited for, the children of this daemon, and the
  terminals it holds open. Processes fork, exit and move between groups on their own: to a group of
  their own or to any group there is, as the processes of a pipeline do. The child itself leads its
  session, so it stays in its group. An id that is in use, be it by a process that was not waited for
  or by a group, is not issued again.
\<close>

subsection \<open>What a session relies on\<close>

text \<open>
  Whatever happens beside it, a session ends its process with three calls in this order: terminate,
  close, wait. \<open>background\<close> is what the system and the process's own goroutines do between the calls.
\<close>

locale session_process =
  fixes ok :: "'s \<Rightarrow> bool" and background :: "'s \<Rightarrow> 's \<Rightarrow> bool"
    and terminate :: "'s \<Rightarrow> 's" and close :: "'s \<Rightarrow> 's" and wait :: "'s \<Rightarrow> 's option"
    and ended :: "'s \<Rightarrow> bool" and shut :: "'s \<Rightarrow> bool" and reaped :: "'s \<Rightarrow> bool"
  assumes background: "ok s \<Longrightarrow> background s t \<Longrightarrow> ok t \<and> (shut s \<longrightarrow> shut t) \<and> (\<not> reaped s \<longrightarrow> \<not> reaped t \<and> (ended s \<longrightarrow> ended t))"
    and terminate: "ok s \<Longrightarrow> ok (terminate s) \<and> ended (terminate s) \<and> (shut s \<longrightarrow> shut (terminate s)) \<and> (\<not> reaped s \<longrightarrow> \<not> reaped (terminate s))"
    and close: "ok s \<Longrightarrow> ok (close s) \<and> shut (close s) \<and> (ended s \<longrightarrow> ended (close s)) \<and> (\<not> reaped s \<longrightarrow> \<not> reaped (close s))"
    and wait: "ok s \<Longrightarrow> wait s = Some t \<Longrightarrow> ok t \<and> reaped t \<and> (ended s \<longrightarrow> ended t) \<and> (shut s \<longrightarrow> shut t)"
    and progress: "ok s \<Longrightarrow> ended s \<Longrightarrow> \<not> reaped s \<Longrightarrow> \<exists>t. background\<^sup>*\<^sup>* s t \<and> wait t \<noteq> None"
begin

lemma background_run:
  assumes "background\<^sup>*\<^sup>* s t" and "ok s"
  shows "ok t \<and> (shut s \<longrightarrow> shut t) \<and> (\<not> reaped s \<longrightarrow> \<not> reaped t \<and> (ended s \<longrightarrow> ended t))"
  using assms by (induction rule: rtranclp_induct) (auto dest: background)

lemma end_releases:
  assumes "ok s" and "\<not> reaped s" and "background\<^sup>*\<^sup>* (terminate s) t" and "background\<^sup>*\<^sup>* (close t) u"
  shows "(\<exists>v. background\<^sup>*\<^sup>* u v \<and> wait v \<noteq> None)
    \<and> (\<forall>v x. background\<^sup>*\<^sup>* u v \<and> wait v = Some x \<longrightarrow> ok x \<and> ended x \<and> shut x \<and> reaped x)"
proof -
  have t: "ok t" "\<not> reaped t" "ended t" using background_run [OF assms(3)] terminate [OF assms(1)] assms(2) by auto
  then have u: "ok u" "\<not> reaped u" "ended u" "shut u" using background_run [OF assms(4)] close [OF t(1)] by auto
  have "ok x \<and> ended x \<and> shut x \<and> reaped x" if "background\<^sup>*\<^sup>* u v" "wait v = Some x" for v x
    using background_run [OF that(1) u(1)] wait [OF _ that(2)] u by auto
  with progress [OF u(1,3,2)] show ?thesis by blast
qed

end

subsection \<open>Processes, groups and terminals\<close>

record ux_kernel =
  uk_procs :: "(int \<times> int) list"
  uk_zombies :: "int list"
  uk_children :: "int list"
  uk_masters :: "nat list"

definition ids_used :: "ux_kernel \<Rightarrow> int set" where
  "ids_used k = fst ` set (uk_procs k) \<union> snd ` set (uk_procs k) \<union> set (uk_zombies k)"

definition proc_ends :: "(int \<times> int \<Rightarrow> bool) \<Rightarrow> ux_kernel \<Rightarrow> ux_kernel" where
  "proc_ends P k = k\<lparr>uk_procs := filter (\<lambda>x. \<not> P x) (uk_procs k),
     uk_zombies := filter (\<lambda>p. p \<in> set (uk_children k)) (map fst (filter P (uk_procs k))) @ uk_zombies k\<rparr>"

text \<open>A negative argument names a group, as in \<open>kill(2)\<close>.\<close>

definition kill_group :: "int \<Rightarrow> ux_kernel \<Rightarrow> ux_kernel" where
  "kill_group g = proc_ends (\<lambda>x. snd x = g)"

definition regroup :: "int \<Rightarrow> int \<Rightarrow> (int \<times> int) list \<Rightarrow> (int \<times> int) list" where
  "regroup q g' = map (\<lambda>(r, g). (r, if r = q then g' else g))"

inductive ux_background :: "ux_kernel \<Rightarrow> ux_kernel \<Rightarrow> bool" where
  exits: "(p, g) \<in> set (uk_procs k) \<Longrightarrow> ux_background k (proc_ends (\<lambda>x. x = (p, g)) k)"
| forks: "\<lbrakk>(p, g) \<in> set (uk_procs k); q \<notin> ids_used k; q > 0; g' = q \<or> g' \<in> snd ` set (uk_procs k)\<rbrakk>
    \<Longrightarrow> ux_background k (k\<lparr>uk_procs := (q, g') # uk_procs k\<rparr>)"
| regroups: "\<lbrakk>(q, g) \<in> set (uk_procs k); q \<notin> set (uk_children k); g' = q \<or> g' \<in> snd ` set (uk_procs k)\<rbrakk>
    \<Longrightarrow> ux_background k (k\<lparr>uk_procs := regroup q g' (uk_procs k)\<rparr>)"

subsection \<open>The process\<close>

record unixSessionProcess =
  ux_master :: "nat option"
  ux_pid :: int

text \<open>
  Starting a command on a terminal is the pty package's: it answers an error, or the terminal and the id
  of a child that leads a session and a group of its own. \<open>started\<close> is what it answers to the command
  line, the environment, the directory and the size.
\<close>

definition unix_startSessionProcess :: "(string list \<Rightarrow> string list \<Rightarrow> string \<Rightarrow> u16 \<Rightarrow> u16 \<Rightarrow> string + nat \<times> int)
    \<Rightarrow> string \<Rightarrow> string \<Rightarrow> string list \<Rightarrow> u16 \<Rightarrow> u16 \<Rightarrow> ux_kernel \<Rightarrow> (string + unixSessionProcess) \<times> ux_kernel" where
  "unix_startSessionProcess started shell cwd environment cols rows k =
     (case started [shell, ''-l''] environment cwd cols rows of
        Inl e \<Rightarrow> (Inl e, k)
      | Inr (master, pid) \<Rightarrow> (Inr \<lparr>ux_master = Some master, ux_pid = pid\<rparr>,
          k\<lparr>uk_procs := (pid, pid) # uk_procs k, uk_children := pid # uk_children k, uk_masters := master # uk_masters k\<rparr>))"

definition unix_PID :: "unixSessionProcess \<Rightarrow> u32" where
  "unix_PID p = of_int (ux_pid p)"

definition unix_Terminate :: "unixSessionProcess \<Rightarrow> ux_kernel \<Rightarrow> ux_kernel" where
  "unix_Terminate p k = (if ux_pid p > 0 then kill_group (ux_pid p) k else k)"

text \<open>A wait blocks, the answer \<open>None\<close>, while the child runs; of a child waited for already it is an error.\<close>

definition unix_Wait :: "unixSessionProcess \<Rightarrow> ux_kernel \<Rightarrow> ux_kernel option" where
  "unix_Wait p k = (if ux_pid p \<notin> set (uk_children k) then Some k
     else if ux_pid p \<in> set (uk_zombies k)
     then Some (k\<lparr>uk_zombies := removeAll (ux_pid p) (uk_zombies k), uk_children := removeAll (ux_pid p) (uk_children k)\<rparr>)
     else None)"

definition unix_Close :: "unixSessionProcess \<Rightarrow> ux_kernel \<Rightarrow> ux_kernel" where
  "unix_Close p k = (case ux_master p of None \<Rightarrow> k | Some master \<Rightarrow> k\<lparr>uk_masters := removeAll master (uk_masters k)\<rparr>)"

text \<open>\<open>answer\<close> is what the terminal says holds it.\<close>

definition unix_ForegroundGroup :: "int option \<Rightarrow> unixSessionProcess \<Rightarrow> u32" where
  "unix_ForegroundGroup answer p = (case ux_master p of
     None \<Rightarrow> 0
   | Some _ \<Rightarrow> (case answer of None \<Rightarrow> 0 | Some g \<Rightarrow> if g \<le> 0 then 0 else of_int g))"

subsection \<open>The contract holds\<close>

text \<open>
  A child that was not waited for runs, in the group it leads, or is kept by the system; ids are positive
  and name one process.
\<close>

definition ux_ok :: "unixSessionProcess \<Rightarrow> ux_kernel \<Rightarrow> bool" where
  "ux_ok p k \<longleftrightarrow> ux_pid p > 0 \<and> distinct (map fst (uk_procs k))
     \<and> (ux_pid p \<in> set (uk_children k) \<longrightarrow> (ux_pid p, ux_pid p) \<in> set (uk_procs k) \<or> ux_pid p \<in> set (uk_zombies k))
     \<and> (\<forall>q g. (q, g) \<in> set (uk_procs k) \<longrightarrow> q \<notin> set (uk_zombies k))"

definition ux_ended :: "unixSessionProcess \<Rightarrow> ux_kernel \<Rightarrow> bool" where
  "ux_ended p k \<longleftrightarrow> (\<forall>x \<in> set (uk_procs k). snd x \<noteq> ux_pid p)"

lemma ids_used_simps [simp]:
  "q \<notin> ids_used k \<longleftrightarrow> q \<notin> fst ` set (uk_procs k) \<and> q \<notin> snd ` set (uk_procs k) \<and> q \<notin> set (uk_zombies k)"
  by (auto simp: ids_used_def)

lemma proc_ends_fields [simp]:
  "uk_procs (proc_ends P k) = filter (\<lambda>x. \<not> P x) (uk_procs k)" "uk_children (proc_ends P k) = uk_children k"
  "uk_masters (proc_ends P k) = uk_masters k"
  "p \<in> set (uk_zombies (proc_ends P k)) \<longleftrightarrow> p \<in> set (uk_zombies k) \<or> p \<in> set (uk_children k) \<and> (\<exists>g. (p, g) \<in> set (uk_procs k) \<and> P (p, g))"
  by (force simp: proc_ends_def)+

lemma distinct_fst_filter: "distinct (map fst xs) \<Longrightarrow> distinct (map fst (filter P xs))"
  by (simp add: distinct_map_filter)

lemma ux_ok_ends: "ux_ok p k \<Longrightarrow> ux_ok p (proc_ends P k)"
  unfolding ux_ok_def by (fastforce simp: distinct_fst_filter dest: eq_key_imp_eq_value)

lemma regroup_in: "(r, g) \<in> set (regroup q g' xs) \<longleftrightarrow> (if r = q then g = g' \<and> q \<in> fst ` set xs else (r, g) \<in> set xs)"
  by (force simp: regroup_def)

lemma regroup_ids [simp]: "map fst (regroup q g' xs) = map fst xs"
  by (simp add: regroup_def comp_def split_def)

lemma ux_background_ok:
  assumes "ux_background k k'" and "ux_ok p k"
  shows "ux_ok p k' \<and> uk_masters k' = uk_masters k \<and> uk_children k' = uk_children k
    \<and> (ux_pid p \<in> set (uk_children k) \<longrightarrow> ux_ended p k \<longrightarrow> ux_ended p k')"
  using assms
proof (cases rule: ux_background.cases)
  case (exits q g)
  then show ?thesis using ux_ok_ends [OF assms(2)] by (auto simp: ux_ended_def)
next
  case (forks q g r g')
  then show ?thesis using assms(2) by (auto simp: ux_ok_def ux_ended_def)
next
  case (regroups q g g')
  have "ux_ok p k'"
    using assms(2) regroups unfolding ux_ok_def by (auto simp: regroup_in split: if_splits)
  moreover have "ux_ended p k'" if "ux_pid p \<in> set (uk_children k)" "ux_ended p k"
    using that regroups by (fastforce simp: ux_ended_def regroup_in split: if_splits)
  ultimately show ?thesis using regroups(1) by simp
qed

lemma ux_Terminate_ok:
  assumes "ux_ok p k"
  shows "ux_ok p (unix_Terminate p k) \<and> ux_ended p (unix_Terminate p k)"
proof -
  have "ux_pid p > 0" using assms by (simp add: ux_ok_def)
  then show ?thesis using ux_ok_ends [OF assms] by (simp add: unix_Terminate_def kill_group_def ux_ended_def)
qed

interpretation unix_process: session_process "ux_ok p" ux_background "unix_Terminate p" "unix_Close p" "unix_Wait p"
  "ux_ended p" "\<lambda>k. case ux_master p of None \<Rightarrow> True | Some m \<Rightarrow> m \<notin> set (uk_masters k)" "\<lambda>k. ux_pid p \<notin> set (uk_children k)" for p
proof (unfold_locales, goal_cases)
  case (1 s t)
  then show ?case using ux_background_ok [OF 1(2,1)] by (auto split: option.splits)
next
  case (2 s)
  then show ?case using ux_Terminate_ok [OF 2]
    by (auto simp: unix_Terminate_def kill_group_def split: option.splits)
next
  case (3 s)
  then show ?case by (auto simp: unix_Close_def ux_ok_def ux_ended_def split: option.splits)
next
  case (4 s t)
  then show ?case by (auto simp: unix_Wait_def ux_ok_def ux_ended_def split: if_splits option.splits; blast)
next
  case (5 s)
  then have "unix_Wait p s \<noteq> None" by (auto simp: unix_Wait_def ux_ok_def ux_ended_def)
  then show ?case by blast
qed

lemma unix_start_ok:
  assumes "unix_startSessionProcess started shell cwd environment cols rows k = (Inr p, k')"
    and "ux_pid p > 0" and "ux_pid p \<notin> ids_used k"
    and "distinct (map fst (uk_procs k))" and "\<forall>q g. (q, g) \<in> set (uk_procs k) \<longrightarrow> q \<notin> set (uk_zombies k)"
  shows "ux_ok p k' \<and> ux_pid p \<in> set (uk_children k') \<and> started [shell, ''-l''] environment cwd cols rows = Inr (the (ux_master p), ux_pid p)"
  using assms by (auto simp: unix_startSessionProcess_def ux_ok_def split: sum.splits) blast

lemma ForegroundGroup_bounds:
  assumes "ux_master p \<noteq> None" and "answer = Some g" and "0 < g" and "g < 2 ^ 32"
  shows "uint (unix_ForegroundGroup answer p) = g"
  using assms by (auto simp: unix_ForegroundGroup_def unsigned_of_int take_bit_int_eq_self)

subsection \<open>Properties\<close>

text \<open>C35. Ending the process of a session ends the shell's group and no other. From a start that
  succeeded, with the shell and what it started running on in any way: the terminate that a session
  sends ends exactly the processes in the shell's own group, so a job that was moved to a group of its
  own runs on; the close gives the terminal back; and then the wait of the session is never blocked for
  good, and once it returns the shell is waited for and nothing runs in its group.\<close>

theorem end_reaches_the_group:
  assumes "unix_startSessionProcess started shell cwd environment cols rows k0 = (Inr p, k1)"
    and "ux_pid p > 0" and "ux_pid p \<notin> ids_used k0"
    and "distinct (map fst (uk_procs k0))" and "\<forall>q g. (q, g) \<in> set (uk_procs k0) \<longrightarrow> q \<notin> set (uk_zombies k0)"
    and "ux_background\<^sup>*\<^sup>* k1 k2" and "ux_background\<^sup>*\<^sup>* (unix_Terminate p k2) k3" and "ux_background\<^sup>*\<^sup>* (unix_Close p k3) k4"
  shows "set (uk_procs (unix_Terminate p k2)) = {x \<in> set (uk_procs k2). snd x \<noteq> ux_pid p}
    \<and> (\<exists>k. ux_background\<^sup>*\<^sup>* k4 k \<and> unix_Wait p k \<noteq> None)
    \<and> (\<forall>k k5. ux_background\<^sup>*\<^sup>* k4 k \<and> unix_Wait p k = Some k5 \<longrightarrow>
        (\<forall>q. (q, ux_pid p) \<notin> set (uk_procs k5)) \<and> ux_pid p \<notin> set (uk_children k5) \<and> the (ux_master p) \<notin> set (uk_masters k5))"
proof -
  have 1: "ux_ok p k1" "ux_pid p \<in> set (uk_children k1)" using unix_start_ok [OF assms(1-5)] by simp_all
  have m: "ux_master p \<noteq> None" using assms(1) by (auto simp: unix_startSessionProcess_def split: sum.splits)
  have 2: "ux_ok p k2" "ux_pid p \<in> set (uk_children k2)" using unix_process.background_run [OF assms(6) 1(1)] 1(2) by auto
  from unix_process.end_releases [OF 2(1) _ assms(7,8)] 2(2) m
  have "(\<exists>k. ux_background\<^sup>*\<^sup>* k4 k \<and> unix_Wait p k \<noteq> None)
    \<and> (\<forall>k k5. ux_background\<^sup>*\<^sup>* k4 k \<and> unix_Wait p k = Some k5 \<longrightarrow>
        (\<forall>q. (q, ux_pid p) \<notin> set (uk_procs k5)) \<and> ux_pid p \<notin> set (uk_children k5) \<and> the (ux_master p) \<notin> set (uk_masters k5))"
    by (fastforce simp: ux_ended_def)
  moreover have "set (uk_procs (unix_Terminate p k2)) = {x \<in> set (uk_procs k2). snd x \<noteq> ux_pid p}"
    using 2(1) by (auto simp: ux_ok_def unix_Terminate_def kill_group_def)
  ultimately show ?thesis by blast
qed

definition empty_kernel :: ux_kernel where
  "empty_kernel = \<lparr>uk_procs = [], uk_zombies = [], uk_children = [], uk_masters = []\<rparr>"

theorem end_reaches_the_group_witness:
  "\<exists>p k1 k2. unix_startSessionProcess (\<lambda>_ _ _ _ _. Inr (5, 41)) ''/bin/zsh'' ''/'' [] 80 24 empty_kernel = (Inr p, k1)
    \<and> ux_background\<^sup>*\<^sup>* k1 k2 \<and> set (uk_procs k2) = {(41, 41), (42, 42)} \<and> set (uk_procs (unix_Terminate p k2)) = {(42, 42)}
    \<and> (\<exists>k. ux_background\<^sup>*\<^sup>* (unix_Close p (unix_Terminate p k2)) k \<and> unix_Wait p k \<noteq> None)"
proof -
  define p where "p = \<lparr>ux_master = Some 5, ux_pid = 41\<rparr>"
  define k1 where "k1 = \<lparr>uk_procs = [(41, 41)], uk_zombies = [], uk_children = [41], uk_masters = [5]\<rparr>"
  define k2 where "k2 = k1\<lparr>uk_procs := (42, 42) # uk_procs k1\<rparr>"
  have 1: "unix_startSessionProcess (\<lambda>_ _ _ _ _. Inr (5, 41)) ''/bin/zsh'' ''/'' [] 80 24 empty_kernel = (Inr p, k1)"
    by (simp add: unix_startSessionProcess_def empty_kernel_def p_def k1_def)
  have 2: "ux_pid p > 0" "ux_pid p \<notin> ids_used empty_kernel" "distinct (map fst (uk_procs empty_kernel))"
      "\<forall>q g. (q, g) \<in> set (uk_procs empty_kernel) \<longrightarrow> q \<notin> set (uk_zombies empty_kernel)"
    by (simp_all add: p_def empty_kernel_def)
  have "ux_background k1 k2" unfolding k2_def by (rule ux_background.forks [of 41 41]) (simp_all add: k1_def)
  then have 3: "ux_background\<^sup>*\<^sup>* k1 k2" by blast
  have 4: "set (uk_procs k2) = {(41, 41), (42, 42)}" by (auto simp: k2_def k1_def)
  note ends = end_reaches_the_group [OF 1 2 3 rtranclp.rtrancl_refl rtranclp.rtrancl_refl]
  have pid: "ux_pid p = 41" by (simp add: p_def)
  have "{x \<in> {(41, 41), (42 :: int, 42 :: int)}. snd x \<noteq> 41} = {(42, 42)}" by auto
  then have 5: "set (uk_procs (unix_Terminate p k2)) = {(42, 42)}"
    using conjunct1 [OF ends] unfolding 4 pid by metis
  from conjunct1 [OF conjunct2 [OF ends]] 1 3 4 5 show ?thesis by blast
qed

end
