(* ===== verification/ConPty.thy ===== *)
theory ConPty
  imports SessionProcess "HOL-Library.Char_ord" "HOL-Library.List_Lexorder"
begin

section \<open>The process of a session on Windows (process_windows.go)\<close>

text \<open>
  A shell behind a pseudo console, held through handles that have to be given back. The part of the
  system that matters is a record of what is open: handles, pseudo consoles and attribute lists, with the
  processes that run, the job each is in, and the jobs that end their processes when they are closed.
  Handles are issued in order and never again, so a handle that is used after it was closed shows:
  \<open>k_misused\<close> collects it. Which of the calls that can fail do fail is a script, one entry a call.
  Ending a process or a job through a handle that this daemon was given with it does not fail.
\<close>

subsection \<open>The system\<close>

record win_process =
  wp_handle :: nat
  wp_thread :: nat
  wp_pid :: u32
  wp_job :: "nat option"
  wp_suspended :: bool
  wp_image :: "u16 list"
  wp_command :: "u16 list"
  wp_block :: "u16 list"
  wp_directory :: "u16 list option"

record kernel =
  k_next :: nat
  k_handles :: "nat list"
  k_consoles :: "nat list"
  k_attributes :: nat
  k_running :: "win_process list"
  k_killing :: "nat list"
  k_misused :: "nat list"
  k_faults :: "bool list"

definition call_passes :: "kernel \<Rightarrow> bool \<times> kernel" where
  "call_passes k = (case k_faults k of [] \<Rightarrow> (True, k) | fails # script \<Rightarrow> (\<not> fails, k\<lparr>k_faults := script\<rparr>))"

definition new_handle :: "kernel \<Rightarrow> nat \<times> kernel" where
  "new_handle k = (k_next k, k\<lparr>k_next := k_next k + 1, k_handles := k_next k # k_handles k\<rparr>)"

definition CloseHandle :: "nat \<Rightarrow> kernel \<Rightarrow> kernel" where
  "CloseHandle h k = (if h \<in> set (k_handles k)
     then k\<lparr>k_handles := removeAll h (k_handles k),
            k_running := (if h \<in> set (k_killing k) then filter (\<lambda>w. wp_job w \<noteq> Some h) (k_running k) else k_running k)\<rparr>
     else k\<lparr>k_misused := h # k_misused k\<rparr>)"

definition use_handle :: "nat \<Rightarrow> kernel \<Rightarrow> kernel" where
  "use_handle h k = (if h \<in> set (k_handles k) then k else k\<lparr>k_misused := h # k_misused k\<rparr>)"

definition CreatePipe :: "kernel \<Rightarrow> (nat \<times> nat) option \<times> kernel" where
  "CreatePipe k = (case call_passes k of
     (False, k) \<Rightarrow> (None, k)
   | (True, k) \<Rightarrow> (case new_handle k of (r, k) \<Rightarrow> (case new_handle k of (w, k) \<Rightarrow> (Some (r, w), k))))"

definition CreatePseudoConsole :: "nat \<Rightarrow> nat \<Rightarrow> kernel \<Rightarrow> nat option \<times> kernel" where
  "CreatePseudoConsole input output k = (case call_passes (use_handle output (use_handle input k)) of
     (False, k) \<Rightarrow> (None, k)
   | (True, k) \<Rightarrow> (Some (k_next k), k\<lparr>k_next := k_next k + 1, k_consoles := k_next k # k_consoles k\<rparr>))"

definition use_console :: "nat \<Rightarrow> kernel \<Rightarrow> kernel" where
  "use_console c k = (if c \<in> set (k_consoles k) then k else k\<lparr>k_misused := c # k_misused k\<rparr>)"

definition ClosePseudoConsole :: "nat \<Rightarrow> kernel \<Rightarrow> kernel" where
  "ClosePseudoConsole c k = (use_console c k)\<lparr>k_consoles := removeAll c (k_consoles k)\<rparr>"

definition NewProcThreadAttributeList :: "kernel \<Rightarrow> bool \<times> kernel" where
  "NewProcThreadAttributeList k = (case call_passes k of
     (False, k) \<Rightarrow> (False, k) | (True, k) \<Rightarrow> (True, k\<lparr>k_attributes := k_attributes k + 1\<rparr>))"

definition attributes_Delete :: "kernel \<Rightarrow> kernel" where
  "attributes_Delete k = k\<lparr>k_attributes := k_attributes k - 1\<rparr>"

definition CreateJobObject :: "kernel \<Rightarrow> nat option \<times> kernel" where
  "CreateJobObject k = (case call_passes k of
     (False, k) \<Rightarrow> (None, k) | (True, k) \<Rightarrow> (case new_handle k of (j, k) \<Rightarrow> (Some j, k)))"

definition SetInformationJobObject :: "nat \<Rightarrow> kernel \<Rightarrow> bool \<times> kernel" where
  "SetInformationJobObject j k = (case call_passes (use_handle j k) of
     (False, k) \<Rightarrow> (False, k) | (True, k) \<Rightarrow> (True, k\<lparr>k_killing := j # k_killing k\<rparr>))"

text \<open>The process starts suspended; \<open>pid\<close> is the id the system gives it.\<close>

definition CreateProcess :: "u32 \<Rightarrow> u16 list \<times> u16 list \<times> u16 list \<times> u16 list option \<Rightarrow> kernel \<Rightarrow> (nat \<times> nat) option \<times> kernel" where
  "CreateProcess pid arguments k = (case call_passes k of
     (False, k) \<Rightarrow> (None, k)
   | (True, k) \<Rightarrow> (case new_handle k of (p, k) \<Rightarrow> (case new_handle k of (t, k) \<Rightarrow>
       (Some (p, t), case arguments of (img, command, block, directory) \<Rightarrow>
          k\<lparr>k_running := \<lparr>wp_handle = p, wp_thread = t, wp_pid = pid, wp_job = None, wp_suspended = True, wp_image = img,
              wp_command = command, wp_block = block, wp_directory = directory\<rparr> # k_running k\<rparr>))))"

definition AssignProcessToJobObject :: "nat \<Rightarrow> nat \<Rightarrow> kernel \<Rightarrow> bool \<times> kernel" where
  "AssignProcessToJobObject j p k = (case call_passes (use_handle p (use_handle j k)) of
     (False, k) \<Rightarrow> (False, k)
   | (True, k) \<Rightarrow> (True, k\<lparr>k_running := map (\<lambda>w. if wp_handle w = p then w\<lparr>wp_job := Some j\<rparr> else w) (k_running k)\<rparr>))"

definition ResumeThread :: "nat \<Rightarrow> kernel \<Rightarrow> bool \<times> kernel" where
  "ResumeThread t k = (case call_passes (use_handle t k) of
     (False, k) \<Rightarrow> (False, k)
   | (True, k) \<Rightarrow> (True, k\<lparr>k_running := map (\<lambda>w. if wp_thread w = t then w\<lparr>wp_suspended := False\<rparr> else w) (k_running k)\<rparr>))"

definition TerminateProcess :: "nat \<Rightarrow> kernel \<Rightarrow> kernel" where
  "TerminateProcess p k = (use_handle p k)\<lparr>k_running := filter (\<lambda>w. wp_handle w \<noteq> p) (k_running k)\<rparr>"

definition TerminateJobObject :: "nat \<Rightarrow> kernel \<Rightarrow> kernel" where
  "TerminateJobObject j k = (use_handle j k)\<lparr>k_running := filter (\<lambda>w. wp_job w \<noteq> Some j) (k_running k)\<rparr>"

subsection \<open>Starting a shell\<close>

datatype win_error = SizeExceeds u16 u16 | InputPipe | OutputPipe | ConsoleFailed | AttributesFailed | AttributeUpdate
  | ShellEncoding | CommandLineEncoding | DirectoryEncoding | EntryEncoding | JobFailed | JobLimits
  | ProcessFailed | AssignFailed | ResumeFailed

text \<open>
  The encoding of a string with the NUL behind it and the composition of a command line are the windows
  package's, \<open>strings.ToUpper\<close> the library's.
\<close>

record wide =
  w_utf16 :: "string \<Rightarrow> u16 list option"
  w_compose :: "string list \<Rightarrow> string"
  w_upper :: "string \<Rightarrow> string"

text \<open>\<open>exited\<close> is whether its channel was closed; \<open>cp_watch\<close> is how far the exit watcher has come.\<close>

datatype exit_watch = Waiting | ShellEnded | ConsoleClosed

record conPTYProcess =
  cp_input :: nat
  cp_output :: nat
  cp_console :: nat
  cp_process :: nat
  cp_job :: nat
  cp_pid :: u32
  cp_consoleOnce :: bool
  cp_closeOnce :: bool
  cp_waitOnce :: bool
  cp_exited :: bool
  cp_watch :: exit_watch

definition windowsPipe :: "kernel \<Rightarrow> (nat \<times> nat) option \<times> kernel" where
  "windowsPipe k = CreatePipe k"

fun encode_entries :: "(string \<Rightarrow> u16 list option) \<Rightarrow> string list \<Rightarrow> u16 list \<Rightarrow> u16 list option" where
  "encode_entries utf16 [] block = Some block"
| "encode_entries utf16 (entry # entries) block = (case utf16 entry of
     None \<Rightarrow> None | Some encoded \<Rightarrow> encode_entries utf16 entries (block @ encoded))"

definition windowsEnvironmentBlock :: "wide \<Rightarrow> string list \<Rightarrow> u16 list option" where
  "windowsEnvironmentBlock x environment = (case encode_entries (w_utf16 x) (sort_key (w_upper x) environment) [] of
     None \<Rightarrow> None
   | Some block \<Rightarrow> Some ((if block = [] then [0] else block) @ [0]))"

definition cleanupPipes :: "nat list \<Rightarrow> kernel \<Rightarrow> kernel" where
  "cleanupPipes = fold (\<lambda>h k. if h \<noteq> 0 then CloseHandle h k else k)"

definition encode_arguments :: "wide \<Rightarrow> string \<Rightarrow> string \<Rightarrow> string list
    \<Rightarrow> win_error + u16 list \<times> u16 list \<times> u16 list \<times> u16 list option" where
  "encode_arguments x shell cwd environment = (case w_utf16 x shell of
     None \<Rightarrow> Inl ShellEncoding
   | Some executable \<Rightarrow> (case w_utf16 x (w_compose x [shell]) of
       None \<Rightarrow> Inl CommandLineEncoding
     | Some commandLine \<Rightarrow> (case (if cwd \<noteq> [] then map_option Some (w_utf16 x cwd) else Some None) of
         None \<Rightarrow> Inl DirectoryEncoding
       | Some directory \<Rightarrow> (case windowsEnvironmentBlock x environment of
           None \<Rightarrow> Inl EntryEncoding
         | Some block \<Rightarrow> Inr (executable, commandLine, block, directory)))))"

text \<open>
  The start in three parts, each with what it undoes when a call fails. \<open>abandon\<close> closes the console and
  the two pipe ends that are left once the console holds the others.
\<close>

definition abandon :: "nat \<Rightarrow> nat \<Rightarrow> nat \<Rightarrow> kernel \<Rightarrow> kernel" where
  "abandon inputWrite outputRead console k = cleanupPipes [0, inputWrite, outputRead, 0] (ClosePseudoConsole console k)"

definition start_process :: "u32 \<Rightarrow> nat \<Rightarrow> nat \<Rightarrow> nat \<Rightarrow> nat \<Rightarrow> u16 list \<times> u16 list \<times> u16 list \<times> u16 list option \<Rightarrow> kernel
    \<Rightarrow> (win_error + conPTYProcess) \<times> kernel" where
  "start_process pid inputWrite outputRead console job arguments k =
     (let undo = (\<lambda>k. abandon inputWrite outputRead console (CloseHandle job k))
      in case CreateProcess pid arguments k of
           (None, k) \<Rightarrow> (Inl ProcessFailed, undo k)
         | (Some (process, thread), k) \<Rightarrow> (case AssignProcessToJobObject job process k of
             (False, k) \<Rightarrow> (Inl AssignFailed, undo (CloseHandle process (CloseHandle thread (TerminateProcess process k))))
           | (True, k) \<Rightarrow> (case ResumeThread thread k of
               (False, k) \<Rightarrow> (Inl ResumeFailed, undo (CloseHandle process (CloseHandle thread (TerminateJobObject job k))))
             | (True, k) \<Rightarrow> (Inr \<lparr>cp_input = inputWrite, cp_output = outputRead, cp_console = console, cp_process = process,
                   cp_job = job, cp_pid = pid, cp_consoleOnce = False, cp_closeOnce = False, cp_waitOnce = False,
                   cp_exited = False, cp_watch = Waiting\<rparr>, CloseHandle thread k))))"

definition start_attributed :: "wide \<Rightarrow> u32 \<Rightarrow> string \<Rightarrow> string \<Rightarrow> string list \<Rightarrow> nat \<Rightarrow> nat \<Rightarrow> nat \<Rightarrow> kernel
    \<Rightarrow> (win_error + conPTYProcess) \<times> kernel" where
  "start_attributed x pid shell cwd environment inputWrite outputRead console k =
     (let undo = abandon inputWrite outputRead console
      in case call_passes (use_console console k) of
           (False, k) \<Rightarrow> (Inl AttributeUpdate, undo k)
         | (True, k) \<Rightarrow> (case encode_arguments x shell cwd environment of
             Inl e \<Rightarrow> (Inl e, undo k)
           | Inr arguments \<Rightarrow> (case CreateJobObject k of
               (None, k) \<Rightarrow> (Inl JobFailed, undo k)
             | (Some job, k) \<Rightarrow> (case SetInformationJobObject job k of
                 (False, k) \<Rightarrow> (Inl JobLimits, undo (CloseHandle job k))
               | (True, k) \<Rightarrow> start_process pid inputWrite outputRead console job arguments k))))"

definition conpty_startSessionProcess :: "wide \<Rightarrow> u32 \<Rightarrow> string \<Rightarrow> string \<Rightarrow> string list \<Rightarrow> u16 \<Rightarrow> u16 \<Rightarrow> kernel
    \<Rightarrow> (win_error + conPTYProcess) \<times> kernel" where
  "conpty_startSessionProcess x pid shell cwd environment cols rows k =
     (if cols > 32767 \<or> rows > 32767 then (Inl (SizeExceeds cols rows), k)
      else case windowsPipe k of
        (None, k) \<Rightarrow> (Inl InputPipe, k)
      | (Some (inputRead, inputWrite), k) \<Rightarrow> (case windowsPipe k of
          (None, k) \<Rightarrow> (Inl OutputPipe, CloseHandle inputWrite (CloseHandle inputRead k))
        | (Some (outputRead, outputWrite), k) \<Rightarrow> (case CreatePseudoConsole inputRead outputWrite k of
            (None, k) \<Rightarrow> (Inl ConsoleFailed, cleanupPipes [inputRead, inputWrite, outputRead, outputWrite] k)
          | (Some console, k) \<Rightarrow> (case NewProcThreadAttributeList (CloseHandle outputWrite (CloseHandle inputRead k)) of
              (False, k) \<Rightarrow> (Inl AttributesFailed, abandon inputWrite outputRead console k)
            | (True, k) \<Rightarrow> (case start_attributed x pid shell cwd environment inputWrite outputRead console k of
                (result, k) \<Rightarrow> (result, attributes_Delete k))))))"

subsection \<open>The operations of a process\<close>

text \<open>
  The exit watcher runs beside the calls: it waits until the shell ended, closes the console and says
  so. A body guarded by a \<open>sync.Once\<close> runs once; a later call of it changes nothing.
\<close>

definition closeConsole :: "conPTYProcess \<times> kernel \<Rightarrow> conPTYProcess \<times> kernel" where
  "closeConsole = (\<lambda>(p, k). if cp_consoleOnce p then (p, k)
     else (p\<lparr>cp_consoleOnce := True\<rparr>, ClosePseudoConsole (cp_console p) k))"

inductive watchExit :: "conPTYProcess \<times> kernel \<Rightarrow> conPTYProcess \<times> kernel \<Rightarrow> bool" where
  waits: "\<lbrakk>cp_watch p = Waiting; \<forall>w \<in> set (k_running k). wp_handle w \<noteq> cp_process p\<rbrakk>
    \<Longrightarrow> watchExit (p, k) (p\<lparr>cp_watch := ShellEnded\<rparr>, use_handle (cp_process p) k)"
| closes: "cp_watch p = ShellEnded \<Longrightarrow> watchExit (p, k) (closeConsole (p\<lparr>cp_watch := ConsoleClosed\<rparr>, k))"
| exits: "\<lbrakk>cp_watch p = ConsoleClosed; \<not> cp_exited p\<rbrakk> \<Longrightarrow> watchExit (p, k) (p\<lparr>cp_exited := True\<rparr>, k)"

definition conpty_Terminate :: "conPTYProcess \<times> kernel \<Rightarrow> conPTYProcess \<times> kernel" where
  "conpty_Terminate = (\<lambda>(p, k). if cp_job p = 0 then (p, k) else (p, TerminateJobObject (cp_job p) k))"

definition close_once :: "nat \<Rightarrow> kernel \<Rightarrow> kernel" where
  "close_once h k = (if h \<noteq> 0 then CloseHandle h k else k)"

definition conpty_Wait :: "conPTYProcess \<times> kernel \<Rightarrow> (conPTYProcess \<times> kernel) option" where
  "conpty_Wait = (\<lambda>(p, k). if cp_waitOnce p then Some (p, k)
     else if cp_exited p
     then Some (p\<lparr>cp_process := 0, cp_job := 0, cp_waitOnce := True\<rparr>, close_once (cp_job p) (close_once (cp_process p) k))
     else None)"

definition conpty_Close :: "conPTYProcess \<times> kernel \<Rightarrow> conPTYProcess \<times> kernel" where
  "conpty_Close = (\<lambda>(p, k). if cp_closeOnce p then (p, k)
     else closeConsole (p\<lparr>cp_closeOnce := True\<rparr>, CloseHandle (cp_output p) (CloseHandle (cp_input p) k)))"

text \<open>\<open>resized\<close> is what the system answers to a size in range.\<close>

definition conpty_Resize :: "bool \<Rightarrow> u16 \<Rightarrow> u16 \<Rightarrow> conPTYProcess \<times> kernel \<Rightarrow> (win_error option \<times> bool) \<times> kernel" where
  "conpty_Resize resized cols rows = (\<lambda>(p, k). if cols > 32767 \<or> rows > 32767 then ((Some (SizeExceeds cols rows), False), k)
     else ((None, resized), use_console (cp_console p) k))"

definition conpty_ForegroundGroup :: "conPTYProcess \<Rightarrow> u32" where
  "conpty_ForegroundGroup p = 0"

subsection \<open>What a start leaves open\<close>

definition passes :: "bool list \<Rightarrow> bool" where
  "passes script \<longleftrightarrow> (case script of [] \<Rightarrow> True | fails # _ \<Rightarrow> \<not> fails)"

lemma call_passes_eq: "call_passes k = (passes (k_faults k), k\<lparr>k_faults := tl (k_faults k)\<rparr>)"
  by (cases k) (simp add: call_passes_def passes_def split: list.split)

lemma use_open [simp]:
  "h \<in> set (k_handles k) \<Longrightarrow> use_handle h k = k" "c \<in> set (k_consoles k) \<Longrightarrow> use_console c k = k"
  by (simp_all add: use_handle_def use_console_def)

lemma CloseHandle_open:
  "h \<in> set (k_handles k) \<Longrightarrow> CloseHandle h k = k\<lparr>k_handles := removeAll h (k_handles k),
     k_running := (if h \<in> set (k_killing k) then filter (\<lambda>w. wp_job w \<noteq> Some h) (k_running k) else k_running k)\<rparr>"
  by (simp add: CloseHandle_def)

lemmas win_simps = call_passes_eq CloseHandle_open new_handle_def CreatePipe_def CreatePseudoConsole_def ClosePseudoConsole_def
  NewProcThreadAttributeList_def attributes_Delete_def CreateJobObject_def SetInformationJobObject_def CreateProcess_def
  AssignProcessToJobObject_def ResumeThread_def TerminateProcess_def TerminateJobObject_def cleanupPipes_def abandon_def

text \<open>Everything that is known has been issued: numbers from \<open>n\<close> on name nothing.\<close>

definition issued_below :: "nat \<Rightarrow> kernel \<Rightarrow> bool" where
  "issued_below n k \<longleftrightarrow> 0 < n \<and> (\<forall>h \<in> set (k_handles k) \<union> set (k_consoles k) \<union> set (k_killing k). h < n)
     \<and> (\<forall>w \<in> set (k_running k). wp_handle w < n \<and> wp_thread w < n \<and> (\<forall>j. wp_job w = Some j \<longrightarrow> j < n))"

lemma removeAll_fresh [simp]: "x \<notin> set xs \<Longrightarrow> removeAll x xs = xs"
  by (rule removeAll_id)

lemma filter_fresh:
  "\<forall>w \<in> set ws. wp_handle w \<noteq> p \<Longrightarrow> filter (\<lambda>w. wp_handle w \<noteq> p) ws = ws"
  "\<forall>w \<in> set ws. wp_job w \<noteq> Some j \<Longrightarrow> filter (\<lambda>w. wp_job w \<noteq> Some j) ws = ws"
  by (simp_all add: filter_id_conv)

lemma map_fresh:
  "\<forall>w \<in> set ws. wp_handle w \<noteq> p \<Longrightarrow> map (\<lambda>w. if wp_handle w = p then f w else w) ws = ws"
  "\<forall>w \<in> set ws. wp_thread w \<noteq> p \<Longrightarrow> map (\<lambda>w. if wp_thread w = p then f w else w) ws = ws"
  by (simp_all add: map_idI)

text \<open>What a part of the start answers, given what was open before the start.\<close>

definition shell_process :: "u32 \<Rightarrow> u16 list \<times> u16 list \<times> u16 list \<times> u16 list option \<Rightarrow> nat \<Rightarrow> nat \<Rightarrow> nat \<Rightarrow> win_process" where
  "shell_process pid arguments process thread job = (case arguments of (img, command, block, directory) \<Rightarrow>
     \<lparr>wp_handle = process, wp_thread = thread, wp_pid = pid, wp_job = Some job, wp_suspended = False, wp_image = img,
      wp_command = command, wp_block = block, wp_directory = directory\<rparr>)"

definition started_from :: "u32 \<Rightarrow> nat \<Rightarrow> nat list \<Rightarrow> nat list \<Rightarrow> win_process list \<Rightarrow> (win_error + conPTYProcess) \<Rightarrow> kernel \<Rightarrow> bool" where
  "started_from pid n hs cs ws result k \<longleftrightarrow> (case result of
     Inl e \<Rightarrow> k_handles k = hs \<and> k_consoles k = cs \<and> k_running k = ws
   | Inr p \<Rightarrow> set (k_handles k) = {cp_input p, cp_output p, cp_process p, cp_job p} \<union> set hs
       \<and> distinct [cp_input p, cp_output p, cp_process p, cp_job p, cp_console p]
       \<and> (\<forall>h \<in> {cp_input p, cp_output p, cp_process p, cp_job p, cp_console p}. n \<le> h \<and> h < k_next k)
       \<and> k_consoles k = cp_console p # cs \<and> cp_pid p = pid
       \<and> cp_job p \<in> set (k_killing k) \<and> (\<forall>h \<in> set (k_killing k). h = cp_job p \<or> h < n)
       \<and> \<not> cp_consoleOnce p \<and> \<not> cp_closeOnce p \<and> \<not> cp_waitOnce p \<and> \<not> cp_exited p \<and> cp_watch p = Waiting
       \<and> (\<exists>arguments thread. thread < k_next k \<and> k_running k = shell_process pid arguments (cp_process p) thread (cp_job p) # ws))"

lemma start_process_leaks_nothing:
  assumes "start_process pid iw out c j arguments k = (result, k')"
    and "k_handles k = j # out # iw # hs" and "k_consoles k = c # cs" and "j \<in> set (k_killing k)"
    and "distinct [j, out, iw, c]" and "\<forall>h \<in> {j, out, iw, c}. n \<le> h \<and> h < k_next k" and "0 < n"
    and "\<forall>h \<in> set hs \<union> set cs. h < n" and "\<forall>h \<in> set (k_killing k). h = j \<or> h < n"
    and "\<forall>w \<in> set (k_running k). wp_handle w < n \<and> wp_thread w < n \<and> (\<forall>j. wp_job w = Some j \<longrightarrow> j < n)"
  shows "started_from pid n hs cs (k_running k) result k' \<and> k_misused k' = k_misused k \<and> k_attributes k' = k_attributes k"
proof -
  have hs: "h \<notin> set hs" "h \<notin> set cs" if "n \<le> h" for h using assms(8) that by (meson UnI1 UnI2 leD)+
  have ks: "h \<notin> set (k_killing k)" if "n \<le> h" "h \<noteq> j" for h using assms(9) that by fastforce
  have ws: "\<forall>w \<in> set (k_running k). wp_handle w \<noteq> h" "\<forall>w \<in> set (k_running k). wp_thread w \<noteq> h"
      "\<forall>w \<in> set (k_running k). wp_job w \<noteq> Some h" if "n \<le> h" for h using assms(10) that by auto
  have n: "n \<le> k_next k" using assms(6) by auto
  obtain img command block directory where a: "arguments = (img, command, block, directory)" by (cases arguments)
  have f: "j \<noteq> k_next k" "out \<noteq> k_next k" "iw \<noteq> k_next k" "j \<noteq> Suc (k_next k)" "out \<noteq> Suc (k_next k)" "iw \<noteq> Suc (k_next k)"
      "n \<le> j" "n \<le> out" "n \<le> iw" "n \<le> c" "n \<le> Suc (k_next k)" "k_next k \<noteq> c" "0 < iw" "0 < out"
      "j \<noteq> out" "j \<noteq> iw" "out \<noteq> iw" "j \<noteq> c" "out \<noteq> c" "iw \<noteq> c" "c < k_next k" "j < k_next k" "out < k_next k" "iw < k_next k"
    using assms(5-7) n by auto
  note facts = f(1-6,12,15-20) [symmetric] f n hs ks ws filter_fresh map_fresh assms(2-4)
  show ?thesis
  proof (cases "passes (k_faults k)"; cases "passes (tl (k_faults k))"; cases "passes (tl (tl (k_faults k)))")
  qed (insert assms(1), simp_all add: start_process_def win_simps a facts Let_def,
       use assms(9) in \<open>auto simp: started_from_def shell_process_def facts less_SucI\<close>)
qed

lemma start_attributed_leaks_nothing:
  assumes "start_attributed x pid shell cwd environment iw out c k = (result, k')"
    and "k_handles k = out # iw # hs" and "k_consoles k = c # cs"
    and "distinct [out, iw, c]" and "\<forall>h \<in> {out, iw, c}. n \<le> h \<and> h < k_next k" and "0 < n"
    and "\<forall>h \<in> set hs \<union> set cs. h < n" and "\<forall>h \<in> set (k_killing k). h < n"
    and "\<forall>w \<in> set (k_running k). wp_handle w < n \<and> wp_thread w < n \<and> (\<forall>j. wp_job w = Some j \<longrightarrow> j < n)"
  shows "started_from pid n hs cs (k_running k) result k' \<and> k_misused k' = k_misused k \<and> k_attributes k' = k_attributes k"
proof -
  have hs: "h \<notin> set hs" "h \<notin> set cs" if "n \<le> h" for h using assms(7) that by (meson UnI1 UnI2 leD)+
  have ks: "h \<notin> set (k_killing k)" if "n \<le> h" for h using assms(8) that by fastforce
  have ws: "\<forall>w \<in> set (k_running k). wp_job w \<noteq> Some h" if "n \<le> h" for h using assms(9) that by auto
  have n: "n \<le> k_next k" using assms(5) by auto
  show ?thesis
  proof (cases "\<exists>arguments. start_process pid iw out c (k_next k) arguments
      (k\<lparr>k_next := k_next k + 1, k_handles := k_next k # k_handles k, k_faults := tl (tl (tl (k_faults k))),
         k_killing := k_next k # k_killing k\<rparr>) = (result, k')")
    case True
    then obtain arguments where "start_process pid iw out c (k_next k) arguments
      (k\<lparr>k_next := k_next k + 1, k_handles := k_next k # k_handles k, k_faults := tl (tl (tl (k_faults k))),
         k_killing := k_next k # k_killing k\<rparr>) = (result, k')" by blast
    from start_process_leaks_nothing [OF this, where n = n] show ?thesis using assms(2-9) n by (auto simp: less_SucI)
  next
    case False
    then show ?thesis
      using assms(1-6) n
      by (auto simp: start_attributed_def win_simps started_from_def hs ks ws filter_fresh Let_def
          split: bool.splits sum.splits prod.splits)
  qed
qed

lemma started_from_attributes: "started_from pid n hs cs ws result (attributes_Delete k) \<longleftrightarrow> started_from pid n hs cs ws result k"
  by (simp add: started_from_def attributes_Delete_def split: sum.split)

lemma start_leaves:
  assumes "conpty_startSessionProcess x pid shell cwd environment cols rows k = (result, k')" and "issued_below (k_next k) k"
  shows "started_from pid (k_next k) (k_handles k) (k_consoles k) (k_running k) result k'
    \<and> k_misused k' = k_misused k \<and> k_attributes k' = k_attributes k"
proof -
  define n where "n = k_next k"
  have "\<forall>h \<in> set (k_handles k) \<union> set (k_consoles k) \<union> set (k_killing k). h < n"
    using assms(2) unfolding issued_below_def n_def by blast
  then have hs: "h \<notin> set (k_handles k)" "h \<notin> set (k_consoles k)" "h \<notin> set (k_killing k)" if "n \<le> h" for h
    using that by (meson UnI1 UnI2 leD)+
  have n: "0 < n" "k_next k = n" using assms(2) by (simp_all add: issued_below_def n_def)
  define k1 where "k1 = k\<lparr>k_next := Suc (Suc (Suc (Suc (Suc n)))), k_consoles := Suc (Suc (Suc (Suc n))) # k_consoles k,
     k_handles := Suc (Suc n) # Suc n # k_handles k, k_faults := tl (tl (tl (tl (k_faults k)))), k_attributes := k_attributes k + 1\<rparr>"
  obtain result2 k2 where 2: "start_attributed x pid shell cwd environment (Suc n) (Suc (Suc n)) (Suc (Suc (Suc (Suc n)))) k1 = (result2, k2)"
    by fastforce
  have sub: "started_from pid n (k_handles k) (k_consoles k) (k_running k1) result2 k2 \<and> k_misused k2 = k_misused k1
      \<and> k_attributes k2 = k_attributes k1"
    using assms(2) n by (intro start_attributed_leaks_nothing [OF 2]) (auto simp: k1_def issued_below_def intro!: less_SucI)
  show ?thesis
  proof (cases "(cols > 32767 \<or> rows > 32767) \<or> \<not> passes (k_faults k) \<or> \<not> passes (tl (k_faults k))
      \<or> \<not> passes (tl (tl (k_faults k))) \<or> \<not> passes (tl (tl (tl (k_faults k))))")
    case True
    then have "\<exists>e. result = Inl e \<and> k_handles k' = k_handles k \<and> k_consoles k' = k_consoles k \<and> k_running k' = k_running k
        \<and> k_misused k' = k_misused k \<and> k_attributes k' = k_attributes k"
      using assms(1)
      by (cases "passes (k_faults k)"; cases "passes (tl (k_faults k))"; cases "passes (tl (tl (k_faults k)))";
          cases "32767 < cols \<or> 32767 < rows")
        (auto simp: conpty_startSessionProcess_def windowsPipe_def win_simps hs n)
    then show ?thesis by (auto simp: started_from_def)
  next
    case False
    then have "conpty_startSessionProcess x pid shell cwd environment cols rows k = (result2, attributes_Delete k2)"
      using 2 by (simp add: conpty_startSessionProcess_def windowsPipe_def win_simps hs n k1_def)
    then have r: "result = result2" "k' = attributes_Delete k2" using assms(1) by simp_all
    have "k_running k1 = k_running k" "k_misused k1 = k_misused k" "k_attributes k1 = k_attributes k + 1" by (simp_all add: k1_def)
    with sub show ?thesis unfolding r started_from_attributes n(2) by (simp add: attributes_Delete_def)
  qed
qed

subsection \<open>The contract holds\<close>

text \<open>Beside the watcher: a process ends, or one that runs starts another, which joins its job.\<close>

inductive conpty_background :: "conPTYProcess \<times> kernel \<Rightarrow> conPTYProcess \<times> kernel \<Rightarrow> bool" where
  watcher: "watchExit s t \<Longrightarrow> conpty_background s t"
| ends: "w \<in> set (k_running k)
    \<Longrightarrow> conpty_background (p, k) (p, k\<lparr>k_running := filter (\<lambda>v. wp_handle v \<noteq> wp_handle w) (k_running k)\<rparr>)"
| spawns: "\<lbrakk>w \<in> set (k_running k); wp_handle v = k_next k; wp_thread v = k_next k; wp_job v = wp_job w\<rbrakk>
    \<Longrightarrow> conpty_background (p, k) (p, k\<lparr>k_next := k_next k + 1, k_running := v # k_running k\<rparr>)"

text \<open>
  A process that was started with the handles \<open>h\<close> and \<open>j\<close> of its shell and its job, beside everything
  else that is open: what is open of it is what its calls have not closed yet.
\<close>

definition conpty_ok :: "nat \<Rightarrow> nat \<Rightarrow> nat set \<Rightarrow> nat set \<Rightarrow> nat list \<Rightarrow> conPTYProcess \<times> kernel \<Rightarrow> bool" where
  "conpty_ok h j hs cs misused = (\<lambda>(p, k).
     k_misused k = misused \<and> distinct [cp_input p, cp_output p, h, j] \<and> {cp_input p, cp_output p, h, j} \<inter> hs = {}
     \<and> 0 < h \<and> 0 < j \<and> cp_console p \<notin> cs \<and> j \<in> set (k_killing k) \<and> {cp_input p, cp_output p, h} \<inter> set (k_killing k) = {}
     \<and> set (k_handles k) = hs \<union> (if cp_closeOnce p then {} else {cp_input p, cp_output p}) \<union> (if cp_waitOnce p then {} else {h, j})
     \<and> set (k_consoles k) = cs \<union> (if cp_consoleOnce p then {} else {cp_console p})
     \<and> (cp_closeOnce p \<longrightarrow> cp_consoleOnce p)
     \<and> (if cp_waitOnce p then cp_process p = 0 \<and> cp_job p = 0 \<and> cp_exited p else cp_process p = h \<and> cp_job p = j)
     \<and> (cp_exited p \<longrightarrow> cp_watch p = ConsoleClosed) \<and> (cp_watch p = ConsoleClosed \<longrightarrow> cp_consoleOnce p)
     \<and> h < k_next k \<and> (\<forall>w \<in> set (k_running k). (wp_handle w = h \<longrightarrow> wp_job w = Some j \<and> cp_watch p = Waiting)
          \<and> (cp_waitOnce p \<longrightarrow> wp_job w \<noteq> Some j)))"

definition conpty_ended :: "nat \<Rightarrow> conPTYProcess \<times> kernel \<Rightarrow> bool" where
  "conpty_ended j = (\<lambda>(p, k). \<forall>w \<in> set (k_running k). wp_job w \<noteq> Some j)"

lemma conpty_ok_closeConsole: "conpty_ok h j hs cs misused (p, k) \<Longrightarrow> conpty_ok h j hs cs misused (closeConsole (p, k))"
  by (auto simp: conpty_ok_def closeConsole_def ClosePseudoConsole_def)

lemma conpty_ok_watch:
  assumes "watchExit s t" and "conpty_ok h j hs cs misused s"
  shows "conpty_ok h j hs cs misused t \<and> cp_closeOnce (fst t) = cp_closeOnce (fst s) \<and> cp_waitOnce (fst t) = cp_waitOnce (fst s)
    \<and> k_running (snd t) = k_running (snd s)"
  using assms
proof (cases rule: watchExit.cases)
  case (waits p k)
  then have "\<not> cp_waitOnce p" using assms(2) by (auto simp: conpty_ok_def)
  with waits assms(2) show ?thesis by (auto simp: conpty_ok_def)
next
  case (closes p k)
  then show ?thesis using assms(2)
    by (auto simp: conpty_ok_def closeConsole_def ClosePseudoConsole_def)
next
  case (exits p k)
  then show ?thesis using assms(2) by (auto simp: conpty_ok_def)
qed

lemma conpty_ok_background:
  assumes "conpty_background s t" and "conpty_ok h j hs cs misused s"
  shows "conpty_ok h j hs cs misused t \<and> cp_closeOnce (fst t) = cp_closeOnce (fst s) \<and> cp_waitOnce (fst t) = cp_waitOnce (fst s)
    \<and> (conpty_ended j s \<longrightarrow> conpty_ended j t)"
  using assms
proof (cases rule: conpty_background.cases)
  case watcher
  then show ?thesis using conpty_ok_watch [OF watcher assms(2)] by (auto simp: conpty_ended_def split_def)
next
  case (ends w k p)
  then show ?thesis using assms(2) by (auto simp: conpty_ok_def conpty_ended_def)
next
  case (spawns w k v p)
  then show ?thesis using assms(2) by (auto simp: conpty_ok_def conpty_ended_def)
qed

lemma conpty_ok_Terminate:
  assumes "conpty_ok h j hs cs misused s"
  shows "conpty_ok h j hs cs misused (conpty_Terminate s) \<and> conpty_ended j (conpty_Terminate s)
    \<and> cp_closeOnce (fst (conpty_Terminate s)) = cp_closeOnce (fst s) \<and> cp_waitOnce (fst (conpty_Terminate s)) = cp_waitOnce (fst s)"
  using assms
  by (cases s) (auto simp: conpty_ok_def conpty_ended_def conpty_Terminate_def TerminateJobObject_def split: if_splits)

lemma conpty_ok_Close:
  assumes "conpty_ok h j hs cs misused s"
  shows "conpty_ok h j hs cs misused (conpty_Close s) \<and> cp_closeOnce (fst (conpty_Close s))
    \<and> cp_waitOnce (fst (conpty_Close s)) = cp_waitOnce (fst s) \<and> k_running (snd (conpty_Close s)) = k_running (snd s)"
proof (cases s)
  case (Pair p k)
  show ?thesis
  proof (cases "cp_closeOnce p")
    case True
    with Pair assms show ?thesis by (simp add: conpty_Close_def)
  next
    case False
    have "conpty_ok h j hs cs misused
        (conpty_Close (p, k))" using assms Pair False
      by (auto simp: conpty_ok_def conpty_Close_def closeConsole_def ClosePseudoConsole_def CloseHandle_open)
    moreover have "cp_closeOnce (fst (conpty_Close s)) \<and> cp_waitOnce (fst (conpty_Close s)) = cp_waitOnce p
        \<and> k_running (snd (conpty_Close s)) = k_running k"
      using assms Pair False by (auto simp: conpty_ok_def conpty_Close_def closeConsole_def ClosePseudoConsole_def CloseHandle_open use_console_def)
    ultimately show ?thesis using Pair by simp
  qed
qed

lemma conpty_ok_Wait:
  assumes "conpty_ok h j hs cs misused s" and "conpty_Wait s = Some t"
  shows "conpty_ok h j hs cs misused t \<and> cp_waitOnce (fst t) \<and> cp_closeOnce (fst t) = cp_closeOnce (fst s) \<and> conpty_ended j t"
proof (cases s)
  case (Pair p k)
  show ?thesis
  proof (cases "cp_waitOnce p")
    case True
    with Pair assms show ?thesis by (auto simp: conpty_Wait_def conpty_ok_def conpty_ended_def)
  next
    case False
    with assms Pair have e: "cp_exited p" by (auto simp: conpty_Wait_def split: if_splits)
    have f: "h \<in> set (k_handles k)" "j \<in> set (k_handles k)" "h \<noteq> j" "h \<notin> set (k_killing k)" "j \<in> set (k_killing k)"
        "0 < h" "0 < j" "cp_process p = h" "cp_job p = j" using assms(1) Pair False by (auto simp: conpty_ok_def)
    then have t: "t = (p\<lparr>cp_process := 0, cp_job := 0, cp_waitOnce := True\<rparr>,
        k\<lparr>k_handles := removeAll j (removeAll h (k_handles k)), k_running := filter (\<lambda>w. wp_job w \<noteq> Some j) (k_running k)\<rparr>)"
      using assms(2) Pair False e by (simp add: conpty_Wait_def close_once_def CloseHandle_open)
    show ?thesis unfolding t using assms(1) Pair False e by (auto simp: conpty_ok_def conpty_ended_def)
  qed
qed

lemma conpty_exits:
  assumes "conpty_ok h j hs cs misused s" and "conpty_ended j s" and "\<not> cp_waitOnce (fst s)"
  shows "\<exists>t. conpty_background\<^sup>*\<^sup>* s t \<and> conpty_Wait t \<noteq> None"
proof -
  obtain p k where s: "s = (p, k)" by fastforce
  have wait: "conpty_Wait (q, k') \<noteq> None" if "cp_exited q" for q k' using that by (simp add: conpty_Wait_def)
  have closed: "\<exists>t. conpty_background\<^sup>*\<^sup>* (q, k') t \<and> conpty_Wait t \<noteq> None" if "cp_watch q = ConsoleClosed" for q k'
  proof (cases "cp_exited q")
    case False
    from watchExit.exits [OF that False, of k'] have "conpty_background (q, k') (q\<lparr>cp_exited := True\<rparr>, k')" by (rule conpty_background.watcher)
    with wait [of "q\<lparr>cp_exited := True\<rparr>" k'] show ?thesis by auto
  qed (use wait in blast)
  have ended: "\<exists>t. conpty_background\<^sup>*\<^sup>* (q, k') t \<and> conpty_Wait t \<noteq> None" if "cp_watch q = ShellEnded" for q k'
  proof -
    from watchExit.closes [OF that, of k'] have 1: "conpty_background (q, k') (closeConsole (q\<lparr>cp_watch := ConsoleClosed\<rparr>, k'))"
      by (rule conpty_background.watcher)
    obtain q2 k2 where 2: "closeConsole (q\<lparr>cp_watch := ConsoleClosed\<rparr>, k') = (q2, k2)" by fastforce
    then have "cp_watch q2 = ConsoleClosed" by (auto simp: closeConsole_def split: if_splits)
    from closed [OF this, of k2] 1 2 show ?thesis by (metis converse_rtranclp_into_rtranclp)
  qed
  show ?thesis
  proof (cases "cp_watch p")
    case Waiting
    have "\<forall>w \<in> set (k_running k). wp_handle w \<noteq> cp_process p"
      using assms s by (auto simp: conpty_ok_def conpty_ended_def)
    from conpty_background.watcher [OF watchExit.waits [OF Waiting this]] s
    have b: "conpty_background s (p\<lparr>cp_watch := ShellEnded\<rparr>, use_handle (cp_process p) k)" by simp
    have "cp_watch (p\<lparr>cp_watch := ShellEnded\<rparr>) = ShellEnded" by simp
    from ended [OF this] b show ?thesis by (metis converse_rtranclp_into_rtranclp)
  qed (use closed ended s in auto)
qed

interpretation conpty_process: session_process "conpty_ok h j hs cs misused" conpty_background conpty_Terminate conpty_Close conpty_Wait
  "conpty_ended j" "\<lambda>s. cp_closeOnce (fst s)" "\<lambda>s. cp_waitOnce (fst s)" for h j hs cs misused
proof (unfold_locales, goal_cases)
  case (1 s t) then show ?case using conpty_ok_background [OF 1(2,1)] by auto
next
  case (2 s) then show ?case using conpty_ok_Terminate [OF 2] by auto
next
  case (3 s) then show ?case using conpty_ok_Close [OF 3] by (auto simp: conpty_ended_def split_def)
next
  case (4 s t) then show ?case using conpty_ok_Wait [OF 4] by auto
next
  case (5 s) then show ?case using conpty_exits by blast
qed

lemma started_conpty_ok:
  assumes "started_from pid n hs cs ws (Inr p) k" and "k_misused k = misused" and "0 < n"
    and "\<forall>h \<in> set hs \<union> set cs. h < n" and "\<forall>w \<in> set ws. wp_handle w < n \<and> (\<forall>j. wp_job w = Some j \<longrightarrow> j < n)"
  shows "conpty_ok (cp_process p) (cp_job p) (set hs) (set cs) misused (p, k)"
proof -
  obtain arguments thread where w: "k_running k = shell_process pid arguments (cp_process p) thread (cp_job p) # ws"
    using assms(1) by (auto simp: started_from_def)
  have "wp_handle (shell_process pid arguments (cp_process p) thread (cp_job p)) = cp_process p"
      "wp_job (shell_process pid arguments (cp_process p) thread (cp_job p)) = Some (cp_job p)"
    by (auto simp: shell_process_def split: prod.split)
  then have "\<forall>w \<in> set (k_running k). wp_handle w = cp_process p \<longrightarrow> wp_job w = Some (cp_job p)"
    using assms(1,5) w by (auto simp: started_from_def)
  moreover have "h \<notin> set hs" "h \<notin> set cs" if "n \<le> h" for h using assms(4) that by (meson UnI1 UnI2 leD)+
  ultimately show ?thesis
    using assms(1-3) by (auto simp: started_from_def conpty_ok_def)
qed

subsection \<open>Properties\<close>

text \<open>C36. A start that fails gives everything back. Whichever call of the start fails, what is open after it
  is what was open before: no handle, no pseudo console, no attribute list and no process is left, and
  nothing was closed twice. A start that succeeds leaves exactly five things open, all different (the two
  pipe ends, the console, the shell and its job), and one more process, running and in a job that ends it
  when the job is closed.\<close>

theorem start_leaks_nothing:
  assumes "conpty_startSessionProcess x pid shell cwd environment cols rows k = (result, k')" and "issued_below (k_next k) k"
  shows "(case result of
      Inl e \<Rightarrow> k_handles k' = k_handles k \<and> k_consoles k' = k_consoles k \<and> k_running k' = k_running k
    | Inr p \<Rightarrow> set (k_handles k') = {cp_input p, cp_output p, cp_process p, cp_job p} \<union> set (k_handles k)
        \<and> k_consoles k' = cp_console p # k_consoles k \<and> distinct [cp_input p, cp_output p, cp_process p, cp_job p, cp_console p]
        \<and> (\<exists>w. k_running k' = w # k_running k \<and> wp_handle w = cp_process p \<and> wp_pid w = pid \<and> \<not> wp_suspended w
            \<and> wp_job w = Some (cp_job p) \<and> cp_job p \<in> set (k_killing k')))
    \<and> k_misused k' = k_misused k \<and> k_attributes k' = k_attributes k"
proof (cases result)
  case (Inl e)
  with start_leaves [OF assms] show ?thesis by (simp add: started_from_def)
next
  case (Inr p)
  with start_leaves [OF assms] obtain arguments thread where
    "k_running k' = shell_process pid arguments (cp_process p) thread (cp_job p) # k_running k" by (auto simp: started_from_def)
  then have "\<exists>w. k_running k' = w # k_running k \<and> wp_handle w = cp_process p \<and> wp_pid w = pid \<and> \<not> wp_suspended w
      \<and> wp_job w = Some (cp_job p)"
    by (auto simp: shell_process_def split: prod.split)
  with start_leaves [OF assms] Inr show ?thesis by (simp add: started_from_def)
qed

definition idle_system :: "bool list \<Rightarrow> kernel" where
  "idle_system script = \<lparr>k_next = 8, k_handles = [3], k_consoles = [], k_attributes = 0, k_running = [], k_killing = [],
     k_misused = [], k_faults = script\<rparr>"

definition ascii_wide :: wide where
  "ascii_wide = \<lparr>w_utf16 = (\<lambda>text. if CHR 0x00 \<in> set text then None else Some (map (\<lambda>c. of_nat (of_char c)) text @ [0])),
     w_compose = concat, w_upper = id\<rparr>"

theorem start_leaks_nothing_witness:
  "\<exists>k'. conpty_startSessionProcess ascii_wide 41 ''sh'' [] [''A=1''] 80 24 (idle_system (replicate 9 False @ [True])) = (Inl ResumeFailed, k')
    \<and> k_handles k' = [3] \<and> k_consoles k' = [] \<and> k_running k' = [] \<and> k_misused k' = []"
proof -
  obtain result k' where s: "conpty_startSessionProcess ascii_wide 41 ''sh'' [] [''A=1''] 80 24
      (idle_system (replicate 9 False @ [True])) = (result, k')" by fastforce
  have "issued_below (k_next (idle_system (replicate 9 False @ [True]))) (idle_system (replicate 9 False @ [True]))"
    by (simp add: issued_below_def idle_system_def)
  from start_leaks_nothing [OF s this] have l: "result = Inl ResumeFailed \<Longrightarrow> k_handles k' = [3] \<and> k_consoles k' = [] \<and> k_running k' = []"
      "k_misused k' = []" by (simp_all add: idle_system_def)
  have "fst (conpty_startSessionProcess ascii_wide 41 ''sh'' [] [''A=1''] 80 24 (idle_system (replicate 9 False @ [True])))
      = Inl ResumeFailed" by code_simp
  with s l show ?thesis by simp
qed

text \<open>C37. Ending a process gives everything back, once. From a start that succeeded, with the shell, what it
  started and the exit watcher running on in any way between the calls: after the terminate nothing runs
  in the shell's job, the wait of the session is never blocked for good, and when it has returned after the
  close, exactly what was open before the start is open, nothing of the job runs, and no handle and no
  console was closed twice or used after it was closed.\<close>

theorem conpty_end_releases:
  assumes "conpty_startSessionProcess x pid shell cwd environment cols rows k0 = (Inr p, k1)" and "issued_below (k_next k0) k0"
    and "conpty_background\<^sup>*\<^sup>* (p, k1) s2" and "conpty_background\<^sup>*\<^sup>* (conpty_Terminate s2) s3" and "conpty_background\<^sup>*\<^sup>* (conpty_Close s3) s4"
  shows "(\<forall>w \<in> set (k_running (snd (conpty_Terminate s2))). wp_job w \<noteq> Some (cp_job p))
    \<and> (\<exists>s. conpty_background\<^sup>*\<^sup>* s4 s \<and> conpty_Wait s \<noteq> None)
    \<and> (\<forall>s q k. conpty_background\<^sup>*\<^sup>* s4 s \<and> conpty_Wait s = Some (q, k) \<longrightarrow>
        set (k_handles k) = set (k_handles k0) \<and> set (k_consoles k) = set (k_consoles k0) \<and> k_misused k = k_misused k0
        \<and> (\<forall>w \<in> set (k_running k). wp_job w \<noteq> Some (cp_job p)))"
proof -
  let ?ok = "conpty_ok (cp_process p) (cp_job p) (set (k_handles k0)) (set (k_consoles k0)) (k_misused k0)"
  have b: "0 < k_next k0" "\<forall>h \<in> set (k_handles k0) \<union> set (k_consoles k0). h < k_next k0"
      "\<forall>w \<in> set (k_running k0). wp_handle w < k_next k0 \<and> (\<forall>j. wp_job w = Some j \<longrightarrow> j < k_next k0)"
    using assms(2) unfolding issued_below_def by blast+
  have s: "started_from pid (k_next k0) (k_handles k0) (k_consoles k0) (k_running k0) (Inr p) k1" "k_misused k1 = k_misused k0"
    using start_leaves [OF assms(1,2)] by simp_all
  have 1: "?ok (p, k1)" by (rule started_conpty_ok [OF s b])
  have "\<not> cp_waitOnce (fst (p, k1))" using s(1) by (simp add: started_from_def)
  then have 2: "?ok s2" "\<not> cp_waitOnce (fst s2)" using conpty_process.background_run [OF assms(3) 1] by auto
  from conpty_process.end_releases [OF 2 assms(4,5)] have e: "\<exists>s. conpty_background\<^sup>*\<^sup>* s4 s \<and> conpty_Wait s \<noteq> None"
      "\<And>s q k. conpty_background\<^sup>*\<^sup>* s4 s \<Longrightarrow> conpty_Wait s = Some (q, k)
        \<Longrightarrow> ?ok (q, k) \<and> conpty_ended (cp_job p) (q, k) \<and> cp_closeOnce q \<and> cp_waitOnce q" by fastforce+
  have t: "\<forall>w \<in> set (k_running (snd (conpty_Terminate s2))). wp_job w \<noteq> Some (cp_job p)"
    using conpty_ok_Terminate [OF 2(1)] by (simp add: conpty_ended_def split_def)
  have "set (k_handles k) = set (k_handles k0) \<and> set (k_consoles k) = set (k_consoles k0) \<and> k_misused k = k_misused k0
      \<and> (\<forall>w \<in> set (k_running k). wp_job w \<noteq> Some (cp_job p))"
    if "conpty_background\<^sup>*\<^sup>* s4 s" "conpty_Wait s = Some (q, k)" for s q k
    using e(2) [OF that] by (simp add: conpty_ok_def conpty_ended_def)
  with t e(1) show ?thesis by blast
qed

definition sample_conpty :: conPTYProcess where
  "sample_conpty = \<lparr>cp_input = 9, cp_output = 10, cp_console = 12, cp_process = 14, cp_job = 13, cp_pid = 41,
     cp_consoleOnce = False, cp_closeOnce = False, cp_waitOnce = False, cp_exited = False, cp_watch = Waiting\<rparr>"

lemma sample_conpty_starts:
  "\<exists>k. conpty_startSessionProcess ascii_wide 41 ''sh'' [] [''A=1''] 80 24 (idle_system []) = (Inr sample_conpty, k)"
proof -
  have "fst (conpty_startSessionProcess ascii_wide 41 ''sh'' [] [''A=1''] 80 24 (idle_system [])) = Inr sample_conpty"
    by code_simp
  then show ?thesis by (metis prod.collapse)
qed

theorem conpty_end_releases_witness:
  "\<exists>k1 s. conpty_startSessionProcess ascii_wide 41 ''sh'' [] [''A=1''] 80 24 (idle_system []) = (Inr sample_conpty, k1)
    \<and> conpty_background\<^sup>*\<^sup>* (conpty_Close (conpty_Terminate (sample_conpty, k1))) s
    \<and> (\<exists>q k. conpty_Wait s = Some (q, k) \<and> set (k_handles k) = {3} \<and> k_consoles k = [] \<and> k_misused k = [])"
proof -
  obtain k1 where 1: "conpty_startSessionProcess ascii_wide 41 ''sh'' [] [''A=1''] 80 24 (idle_system []) = (Inr sample_conpty, k1)"
    using sample_conpty_starts by blast
  have 2: "issued_below (k_next (idle_system [])) (idle_system [])" by (simp add: issued_below_def idle_system_def)
  from conpty_end_releases [OF 1 2 rtranclp.rtrancl_refl rtranclp.rtrancl_refl rtranclp.rtrancl_refl]
  obtain s q k where "conpty_background\<^sup>*\<^sup>* (conpty_Close (conpty_Terminate (sample_conpty, k1))) s" "conpty_Wait s = Some (q, k)"
      "set (k_handles k) = set (k_handles (idle_system [])) \<and> set (k_consoles k) = set (k_consoles (idle_system [])) \<and> k_misused k = k_misused (idle_system [])"
    by (metis not_None_eq prod.collapse)
  then have "\<exists>q k. conpty_Wait s = Some (q, k) \<and> set (k_handles k) = {3} \<and> k_consoles k = [] \<and> k_misused k = []"
    by (simp add: idle_system_def)
  with 1 \<open>conpty_background\<^sup>*\<^sup>* (conpty_Close (conpty_Terminate (sample_conpty, k1))) s\<close> show ?thesis by blast
qed

text \<open>A size that reaches the console after the shell ended is given to a console that was closed.\<close>

lemma resize_after_exit:
  assumes "conpty_ok h j hs cs misused (p, k)" and "cp_watch p = ConsoleClosed" and "\<not> (cols > 32767 \<or> rows > 32767)"
  shows "conpty_Resize resized cols rows (p, k) = ((None, resized), k\<lparr>k_misused := cp_console p # misused\<rparr>)"
  using assms by (auto simp: conpty_Resize_def conpty_ok_def use_console_def)

text \<open>A block is read entry by entry, each up to its zero, until an entry is empty.\<close>

function read_block :: "u16 list \<Rightarrow> u16 list list" where
  "read_block block = (if block = [] \<or> hd block = 0 then []
     else takeWhile (\<lambda>c. c \<noteq> 0) block # read_block (tl (dropWhile (\<lambda>c. c \<noteq> 0) block)))"
  by auto
termination
proof (relation "measure length", simp, goal_cases)
  case (1 block)
  then have "length (dropWhile (\<lambda>c. c \<noteq> 0) block) \<le> length block" "0 < length block" by (simp_all add: length_dropWhile_le)
  then have "length (dropWhile (\<lambda>c. c \<noteq> 0) block) - 1 < length block" by linarith
  then show ?case by simp
qed

declare read_block.simps [simp del]

text \<open>What is documented of the encoder: it puts one zero behind a text, and refuses a text with a NUL in it.\<close>

definition utf16_ok :: "(string \<Rightarrow> u16 list option) \<Rightarrow> bool" where
  "utf16_ok utf16 \<longleftrightarrow> (\<forall>text. case utf16 text of
     None \<Rightarrow> CHR 0x00 \<in> set text
   | Some units \<Rightarrow> CHR 0x00 \<notin> set text \<and> units \<noteq> [] \<and> last units = 0 \<and> 0 \<notin> set (butlast units) \<and> (text \<noteq> [] \<longrightarrow> butlast units \<noteq> []))"

lemma read_block_entry:
  assumes "0 \<notin> set units" and "units \<noteq> []"
  shows "read_block (units @ 0 # rest) = units # read_block rest"
proof -
  have "hd (units @ 0 # rest) \<noteq> 0" using assms by (cases units) auto
  moreover have "takeWhile (\<lambda>c. c \<noteq> 0) (units @ 0 # rest) = units" "dropWhile (\<lambda>c. c \<noteq> 0) (units @ 0 # rest) = 0 # rest"
    using assms(1) by (induction units) auto
  ultimately show ?thesis using assms(2) by (subst read_block.simps) simp
qed

lemma encode_entries_None: "encode_entries utf16 entries block = None \<longleftrightarrow> (\<exists>entry \<in> set entries. utf16 entry = None)"
  by (induction entries arbitrary: block) (auto split: option.split)

lemma encode_entries_Some:
  "encode_entries utf16 entries block = Some all \<Longrightarrow> all = block @ concat (map (the \<circ> utf16) entries)"
  by (induction entries arbitrary: block) (fastforce split: option.splits)+

lemma utf16_entry:
  assumes "utf16_ok utf16" and "utf16 entry = Some units"
  shows "units = butlast units @ [0] \<and> 0 \<notin> set (butlast units) \<and> (entry \<noteq> [] \<longrightarrow> butlast units \<noteq> [])"
proof -
  have "units \<noteq> [] \<and> last units = 0 \<and> 0 \<notin> set (butlast units) \<and> (entry \<noteq> [] \<longrightarrow> butlast units \<noteq> [])"
    using assms(1) [unfolded utf16_ok_def, rule_format, of entry] assms(2) by simp
  then show ?thesis by (metis append_butlast_last_id)
qed

lemma read_block_entries:
  assumes "utf16_ok utf16" and "\<forall>entry \<in> set entries. entry \<noteq> [] \<and> utf16 entry \<noteq> None"
  shows "read_block (concat (map (the \<circ> utf16) entries) @ [0]) = map (butlast \<circ> the \<circ> utf16) entries"
  using assms(2)
proof (induction entries)
  case Nil
  then show ?case by (subst read_block.simps) simp
next
  case (Cons entry entries)
  then obtain units where u: "utf16 entry = Some units" "entry \<noteq> []" by auto
  with utf16_entry [OF assms(1) u(1)] have "units = butlast units @ [0]" "0 \<notin> set (butlast units)" "butlast units \<noteq> []"
    by blast+
  then have "read_block (units @ concat (map (the \<circ> utf16) entries) @ [0]) = butlast units # read_block (concat (map (the \<circ> utf16) entries) @ [0])"
    using read_block_entry [of "butlast units" "concat (map (the \<circ> utf16) entries) @ [0]"] by (metis append.assoc append_Cons append_Nil)
  with Cons u show ?case by (simp add: comp_def)
qed

text \<open>C38. The environment block of a shell says what the environment said. The block of any environment whose
  entries can be encoded and are not empty is read back, entry by entry up to the empty one, as the
  entries in the order of their upper-case spelling, each exactly as often as it was given; it ends in two
  zeros, also when the environment is empty; and it is refused exactly when an entry cannot be encoded.\<close>

theorem environment_block_roundtrip:
  assumes "utf16_ok (w_utf16 x)" and "\<forall>entry \<in> set environment. entry \<noteq> []"
  shows "(windowsEnvironmentBlock x environment = None \<longleftrightarrow> (\<exists>entry \<in> set environment. CHR 0x00 \<in> set entry))
    \<and> (\<forall>block. windowsEnvironmentBlock x environment = Some block \<longrightarrow>
        (\<exists>entries. read_block block = map (butlast \<circ> the \<circ> w_utf16 x) entries \<and> mset entries = mset environment
          \<and> sorted (map (w_upper x) entries) \<and> (\<exists>units. block = units @ [0, 0])))"
proof -
  let ?entries = "sort_key (w_upper x) environment"
  have none: "w_utf16 x entry = None \<longleftrightarrow> CHR 0x00 \<in> set entry" for entry
    using assms(1) by (auto simp: utf16_ok_def dest!: spec [of _ entry] split: option.splits)
  have "\<exists>entries. read_block block = map (butlast \<circ> the \<circ> w_utf16 x) entries \<and> mset entries = mset environment
      \<and> sorted (map (w_upper x) entries) \<and> (\<exists>units. block = units @ [0, 0])"
    if "windowsEnvironmentBlock x environment = Some block" for block
  proof -
    obtain all where all: "encode_entries (w_utf16 x) ?entries [] = Some all" "block = (if all = [] then [0] else all) @ [0]"
      using \<open>windowsEnvironmentBlock x environment = Some block\<close> by (auto simp: windowsEnvironmentBlock_def split: option.splits)
    have a: "all = concat (map (the \<circ> w_utf16 x) ?entries)" using encode_entries_Some [OF all(1)] by simp
    have ok: "\<forall>entry \<in> set ?entries. entry \<noteq> [] \<and> w_utf16 x entry \<noteq> None"
      using all(1) assms(2) encode_entries_None [of "w_utf16 x" ?entries "[]"] by auto
    have ends: "\<exists>units. all = units @ [0]" if "environment \<noteq> []"
    proof -
      have e: "?entries \<noteq> []" using that by (metis length_0_conv length_sort)
      then obtain entries entry where last: "?entries = entries @ [entry]" by (metis rev_exhaust)
      then obtain units where "w_utf16 x entry = Some units" using ok by auto
      moreover from utf16_entry [OF assms(1) this] obtain front where "units = front @ [0]" by blast
      ultimately have "all = concat (map (the \<circ> w_utf16 x) entries) @ front @ [0]" unfolding a last by simp
      then show ?thesis by (metis append.assoc)
    qed
    show ?thesis
    proof (cases "environment = []")
      case True
      then have "block = [0, 0]" using all a by simp
      with True show ?thesis by (intro exI [of _ "[]"]) (simp add: read_block.simps)
    next
      case False
      with ends have "block = all @ [0]" "\<exists>units. block = units @ [0, 0]" using all(2) by auto
      with read_block_entries [OF assms(1) ok] a show ?thesis by (intro exI [of _ ?entries]) simp
    qed
  qed
  moreover have "windowsEnvironmentBlock x environment = None \<longleftrightarrow> (\<exists>entry \<in> set environment. CHR 0x00 \<in> set entry)"
    using encode_entries_None [of "w_utf16 x" ?entries "[]"] none by (auto simp: windowsEnvironmentBlock_def split: option.splits)
  ultimately show ?thesis by blast
qed

lemma ascii_wide_ok: "utf16_ok (w_utf16 ascii_wide)"
proof -
  have "(of_nat (of_char c) :: u16) \<noteq> 0" if "c \<noteq> CHR 0x00" for c
  proof
    assume "(of_nat (of_char c) :: u16) = 0"
    moreover have "unat (of_nat (of_char c) :: u16) = of_char c"
      using less_trans [OF nat_of_char_less_256 [of c], of 65536] by (simp add: unat_of_nat mod_less)
    ultimately have "(of_char c :: nat) = of_char CHR 0x00" by simp
    with that show False by (simp only: of_char_eq_iff)
  qed
  note nz = this
  have "0 \<notin> (\<lambda>c. of_nat (of_char c) :: u16) ` set t" if "CHR 0x00 \<notin> set t" for t
  proof
    assume "0 \<in> (\<lambda>c. of_nat (of_char c) :: u16) ` set t"
    then obtain c where c: "0 = (of_nat (of_char c) :: u16)" "c \<in> set t" by (rule imageE)
    from c(2) that have "c \<noteq> CHR 0x00" by blast
    from nz [OF this] c(1) [symmetric] show False by (rule notE)
  qed
  then show ?thesis by (simp add: utf16_ok_def ascii_wide_def)
qed

theorem environment_block_roundtrip_witness:
  "\<exists>block. windowsEnvironmentBlock ascii_wide [''B=2'', ''A=1''] = Some block
    \<and> (\<exists>entries. read_block block = map (butlast \<circ> the \<circ> w_utf16 ascii_wide) entries \<and> mset entries = {#''A=1'', ''B=2''#})"
proof -
  have e: "\<forall>entry \<in> set [''B=2'', ''A=1'']. entry \<noteq> []" by simp
  have n: "\<not> (\<exists>entry \<in> set [''B=2'', ''A=1'']. CHR 0x00 \<in> set entry)" by simp
  from environment_block_roundtrip [OF ascii_wide_ok e] n obtain block where
    b: "windowsEnvironmentBlock ascii_wide [''B=2'', ''A=1''] = Some block" by blast
  with environment_block_roundtrip [OF ascii_wide_ok e] obtain entries where
    "read_block block = map (butlast \<circ> the \<circ> w_utf16 ascii_wide) entries" "mset entries = mset [''B=2'', ''A=1'']" by blast
  with b show ?thesis by (intro exI [of _ block] conjI exI [of _ entries]) (simp_all add: add_mset_commute)
qed

end
