(* ===== verification/ControlAnswers.thy ===== *)
theory ControlAnswers
  imports ControlRuns
begin

section \<open>What an answer says was done\<close>

text \<open>
  The commands of the control socket one by one: what an accepted answer reports, that it was done to
  the session the request names and to no other, and what a refusal leaves. Everything here is about a
  handler that returned; whether a write into a process returns is the process's matter.
\<close>

subsection \<open>The contract of each command\<close>

abbreviation ses_at :: "daemon \<Rightarrow> u64 \<Rightarrow> session option" where
  "ses_at d n \<equiv> reg_get n (h_reg (dae_host d))"

definition elsewhere :: "u64 set \<Rightarrow> daemon \<Rightarrow> daemon \<Rightarrow> bool" where
  "elsewhere ns d d' \<longleftrightarrow> (\<forall>m. m \<notin> ns \<longrightarrow> ses_at d' m = ses_at d m)"

text \<open>\<open>carried_out\<close> relates the request, the daemon before it, the data of the accepted answer and the daemon after it.\<close>

fun carried_out :: "'j wire \<Rightarrow> command \<Rightarrow> 'j args \<Rightarrow> daemon \<Rightarrow> ctl_data \<Rightarrow> daemon \<Rightarrow> bool" where
  "carried_out w CommandWrite args d y d' \<longleftrightarrow>
     (\<exists>n text data s. decode (w_Write w) args = Inr (n, text) \<and> b64_decode text = Some data \<and> y = DataBytes (length data)
        \<and> ses_at d n = Some s \<and> \<not> ses_closed s \<and> ses_at d' n = Some (s\<lparr>ses_process := ses_process s @ [ProcWrite data]\<rparr>)
        \<and> elsewhere {n} d d')"
| "carried_out w CommandResize args d y d' \<longleftrightarrow>
     (\<exists>n cols rows s'. decode (w_Resize w) args = Inr (n, cols, rows) \<and> y = DataResize n cols rows \<and> cols \<noteq> 0 \<and> rows \<noteq> 0
        \<and> ses_at d n \<noteq> None \<and> ses_at d' n = Some s' \<and> ses_cols s' = cols \<and> ses_rows s' = rows
        \<and> ProcResize cols rows \<in> set (ses_process s') \<and> elsewhere {n} d d')"
| "carried_out w CommandAck args d y d' \<longleftrightarrow>
     (\<exists>n through s s'. decode (w_Ack w) args = Inr (n, through) \<and> y = DataAck n through
        \<and> ses_at d n = Some s \<and> ses_at d' n = Some s'
        \<and> ring_acked (ses_ring s') = max (ring_acked (ses_ring s)) (min through (ses_written s)) \<and> elsewhere {n} d d')"
| "carried_out w CommandClose args d y d' \<longleftrightarrow>
     (\<exists>n. decode (w_Session w) args = Inr n \<and> y = DataSession n \<and> ses_at d n \<noteq> None \<and> ses_at d' n = None \<and> elsewhere {n} d d')"
| "carried_out w CommandDetachRenderer args d y d' \<longleftrightarrow>
     (\<exists>n s s'. decode (w_Session w) args = Inr n \<and> ses_at d n = Some s \<and> y = DataDetached n (ses_rendererAttached s)
        \<and> ses_at d' n = Some s' \<and> \<not> ses_rendererAttached s' \<and> elsewhere {n} d d')"
| "carried_out w CommandDisplays args d y d' \<longleftrightarrow>
     (\<exists>request s s' i. decode (w_Displays w) args = Inr request \<and> y = DataDisplayed (dis_Session request) (dis_Displays request)
        \<and> ses_at d (dis_Session request) = Some s \<and> map_of (ses_observerTokens s) (dis_Token request) = Some i
        \<and> ses_at d' (dis_Session request) = Some s' \<and> (i \<in> set (ses_displaying s') \<longleftrightarrow> dis_Displays request)
        \<and> elsewhere {dis_Session request} d d')"
| "carried_out w CommandLease args d y d' \<longleftrightarrow>
     (\<exists>n aft lsd s'. decode (w_Lease w) args = Inr (n, aft) \<and> y = DataLeased lsd \<and> lsd_Session lsd = n \<and> lsd_AfterSequence lsd = aft
        \<and> map_of (dae_leases d') (lsd_Token lsd) = Some n \<and> ses_at d n \<noteq> None \<and> ses_at d' n = Some s'
        \<and> lease_held (ses_ring s') (lsd_Token lsd) aft \<and> elsewhere {n} d d')"
| "carried_out w CommandModes args d y d' \<longleftrightarrow>
     (\<exists>n report r. decode (w_Modes w) args = Inr (n, report) \<and> y = DataModes n (rec_Modes r)
        \<and> shown n (h_store (dae_host d')) = Some r \<and> (report \<noteq> [] \<longrightarrow> rec_Modes r = report) \<and> elsewhere {} d d')"
| "carried_out w CommandOpen args d y d' \<longleftrightarrow>
     (\<exists>request answer s. decode (w_Open w) args = Inr request \<and> w_Validate w request = None \<and> y = DataOpened answer
        \<and> ses_at d' (ope_Session answer) = Some s \<and> answer = opened s (ope_Created answer) \<and> ses_paneID s = op_PaneID request
        \<and> (ope_Created answer \<longleftrightarrow> ses_at d (ope_Session answer) = None) \<and> elsewhere {ope_Session answer} d d')"
| "carried_out w CommandPrepareObserver args d y d' \<longleftrightarrow>
     (\<exists>request token p. decode (w_PrepareObserver w) args = Inr request \<and> y = DataObserverPrepared token
        \<and> map_of (dae_pendingObservers d') token = Some p \<and> pre_request p = request \<and> \<not> pre_ready p \<and> elsewhere {} d d')"
| "carried_out w SessionCloseCommand args d y d' \<longleftrightarrow>
     (\<exists>name result. decode (w_SessionClose w) args = Inr name \<and> y = DataSessionClosed result
        \<and> scr_Session result = name \<and> scr_Closed result
        \<and> (\<forall>n. sessionNumber name = Some n \<longrightarrow> ses_at d' n = None \<and> (scr_Held result \<longleftrightarrow> ses_at d n \<noteq> None))
        \<and> elsewhere {n. sessionNumber name = Some n} d d')"
| "carried_out w CommandCloseWindow args d y d' \<longleftrightarrow>
     (\<exists>label ended. decode (w_Window w) args = Inr label \<and> y = DataWindow label ended
        \<and> (\<forall>n \<in> set ended. ses_at d' n = None \<and> (\<exists>s. ses_at d n = Some s \<and> ses_windowLabel s = label))
        \<and> (\<forall>n s. label \<noteq> [] \<and> ses_at d' n = Some s \<longrightarrow> ses_windowLabel s \<noteq> label) \<and> elsewhere (set ended) d d')"
| "carried_out w CommandProcessInventory args d y d' \<longleftrightarrow>
     y = DataInventory (inventory_snapshot (dm_state (dae_mon d'))) \<and> elsewhere {} d d'"
| "carried_out w CommandPane args d y d' \<longleftrightarrow>
     (\<exists>pane held. decode (w_Pane w) args = Inr pane \<and> y = DataHeld pane held \<and> d' = d
        \<and> (case held of None \<Rightarrow> \<forall>n s. ses_at d n = Some s \<longrightarrow> ses_paneID s \<noteq> pane
           | Some answer \<Rightarrow> \<exists>s. ses_at d (ope_Session answer) = Some s \<and> answer = opened s False \<and> ses_paneID s = pane))"
| "carried_out w CommandTail args d y d' \<longleftrightarrow>
     (\<exists>request s answer bytes. decode (w_Tail w) args = Inr request \<and> y = DataTail answer \<and> d' = d
        \<and> ta_paneId answer = tl_PaneID request \<and> ses_at d (ses_id s) = Some s \<and> ses_paneID s = tl_PaneID request
        \<and> b64_decode (ta_dataB64 answer) = Some bytes \<and> suffix bytes (ring_bytes (ses_ring s)) \<and> ta_returned answer = length bytes
        \<and> length bytes \<le> 65536 \<and> ta_through answer = ring_live (ses_ring s))"
| "carried_out w CommandSessions args d y d' \<longleftrightarrow> y = DataSessions (reg_list (h_reg (dae_host d))) \<and> d' = d"
| "carried_out w CommandStatus args d y d' \<longleftrightarrow> y = DataStatus (reg_list (h_reg (dae_host d))) \<and> d' = d"
| "carried_out w CommandObservers args d y d' \<longleftrightarrow> y = DataObservers (observerCounts (h_reg (dae_host d))) \<and> d' = d"
| "carried_out w SessionsCommand args d y d' \<longleftrightarrow>
     (\<exists>asked. decode (w_Sessions w) args = Inr asked \<and> y = DataReport (restoreReport asked (h_reg (dae_host d))) \<and> d' = d)"

text \<open>The codes a command may refuse with. Sessions, status, observers and the inventory never refuse.\<close>

fun refusal_codes :: "command \<Rightarrow> string list" where
  "refusal_codes CommandOpen = [''ARGUMENT'', ''OBSERVER_NOT_READY'', ''OPEN'']"
| "refusal_codes CommandWrite = [''ARGUMENT'', ''NO_SESSION'', ''WRITE'']"
| "refusal_codes CommandResize = [''ARGUMENT'', ''NO_SESSION'', ''RESIZE'']"
| "refusal_codes CommandAck = [''ARGUMENT'', ''NO_SESSION'']"
| "refusal_codes CommandClose = [''ARGUMENT'', ''NO_SESSION'']"
| "refusal_codes CommandPane = [''ARGUMENT'']"
| "refusal_codes CommandCloseWindow = [''ARGUMENT'']"
| "refusal_codes SessionsCommand = [''ARGUMENT'']"
| "refusal_codes SessionCloseCommand = [''ARGUMENT'']"
| "refusal_codes CommandModes = [''ARGUMENT'', ''UNSUPPORTED'', ''TARGET_NOT_FOUND'']"
| "refusal_codes CommandLease = [''ARGUMENT'', ''NO_SESSION'', ''RANDOM'', ''LEASE_CURSOR'']"
| "refusal_codes CommandDetachRenderer = [''ARGUMENT'', ''NO_SESSION'']"
| "refusal_codes CommandPrepareObserver = [''ARGUMENT'', ''RANDOM'']"
| "refusal_codes CommandDisplays = [''ARGUMENT'', ''NO_SESSION'', ''OBSERVER_NOT_FOUND'']"
| "refusal_codes CommandTail = [''ARGUMENT'', ''NO_SESSION'']"
| "refusal_codes _ = []"

text \<open>A refusal opens and ends nothing: every session is there as before, with its shell; and a request
  that was not understood or names no session leaves the daemon as it was.\<close>

definition refused :: "command \<Rightarrow> string \<Rightarrow> daemon \<Rightarrow> daemon \<Rightarrow> bool" where
  "refused x code d d' \<longleftrightarrow> code \<in> set (refusal_codes x)
     \<and> (\<forall>n. case ses_at d n of None \<Rightarrow> ses_at d' n = None | Some s \<Rightarrow> \<exists>s'. ses_at d' n = Some s' \<and> same_shell s s')
     \<and> (code = ''ARGUMENT'' \<or> code = ''NO_SESSION'' \<longrightarrow> d' = d)"

definition fulfils :: "'j wire \<Rightarrow> command \<Rightarrow> 'j args \<Rightarrow> daemon \<Rightarrow> answer \<times> daemon \<Rightarrow> bool" where
  "fulfils w x args d p \<longleftrightarrow> (case p of
     (Inl (code, e), d') \<Rightarrow> refused x code d d' | (Inr y, d') \<Rightarrow> carried_out w x args d y d')"

subsection \<open>What the handlers share\<close>

text \<open>\<open>moved n s' d d'\<close>: the session at \<open>n\<close> is now \<open>s'\<close>, the others are as they were.\<close>

definition moved :: "u64 \<Rightarrow> session \<Rightarrow> daemon \<Rightarrow> daemon \<Rightarrow> bool" where
  "moved n s' d d' \<longleftrightarrow> (\<forall>m. ses_at d' m = (if m = n then Some s' else ses_at d m))"

lemma moved_put [intro]:
  assumes "ses_id s' = n" and "h_reg h = h_reg (dae_host d)"
  shows "moved n s' d (set_host (put_session s' h) d0)"
  using assms by (auto simp: moved_def set_host_def put_session_def reg_get_def AList.update_conv')

lemma moved_put_ses [intro]: "ses_id s' = n \<Longrightarrow> moved n s' d (put_ses s' d)"
  unfolding put_ses_def by (rule moved_put) simp_all

lemma moved_other [intro]: "moved n s' d d' \<Longrightarrow> dae_host d'' = dae_host d' \<Longrightarrow> moved n s' d d''"
  by (simp add: moved_def)

lemma moved_here: "moved n s' d d' \<Longrightarrow> ses_at d' n = Some s' \<and> elsewhere {n} d d'"
  by (simp add: moved_def elsewhere_def)

lemma elsewhere_same [simp]: "h_reg (dae_host d') = h_reg (dae_host d) \<Longrightarrow> elsewhere ns d d'"
  by (simp add: elsewhere_def)

lemma refused_moved:
  assumes "ses_at d n = Some s" and "moved n s' d d'" and "same_shell s s'" and "code \<in> set (refusal_codes x)"
    and "code \<noteq> ''ARGUMENT''" and "code \<noteq> ''NO_SESSION''"
  shows "refused x code d d'"
  using assms by (auto simp: refused_def moved_def split: option.split)

lemma refused_same:
  assumes "code \<in> set (refusal_codes x)" and "h_reg (dae_host d') = h_reg (dae_host d)"
    and "code = ''ARGUMENT'' \<or> code = ''NO_SESSION'' \<Longrightarrow> d' = d"
  shows "refused x code d d'"
  using assms by (auto simp: refused_def split: option.split)

lemma fulfils_simps [simp]:
  "fulfils w x args d (Inl (code, e), d') \<longleftrightarrow> refused x code d d'"
  "fulfils w x args d (Inr y, d') \<longleftrightarrow> carried_out w x args d y d'"
  by (simp_all add: fulfils_def)

lemma fulfils_request:
  assumes "''ARGUMENT'' \<in> set (refusal_codes x)" and "\<And>v. decode unmarshal args = Inr v \<Longrightarrow> fulfils w x args d (f v d)"
  shows "fulfils w x args d (with_request unmarshal args f d)"
  using assms by (cases "decode unmarshal args") (simp_all add: with_request_def refused_same)

lemma fulfils_session:
  assumes "''NO_SESSION'' \<in> set (refusal_codes x)" and "host_ok (dae_host d)"
    and "\<And>s. ses_at d n = Some s \<Longrightarrow> ses_id s = n \<Longrightarrow> fulfils w x args d (f s d)"
  shows "fulfils w x args d (with_session n f d)"
proof (cases "ses_at d n")
  case (Some s)
  then have "ses_id s = n" using assms(2) by (auto simp: host_ok_def reg_get_def dest!: map_of_SomeD)
  with Some assms(3) show ?thesis by (simp add: with_session_def)
qed (use assms(1) in \<open>simp add: with_session_def refused_same\<close>)

subsection \<open>Using one session\<close>

lemma write_fulfils:
  assumes "host_ok (dae_host d)"
  shows "fulfils w CommandWrite args d (ctl_write w cl args d)"
  unfolding ctl_write_def
proof (rule fulfils_request)
  fix v assume v: "decode (w_Write w) args = Inr v"
  obtain n t where nt: "v = (n, t)" by fastforce
  show "fulfils w CommandWrite args d ((case v of (n, text) \<Rightarrow> \<lambda>d. case b64_decode text of
       None \<Rightarrow> (Inl (''ARGUMENT'', NotBase64), d)
     | Some data \<Rightarrow> with_session n (\<lambda>s d. case session_write (cl_proc cl) data s of
           (Inl e, s) \<Rightarrow> (Inl (''WRITE'', SessionError e), put_ses s d)
         | (Inr _, s) \<Rightarrow> (Inr (DataBytes (length data)), put_ses s d)) d) d)"
  proof (cases "b64_decode t")
    case None
    then show ?thesis by (simp add: nt refused_same)
  next
    case (Some data)
    have "fulfils w CommandWrite args d (case session_write (cl_proc cl) data s of
           (Inl e, s) \<Rightarrow> (Inl (''WRITE'', SessionError e), put_ses s d)
         | (Inr _, s) \<Rightarrow> (Inr (DataBytes (length data)), put_ses s d))"
      if s: "ses_at d n = Some s" "ses_id s = n" for s
    proof -
      obtain y s' where w: "session_write (cl_proc cl) data s = (y, s')" by fastforce
      have m: "moved n s' d (put_ses s' d)" using same_shell_ops(1) [OF w] s(2) by (auto simp: same_shell_def)
      have "refused CommandWrite ''WRITE'' d (put_ses s' d)"
        by (rule refused_moved [OF s(1) m same_shell_ops(1) [OF w]]) simp_all
      moreover have "carried_out w CommandWrite args d (DataBytes (length data)) (put_ses s' d)" if "y = Inr u" for u
        using w that s(1) v nt Some moved_here [OF m] by (auto simp: session_write_def split: if_splits)
      ultimately show ?thesis using w by (cases y) auto
    qed
    then show ?thesis using assms Some by (simp add: nt fulfils_session del: carried_out.simps)
  qed
qed simp

lemma resize_fulfils:
  assumes "host_ok (dae_host d)"
  shows "fulfils w CommandResize args d (ctl_resize w cl args d)"
  unfolding ctl_resize_def
proof (rule fulfils_request, goal_cases)
  case (2 v)
  obtain n cols rows where v: "v = (n, cols, rows)" by (metis prod_cases3)
  show ?case unfolding v prod.case
  proof (rule fulfils_session [OF _ assms], goal_cases)
    case (2 s)
    obtain y s' obs st where r: "session_resize (cl_proc cl) (cl_tmp cl) cols rows (s, h_obs (dae_host d), h_store (dae_host d)) = (y, s', obs, st)"
      by (metis prod_cases4)
    note same = same_shell_ops(2) [OF r]
    let ?d = "set_host (put_session s' ((dae_host d)\<lparr>h_obs := obs, h_store := st\<rparr>)) d"
    have m: "moved n s' d ?d" using same 2 by (intro moved_put) (auto simp: same_shell_def)
    have "refused CommandResize ''RESIZE'' d ?d" by (rule refused_moved [OF 2(1) m same]) simp_all
    moreover have "carried_out w CommandResize args d (DataResize n cols rows) ?d" if "y = Inr u" for u
      using r that 2(1) \<open>decode (w_Resize w) args = Inr v\<close> v moved_here [OF m]
      by (auto simp: session_resize_def Let_def split: if_splits)
    ultimately show ?case using r by (cases y) auto
  qed simp
qed simp

lemma session_ack_acked:
  "ring_acked (ses_ring (session_ack c through s)) = max (ring_acked (ses_ring s)) (min through (ses_written s))"
  by (auto simp: session_ack_def ring_ack_def signal_resume_def Let_def max_def min_def)

lemma ack_fulfils:
  assumes "host_ok (dae_host d)"
  shows "fulfils w CommandAck args d (ctl_ack c w args d)"
  unfolding ctl_ack_def
proof (rule fulfils_request, goal_cases)
  case (2 v)
  obtain n through where v: "v = (n, through)" by fastforce
  show ?case unfolding v prod.case
  proof (rule fulfils_session [OF _ assms], goal_cases)
    case (2 s)
    have "moved n (session_ack c through s) d (put_ses (session_ack c through s) d)"
      using same_shell_ops(3) [of s c through] 2 by (auto simp: same_shell_def)
    from moved_here [OF this] 2(1) \<open>decode (w_Ack w) args = Inr v\<close> v show ?case
      by (simp add: session_ack_acked)
  qed simp
qed simp

lemma detachRenderer_fulfils:
  assumes "host_ok (dae_host d)"
  shows "fulfils w CommandDetachRenderer args d (ctl_detachRenderer w cl args d)"
  unfolding ctl_detachRenderer_def
proof (rule fulfils_request, goal_cases)
  case (2 n)
  show ?case
  proof (rule fulfils_session [OF _ assms], goal_cases)
    case (2 s)
    obtain b s' where r: "detachActiveRenderer (cl_now cl) s = (b, s')" by fastforce
    then have off: "b = ses_rendererAttached s" "\<not> ses_rendererAttached s'"
      by (auto simp: detachActiveRenderer_def detach_active_locked_def signal_resume_def Let_def split: if_splits)
    have "moved n s' d (put_ses s' d)" using same_shell_ops(4) [OF r] 2 by (auto simp: same_shell_def)
    from moved_here [OF this] 2(1) \<open>decode (w_Session w) args = Inr n\<close> off r show ?case by simp
  qed simp
qed simp

lemma setDisplays_sets:
  assumes "setDisplays now token displays s = (Inr u, s')"
  shows "\<exists>i. map_of (ses_observerTokens s) token = Some i \<and> (i \<in> set (ses_displaying s') \<longleftrightarrow> displays)"
  using assms by (auto simp: setDisplays_def show_to_def Let_def split: option.splits if_splits)

lemma displays_fulfils:
  assumes "host_ok (dae_host d)"
  shows "fulfils w CommandDisplays args d (ctl_displays w cl args d)"
  unfolding ctl_displays_def
proof (rule fulfils_request, goal_cases)
  case (2 request)
  have "fulfils w CommandDisplays args d (with_session (dis_Session request) (\<lambda>s d.
       case setDisplays (cl_now cl) (dis_Token request) (dis_Displays request) s of
         (Inl e, s) \<Rightarrow> (Inl (''OBSERVER_NOT_FOUND'', SessionError e), put_ses s d)
       | (Inr _, s) \<Rightarrow> (Inr (DataDisplayed (dis_Session request) (dis_Displays request)), put_ses s d)) d)"
  proof (rule fulfils_session [OF _ assms], goal_cases)
    case (2 s)
    obtain y s' where r: "setDisplays (cl_now cl) (dis_Token request) (dis_Displays request) s = (y, s')" by fastforce
    note same = same_shell_ops(5) [OF r]
    have m: "moved (dis_Session request) s' d (put_ses s' d)" using same 2 by (auto simp: same_shell_def)
    have "refused CommandDisplays ''OBSERVER_NOT_FOUND'' d (put_ses s' d)" by (rule refused_moved [OF 2(1) m same]) simp_all
    moreover have "carried_out w CommandDisplays args d (DataDisplayed (dis_Session request) (dis_Displays request)) (put_ses s' d)"
      if "y = Inr u" for u
      using setDisplays_sets [OF r [unfolded that]] 2(1) \<open>decode (w_Displays w) args = Inr request\<close> moved_here [OF m] by auto
    ultimately show ?case using r by (cases y) auto
  qed simp
  then show ?case by (simp add: refused_same)
qed simp

lemma lease_fulfils:
  assumes "host_ok (dae_host d)"
  shows "fulfils w CommandLease args d (ctl_lease w cl args d)"
  unfolding ctl_lease_def
proof (rule fulfils_request, goal_cases)
  case (2 v)
  obtain n aft where v: "v = (n, aft)" by fastforce
  show ?case unfolding v prod.case
  proof (rule fulfils_session [OF _ assms], goal_cases)
    case (2 s)
    show ?case
    proof (cases "cl_random cl")
      case None
      then show ?thesis by (simp add: refused_same)
    next
      case (Some bytes)
      obtain y r where l: "ring_lease (ses_ring s) (hex_encode bytes) aft = (y, r)" by fastforce
      let ?d = "put_ses (s\<lparr>ses_ring := r\<rparr>) d"
      have m: "moved n (s\<lparr>ses_ring := r\<rparr>) d ?d" using 2 by (intro moved_put_ses) simp
      have "refused CommandLease ''LEASE_CURSOR'' d ?d"
        by (rule refused_moved [OF 2(1) m]) (simp_all add: same_shell_ring)
      moreover have "lease_held r (hex_encode bytes) aft" if "y = Inr u" for u
        using l that by (auto simp: ring_lease_def lease_held_def AList.update_conv' split: if_splits)
      moreover have "reg_get n (h_reg (put_session (s\<lparr>ses_ring := r\<rparr>) (dae_host d))) = Some (s\<lparr>ses_ring := r\<rparr>)"
        using moved_here [OF m] by simp
      ultimately show ?thesis
        using l Some 2(1) \<open>decode (w_Lease w) args = Inr v\<close> v moved_here [OF moved_other [OF m]]
        by (cases y) (auto simp: Let_def AList.update_conv')
    qed
  qed simp
qed simp

subsection \<open>Ending sessions\<close>

lemma close_fulfils:
  assumes "host_ok (dae_host d)"
  shows "fulfils w CommandClose args d (ctl_closeSession w cl args d)"
  unfolding ctl_closeSession_def
proof (rule fulfils_request, goal_cases)
  case (2 n)
  show ?case
  proof (rule fulfils_session [OF _ assms], goal_cases)
    case (2 s)
    obtain y h where c: "reg_close (cl_now cl) (cl_tmps cl) n (dae_host d) = (y, h)" by fastforce
    from reg_close_sessions [OF assms c] c 2(1) \<open>decode (w_Session w) args = Inr n\<close> show ?case
      by (simp add: elsewhere_def)
  qed simp
qed simp

lemma sessionClose_fulfils:
  assumes "host_ok (dae_host d)"
  shows "fulfils w SessionCloseCommand args d (ctl_sessionClose w cl args d)"
  unfolding ctl_sessionClose_def
proof (rule fulfils_request, goal_cases)
  case (2 name)
  show ?case
  proof (cases "sessionNumber name")
    case None
    with 2 show ?thesis by (simp add: closeSession_def)
  next
    case (Some n)
    obtain y h where c: "reg_close (cl_now cl) (cl_tmps cl) n (dae_host d) = (y, h)" by fastforce
    from reg_close_sessions [OF assms c] c Some 2 show ?thesis
      by (simp add: closeSession_def elsewhere_def reg_get_def)
  qed
qed simp

text \<open>
  Closing a window goes through the list made before the first close: what it ends leaves the
  registry, and what it does not end of the listed sessions has another label or is gone already.
\<close>

lemma close_labelled_closes:
  assumes "close_labelled cl label infos (ended, h) = (ended', h')" and "host_ok h"
  shows "\<exists>more. ended' = ended @ more
    \<and> (\<forall>k. reg_get k (h_reg h') = (if k \<in> set more then None else reg_get k (h_reg h)))
    \<and> set more \<subseteq> {inf_Session i |i. i \<in> set infos \<and> inf_WindowLabel i = Some label \<and> reg_get (inf_Session i) (h_reg h) \<noteq> None}
    \<and> (\<forall>i \<in> set infos. inf_WindowLabel i = Some label \<longrightarrow> reg_get (inf_Session i) (h_reg h') = None)"
  using assms
proof (induction infos arbitrary: ended h)
  case (Cons info infos)
  show ?case
  proof (cases "inf_WindowLabel info = Some label")
    case False
    with Cons show ?thesis by fastforce
  next
    case True
    let ?n = "inf_Session info"
    obtain x h1 where c: "reg_close (cl_now cl) (cl_tmps cl) ?n h = (x, h1)" by fastforce
    note at1 = reg_close_sessions [OF Cons.prems(2) c]
    have ok1: "host_ok h1" using reg_close_ok [OF Cons.prems(2) c] by simp
    define e1 where "e1 = (if reg_get ?n (h_reg h) = None then ended else ended @ [?n])"
    have "close_labelled cl label infos (e1, h1) = (ended', h')"
      using Cons.prems(1) True c at1(2) by (cases "reg_get ?n (h_reg h)") (simp_all add: e1_def)
    from Cons.IH [OF this ok1] obtain more where more: "ended' = e1 @ more"
        "\<And>k. reg_get k (h_reg h') = (if k \<in> set more then None else reg_get k (h_reg h1))"
        "set more \<subseteq> {inf_Session i |i. i \<in> set infos \<and> inf_WindowLabel i = Some label \<and> reg_get (inf_Session i) (h_reg h1) \<noteq> None}"
        "\<forall>i \<in> set infos. inf_WindowLabel i = Some label \<longrightarrow> reg_get (inf_Session i) (h_reg h') = None"
      by blast
    define all where "all = (if reg_get ?n (h_reg h) = None then more else ?n # more)"
    have "ended' = ended @ all" by (simp add: more(1) e1_def all_def)
    moreover have "reg_get k (h_reg h') = (if k \<in> set all then None else reg_get k (h_reg h))" for k
      using more(2) [of k] at1(1) [of k] by (auto simp: all_def)
    moreover have "set all \<subseteq> {inf_Session i |i. i \<in> set (info # infos) \<and> inf_WindowLabel i = Some label \<and> reg_get (inf_Session i) (h_reg h) \<noteq> None}"
    proof -
      have "\<exists>i. k = inf_Session i \<and> i \<in> set infos \<and> inf_WindowLabel i = Some label \<and> reg_get k (h_reg h) \<noteq> None"
        if k: "k \<in> set more" for k
      proof -
        obtain i where i: "k = inf_Session i" "i \<in> set infos" "inf_WindowLabel i = Some label" "reg_get k (h_reg h1) \<noteq> None"
          using subsetD [OF more(3) k] by blast
        moreover have "reg_get k (h_reg h) \<noteq> None" using i(4) at1(1) [of k] by (auto split: if_splits)
        ultimately show ?thesis by blast
      qed
      with True show ?thesis by (fastforce simp: all_def split: if_splits)
    qed
    moreover have "reg_get ?n (h_reg h') = None" using more(2) [of ?n] at1(1) [of ?n] by simp
    ultimately show ?thesis using more(4) by (intro exI [of _ all]) auto
  qed
qed simp

lemma listed:
  assumes "host_ok h"
  shows "i \<in> set (reg_list (h_reg h)) \<longleftrightarrow> (\<exists>s. reg_get (inf_Session i) (h_reg h) = Some s \<and> i = session_info s)"
proof -
  have "inf_Session (session_info s) = ses_id s" for s by (simp add: session_info_def split: prod.split)
  then show ?thesis using assms
    by (auto simp: reg_list_def reg_get_def host_ok_def image_iff Bex_def dest: map_of_SomeD)
      (metis (mono_tags, lifting) case_prodD)
qed

lemma closeWindow_fulfils:
  assumes "host_ok (dae_host d)"
  shows "fulfils w CommandCloseWindow args d (ctl_closeWindow w cl args d)"
  unfolding ctl_closeWindow_def
proof (rule fulfils_request, goal_cases)
  case (2 label)
  let ?infos = "reg_list (h_reg (dae_host d))"
  obtain ended h where c: "close_labelled cl label ?infos ([], dae_host d) = (ended, h)" by fastforce
  from close_labelled_closes [OF this assms]
  have at: "\<And>k. reg_get k (h_reg h) = (if k \<in> set ended then None else ses_at d k)"
    and ends: "set ended \<subseteq> {inf_Session i |i. i \<in> set ?infos \<and> inf_WindowLabel i = Some label \<and> ses_at d (inf_Session i) \<noteq> None}"
    and gone: "\<forall>i \<in> set ?infos. inf_WindowLabel i = Some label \<longrightarrow> reg_get (inf_Session i) (h_reg h) = None"
    by auto
  have label: "inf_WindowLabel (session_info s) = (if ses_windowLabel s \<noteq> [] then Some (ses_windowLabel s) else None)"
      "inf_Session (session_info s) = ses_id s" for s
    by (simp_all add: session_info_def split: prod.split)
  have "\<exists>s. ses_at d n = Some s \<and> ses_windowLabel s = label" if "n \<in> set ended" for n
    using that ends listed [OF assms] by (force simp: label split: if_splits)
  moreover have "ses_windowLabel s \<noteq> label" if "label \<noteq> []" "reg_get n (h_reg h) = Some s" for n s
  proof
    assume "ses_windowLabel s = label"
    moreover from that(2) at [of n] have s: "ses_at d n = Some s" by (auto split: if_splits)
    moreover from this have "ses_id s = n" using assms by (auto simp: host_ok_def reg_get_def dest!: map_of_SomeD)
    ultimately show False using gone listed [OF assms, of "session_info s"] that by (auto simp: label)
  qed
  moreover have "\<forall>n \<in> set ended. reg_get n (h_reg h) = None" "elsewhere (set ended) d (set_host h d)"
    by (simp_all add: elsewhere_def at)
  ultimately show ?case using c 2 by auto
qed simp

subsection \<open>Modes, observers and panes\<close>

lemma setModes_writes:
  assumes "setModes tmp n report st = (Inr u, st')"
  shows "\<exists>r. shown n st' = Some r \<and> rec_Modes r = report"
proof -
  have w: "store_rewrite tmp n (WriteModes report) st = (Inr u, st')" using assms by simp
  from store_rewrite_unmarked [OF w] obtain r where r: "shown n st = Some r"
      "published tmp (intended (WriteModes report) r) (st_disk st) (Inr u) (st_disk st')"
    by (auto simp: record_written_def)
  then have "rec_Session r = n" by (auto simp: shown_def split: option.splits body.splits if_splits)
  with r(2) show ?thesis by (auto simp: published_def shown_def)
qed

lemma modes_fulfils: "fulfils w CommandModes args d (ctl_modes w cl args d)"
  unfolding ctl_modes_def
proof (rule fulfils_request, goal_cases)
  case (2 v)
  obtain n report where v: "v = (n, report)" by fastforce
  define m where "m = (if report \<noteq> [] then setModes (cl_tmp cl) n report (h_store (dae_host d)) else (Inr (), h_store (dae_host d)))"
  obtain x st where m: "m = (x, st)" by fastforce
  obtain y dk where r: "store_read n (st_disk st) = (y, dk)" by fastforce
  let ?d = "set_host ((dae_host d)\<lparr>h_store := st\<lparr>st_disk := dk\<rparr>\<rparr>) d"
  have no: "refused CommandModes code d (set_host ((dae_host d)\<lparr>h_store := st1\<rparr>) d)" if "code = ''TARGET_NOT_FOUND''" for code st1
    using that by (intro refused_same) simp_all
  have "carried_out w CommandModes args d (DataModes n (rec_Modes found)) ?d" if "x = Inr u" "y = Inr found" for u found
  proof -
    have e: "entry dk = entry (st_disk st)" using store_read_files [OF r [unfolded that(2)]] by (simp add: fun_eq_iff)
    have rec: "shown n st = Some found" "shown n (st\<lparr>st_disk := dk\<rparr>) = Some found"
      using store_read_Inr [OF r [unfolded that(2)]] e by (simp_all add: shown_def)
    have "report \<noteq> [] \<longrightarrow> rec_Modes found = report"
      using setModes_writes [of "cl_tmp cl" n report "h_store (dae_host d)" u st] m that(1) rec(1)
      unfolding m_def by (auto split: if_splits)
    with rec(2) 2 v show ?thesis by auto
  qed
  with no r show ?case unfolding v prod.case m_def [symmetric] m
    by (auto simp: refused_same Let_def split: sum.split)
qed simp

lemma prepareObserver_fulfils: "fulfils w CommandPrepareObserver args d (ctl_prepareObserver c w cl args d)"
  unfolding ctl_prepareObserver_def
proof (rule fulfils_request, goal_cases)
  case (2 request)
  then show ?case
    by (cases "cl_random cl") (auto simp: refused_same Let_def AList.update_conv' split: prod.split)
qed simp

lemma pane_fulfils:
  assumes "host_ok (dae_host d)"
  shows "fulfils w CommandPane args d (ctl_pane w args d)"
  unfolding ctl_pane_def
proof (rule fulfils_request, goal_cases)
  case (2 pane)
  show ?case
  proof (cases "byPane pane (h_reg (dae_host d))")
    case None
    with 2 byPane_None [OF None] show ?thesis by auto
  next
    case (Some s)
    with 2 byPane_Some [OF Some assms] show ?thesis by (simp add: opened_def)
  qed
qed simp

lemma tail_fulfils:
  assumes "host_ok (dae_host d)"
  shows "fulfils w CommandTail args d (ctl_tail w args d)"
  unfolding ctl_tail_def
proof (rule fulfils_request, goal_cases)
  case (2 request)
  define limit where "limit = (if tl_Bytes request = 0 then 4096 else tl_Bytes request)"
  show ?case
  proof (cases "tl_PaneID request = [] \<or> limit < 1 \<or> limit > 65536")
    case True
    then show ?thesis by (auto simp: limit_def refused_same Let_def)
  next
    case False
    then show ?thesis
    proof (cases "byPane (tl_PaneID request) (h_reg (dae_host d))")
      case None
      with False show ?thesis by (simp add: limit_def [symmetric] refused_same Let_def)
    next
      case (Some s)
      let ?all = "ring_bytes (ses_ring s)"
      let ?kept = "if int (length ?all) > limit then drop (length ?all - nat limit) ?all else ?all"
      define kept where "kept = ?kept"
      have "suffix kept ?all" "length kept \<le> 65536" using False by (auto simp: suffix_drop kept_def)
      with Some False 2 byPane_Some [OF Some assms] show ?thesis
        by (auto simp: limit_def [symmetric] Let_def ring_snapshot_def b64_decode_encode kept_def [symmetric]
            simp del: if_split intro!: exI [of _ s])
    qed
  qed
qed simp

lemma inventory_fulfils: "fulfils w CommandProcessInventory args d (ctl_processInventory cl d)"
proof -
  have "reg_sessions (h_reg (dm_host (startProcessMonitoring (cl_os cl) (dae_mon d)))) = reg_sessions (h_reg (dae_host d))"
    using startProcessMonitoring_host [of "cl_os cl" "dae_mon d"] by (auto simp: bindProcessLifecycle_def)
  then show ?thesis by (simp add: ctl_processInventory_def Let_def elsewhere_def reg_get_def)
qed

lemma looks_fulfil:
  "fulfils w CommandSessions args d (ctl_sessions d)" "fulfils w CommandStatus args d (ctl_status d)"
  "fulfils w CommandObservers args d (ctl_observers d)" "fulfils w SessionsCommand args d (ctl_sessionReport w args d)"
proof -
  show "fulfils w SessionsCommand args d (ctl_sessionReport w args d)"
    unfolding ctl_sessionReport_def by (rule fulfils_request) simp_all
qed (simp_all add: ctl_sessions_def ctl_status_def ctl_observers_def)

subsection \<open>Opening\<close>

lemma open_existing_fulfils:
  assumes "host_ok (dae_host d)" and "decode (w_Open w) args = Inr request" and "w_Validate w request = None"
    and "open_lookup request d1 = Some s" and "dae_host d1 = dae_host d"
    and "open_finish c cl request prepared (Some s) d1 = Some p"
  shows "fulfils w CommandOpen args d p"
proof -
  have s: "ses_at d (ses_id s) = Some s" "ses_paneID s = op_PaneID request"
    using assms(1,4,5) byPane_Some [of "op_PaneID request" "dae_host d" s] by (auto simp: open_lookup_def split: option.splits if_splits)
  show ?thesis
  proof (cases prepared)
    case None
    with assms s show ?thesis by (auto simp: open_finish_def opened_def)
  next
    case (Some q)
    obtain s' obs where a: "adoptObserver (op_ObserverToken request) (pre_observer q) (po_Displays (pre_request q)) (s, h_obs (dae_host d1)) = (s', obs)"
      by fastforce
    note same = same_shell_ops(11) [OF a]
    have m: "moved (ses_id s) s' d (set_host (put_session s' ((dae_host d1)\<lparr>h_obs := obs\<rparr>)) d1)"
      using same assms(5) by (intro moved_put) (auto simp: same_shell_def)
    from moved_here [OF m] s same assms(2,3,6) Some a show ?thesis
      by (auto simp: open_finish_def opened_def same_shell_def)
  qed
qed

lemma open_new_fulfils:
  assumes "decode (w_Open w) args = Inr request" and "w_Validate w request = None"
    and "dae_host d1 = dae_host d" and "open_finish c cl request prepared None d1 = Some p"
  shows "fulfils w CommandOpen args d p"
proof -
  obtain x h where o: "openWithObserver c (cl_pf cl) (cl_now cl) (cl_tmp cl) request prepared (dae_host d) = Some (x, h)"
      and p: "p = (case x of Inl e \<Rightarrow> Inl (''OPEN'', OpenError e) | Inr n \<Rightarrow> Inr (DataOpened (opened (the (reg_get n (h_reg h))) True)),
        set_host h d1)"
    using assms(3,4) by (auto simp: open_finish_def split: option.splits sum.splits)
  from o show ?thesis
  proof (cases rule: openWithObserver_cases)
    case (opened n pid st fd dk obs led)
    define s where "s = (open_session c (cl_pf cl) (cl_now cl) request prepared (h_reg (dae_host d)) n pid)\<lparr>ses_store := st, ses_feed := fd\<rparr>"
    have "reg_get k (h_reg h) = (if k = n then Some s else ses_at d k)" for k
      using opened(6) by (simp add: reg_get_def AList.update_conv' s_def)
    moreover have "ses_id s = n" "ses_paneID s = op_PaneID request" by (simp_all add: s_def)
    ultimately show ?thesis using opened(1,4) p assms(1,2) by (simp add: opened_def elsewhere_def reg_get_def)
  qed (auto simp: p intro!: refused_same)
qed

lemma open_fulfils:
  assumes "host_ok (dae_host d)" and "ctl_open c w cl args d = Some p"
  shows "fulfils w CommandOpen args d p"
proof -
  obtain b d1 where b: "open_begin w args d = (b, d1)" by fastforce
  have d1: "dae_host d1 = dae_host d" using open_begin_host [OF b] .
  show ?thesis
  proof (cases b)
    case (Inl e)
    then have "p = (Inl e, d1)" using assms(2) b by (simp add: ctl_open_def)
    with b Inl d1 show ?thesis
      by (auto simp: open_begin_def take_pending_def intro!: refused_same split: sum.splits option.splits if_splits)
  next
    case (Inr y)
    obtain request prepared where y: "y = (request, prepared)" by fastforce
    have r: "decode (w_Open w) args = Inr request" "w_Validate w request = None"
      using b Inr y by (auto simp: open_begin_def split: sum.splits option.splits if_splits prod.splits)
    have f: "open_finish c cl request prepared (open_lookup request d1) d1 = Some p"
      using assms(2) b Inr y by (simp add: ctl_open_def)
    show ?thesis
      using open_existing_fulfils [OF assms(1) r _ d1] open_new_fulfils [OF r d1] f by (cases "open_lookup request d1") auto
  qed
qed

subsection \<open>The request and its answer\<close>

lemmas handlers_fulfil = write_fulfils resize_fulfils ack_fulfils close_fulfils pane_fulfils closeWindow_fulfils
  sessionClose_fulfils modes_fulfils lease_fulfils detachRenderer_fulfils prepareObserver_fulfils displays_fulfils
  inventory_fulfils tail_fulfils looks_fulfil

lemma command_fulfils:
  assumes "host_ok (dae_host d)" and "run_command c w cl x args d = Some p"
  shows "fulfils w x args d p"
proof (cases "x = CommandOpen")
  case True
  with assms show ?thesis by (simp add: run_command_def open_fulfils)
next
  case False
  then have "fulfils w x args d (the (run_command c w cl x args d))"
    using assms(1) by (cases x) (simp_all only: run_command_def command.case option.sel handlers_fulfil not_True_eq_False refl)
  with assms(2) show ?thesis by simp
qed

lemma commands_table:
  assumes "distinct (map fst (commands w))"
  shows "map_of (commands w) (command_name w x) = Some x"
proof -
  have "(command_name w x, x) \<in> set (commands w)" by (cases x) (simp_all add: commands_def)
  with assms show ?thesis by simp
qed

text \<open>C30. An accepted command was carried out, on the session its request names and on no other; a refused one
  opened and ended nothing. On a greeted connection, for each of the nineteen commands of the table
  (their names differ and are no stream's, as the contract's are): when its handler returns, the answer carries the
  id of the request. If it is accepted, what it reports is what was asked and what was done (\<open>carried_out\<close>): the
  bytes of a write went to that session's process, the size is the session's size, an acknowledgement
  moved to at most what was written, a closed session or every session of a closed window is out of the
  registry, a lease is held at the coordinate it names, an open's session is the one at its pane and is
  new exactly when the answer says so, a tail is the end of what the ring holds, and the commands that
  only look change nothing; sessions the request does not concern are untouched. If it is refused, its
  code is one of the command's own, every session still has its shell, and with ARGUMENT or NO_SESSION
  the daemon is as it was.\<close>

theorem accepted_means_done:
  assumes "distinct (map fst (commands w))" and "command_name w x \<noteq> w_Hello w" and "command_name w x \<noteq> w_Handoff w"
    and "stream_of w (command_name w x) = None" and "rq_Command request = command_name w x" and "host_ok (dae_host d)"
    and "serve_line c w cl (Inr request) True d = Some ((r, final), d')"
  shows "rsp_ID r = rq_ID request
    \<and> (rsp_Ok r \<longrightarrow> rsp_Code r = ''OK'' \<and> rsp_Error r = None \<and> carried_out w x (rq_Args request) d (rsp_Data r) d')
    \<and> (\<not> rsp_Ok r \<longrightarrow> rsp_Error r \<noteq> None \<and> rsp_Data r = NoData \<and> rsp_Code r \<in> set (refusal_codes x)
        \<and> (\<forall>n. case reg_get n (h_reg (dae_host d)) of
             None \<Rightarrow> reg_get n (h_reg (dae_host d')) = None
           | Some s \<Rightarrow> \<exists>s'. reg_get n (h_reg (dae_host d')) = Some s' \<and> same_shell s s')
        \<and> (rsp_Code r = ''ARGUMENT'' \<or> rsp_Code r = ''NO_SESSION'' \<longrightarrow> d' = d))"
proof -
  have "map_of (unserved w) (command_name w x) = None" using assms(3) by (simp add: unserved_def)
  then obtain answer where a: "run_command c w cl x (rq_Args request) d = Some (answer, d')" "r = respond (rq_ID request) answer"
    using assms(2,4,5,7) commands_table [OF assms(1), of x]
    by (auto simp: serve_line_def answer_request_def)
  from command_fulfils [OF assms(6) a(1)] show ?thesis
    by (cases answer) (auto simp: a(2) respond_def refusal_def accepted_def refused_def simp del: carried_out.simps)
qed

definition sample_shells :: daemon where
  "sample_shells = put_ses (sample_session 9) (put_ses (sample_session 7) sample_daemon)"

lemma sample_shells_sessions: "reg_sessions (h_reg (dae_host sample_shells)) = [(7, sample_session 7), (9, sample_session 9)]"
  by (simp add: sample_shells_def put_session_def sample_session_def born_session_def sample_daemon_def
      sample_monitoring_def new_host_def newRegistry_def)

lemma sample_shells_ok: "host_ok (dae_host sample_shells)"
  by (simp add: host_ok_def sample_shells_sessions sample_session_def born_session_def)
    (simp add: sample_shells_def put_session_def sample_daemon_def sample_monitoring_def new_host_def newRegistry_def)

lemma sample_names_distinct: "distinct (map fst (commands sample_wire))"
  by (simp add: commands_def command_name_def sample_wire_def sample_names_def)

theorem accepted_means_done_witness:
  "\<exists>r d' s. serve_line small_contract sample_wire sample_call
      (Inr \<lparr>rq_ID = ''8'', rq_Command = ''pty.write'', rq_Args = [(''request'', ''bHM='')]\<rparr>) True sample_shells
      = Some ((r, NextLine True), d')
    \<and> rsp_ID r = ''8'' \<and> rsp_Data r = DataBytes 2 \<and> reg_get 7 (h_reg (dae_host d')) = Some s
    \<and> ses_process s = [ProcWrite [108, 115]] \<and> reg_get 9 (h_reg (dae_host d')) = Some (sample_session 9)"
proof -
  let ?request = "\<lparr>rq_ID = ''8'', rq_Command = ''pty.write'', rq_Args = [(''request'', ''bHM='')]\<rparr>"
  have name: "rq_Command ?request = command_name sample_wire CommandWrite"
      "command_name sample_wire CommandWrite \<noteq> w_Hello sample_wire" "command_name sample_wire CommandWrite \<noteq> w_Handoff sample_wire"
      "stream_of sample_wire (command_name sample_wire CommandWrite) = None"
    by (simp_all add: command_name_def sample_wire_def sample_names_def stream_of_def)
  have b: "b64_decode ''bHM='' = Some [108, 115]" by code_simp
  have at: "ses_at sample_shells 7 = Some (sample_session 7)" "ses_at sample_shells 9 = Some (sample_session 9)"
    by (simp_all add: reg_get_def sample_shells_sessions)
  have dec: "decode (w_Write sample_wire) [(''request'', ''bHM='')] = Inr (7, ''bHM='')" by (simp add: decode_def sample_wire_def)
  obtain d' where "ctl_write sample_wire sample_call [(''request'', ''bHM='')] sample_shells = (Inr (DataBytes 2), d')"
    by (simp add: ctl_write_def with_request_def with_session_def dec b at session_write_def sample_call_def
        sample_session_def born_session_def)
  then have run: "run_command small_contract sample_wire sample_call CommandWrite [(''request'', ''bHM='')] sample_shells = Some (Inr (DataBytes 2), d')"
    by (simp add: run_command_def)
  have "map_of (commands sample_wire) ''pty.write'' = Some CommandWrite"
    using commands_table [OF sample_names_distinct, of CommandWrite] name(1) by simp
  moreover have "map_of (unserved sample_wire) ''pty.write'' = None" by (simp add: unserved_def sample_wire_def)
  moreover have "w_Hello sample_wire \<noteq> ''pty.write''" "stream_of sample_wire ''pty.write'' = None" using name by simp_all
  ultimately have line: "serve_line small_contract sample_wire sample_call (Inr ?request) True sample_shells
      = Some ((accepted ''8'' (DataBytes 2), NextLine True), d')"
    using run by (simp add: serve_line_def answer_request_def respond_def sample_call_def)
  from accepted_means_done [OF sample_names_distinct name(2-4) name(1) sample_shells_ok line]
  show ?thesis using line dec b at
    by (auto simp: accepted_def elsewhere_def sample_session_def born_session_def)
qed

end
