(* ===== verification/Spec2Isabelle.thy ===== *)
theory Spec2Isabelle
  imports Readers Delivery Frames Flow Environment Inventory Watch Restore Monitor ControlRuns Startup ConPty ControlAnswers
begin

text \<open>
  \<^bold>\<open>The program.\<close> A daemon that owns shells on behalf of an application. Each shell runs on a
  pseudo-terminal; the daemon moves its bytes and reads none of them, keeps the recent output so that a
  client can come back to it, keeps enough on disk to stand a session up again after the daemon itself
  went away, and reports which processes run under every shell. Its parts, with the theories that model
  them (the files are those under src/):

  \<^item> \<^emph>\<open>Output ring\<close> (ring.go; theories Ring, Readers). The retained output of a session at absolute
    coordinates, with leases that keep bytes for a client and reads that block. One definition per method;
    a blocked read is the answer \<open>ReadParked\<close> of \<open>ring_read\<close>, and \<open>reader_step\<close> interleaves parked readers with
    every other operation.
  \<^item> \<^emph>\<open>Observers\<close> (observer.go; Observer) and \<^emph>\<open>delivery\<close> (stream.go; Delivery, Frames). Bounded
    queues of what happened in a session, the stream that carries output to an attached connection with
    its batching and its deadline, and the binary frames of an observation stream.
  \<^item> \<^emph>\<open>Store\<close> (store.go; Decimal, Disk, Store, StoreLog) and \<^emph>\<open>store feed\<close> (feed.go; Feed, Sink).
    A record and two rotating output segments per session, written through a directory in which every
    call may fail or be cut short by a crash, and the queue between the shell and the disk.
  \<^item> \<^emph>\<open>Session\<close> (session.go; Session, SessionRuns, Flow). One shell with its ring, observers and feed:
    output, input, sizes, who shows it and who renders it, flow control and the end.
  \<^item> \<^emph>\<open>Registry\<close> (session.go; Registry) and \<^emph>\<open>restore\<close> (restore.go; Restore). Issuing ids, opening,
    listing, closing, the sweep of abandoned sessions, the stop of the daemon, and standing every recorded
    session up again with an outcome that says what came back. The environment a shell is started in
    (environment.go) is theory Environment.
  \<^item> \<^emph>\<open>Processes\<close> (process_tree_unix.go, process_tree_windows.go; ProcessTree.
    process_tree_events.go, process_tree_events_darwin.go, process_tree_events_unsupported.go; Watch.
    process_inventory_state.go; Inventory. process_monitor.go and the records of control.go; Monitor.)
    Reading the descendants of a shell out of the process table, following them with a kernel queue,
    the inventory with its numbered events, and the monitors that join the three.
  \<^item> \<^emph>\<open>Control socket\<close> (control.go, sort.go; Encoding, Control, ControlRuns, ControlAnswers). The connection loop with its
    greeting, the table of commands with one definition per handler, the streams a connection can turn into,
    and the timers of leases and prepared observers, over a daemon that joins all of the above.
  \<^item> \<^emph>\<open>Session processes\<close> (process_unix.go; SessionProcess. process_windows.go; ConPty). Starting and
    ending the process behind a session, over a table of processes, groups and terminals on one platform and
    a record of open handles, consoles and jobs on the other.
  \<^item> \<^emph>\<open>Start and stop\<close> (main.go, listen_unix.go, listen_windows.go, socket_limit_unix.go, limits_unix.go,
    limits_windows.go, process_label.go; Startup). The token, the order of a start up to its announcement,
    the address, the sweep and the stop.

  Prelude holds machine types, coordinate arithmetic and association lists; Contract the constants of the
  contract packages, which are not part of the repository, as a record with the facts the code relies on
  (\<open>contract_ok\<close>); Log the abstract output log that the ring and the store are measured against.

  \<^bold>\<open>How code became definitions.\<close> A Go struct is a record and a Go map an association list. Objects
  shared by pointer (observers, subscriptions, monitors) live in a heap by address. A mutex makes its
  critical section one step; where an operation releases a lock half way and another can come between,
  the sections are separate definitions and an inductive relation interleaves them (\<open>reader_step\<close>,
  \<open>feed_step\<close>, \<open>deliver_step\<close>, \<open>flow_step\<close>, \<open>reg_step\<close>, \<open>mon_step\<close>, \<open>ctl_step\<close>,
  \<open>ux_background\<close>, \<open>conpty_background\<close>). Errors are values of sum types.
  What the operating system or a library answers is an argument: whether a call fails, the clock, random
  bytes, the text of the process table, what the kernel queue says, which process a start gives.
  Coordinates and ids are 64-bit words that wrap; statements about coordinates name the bound under which
  they do not.

  \<^bold>\<open>What is shown.\<close> The ring refines an append-only log at absolute coordinates, its leases protect what
  they promise until they are consumed, and no wake-up of a reader is lost. An observer's queue never
  spans a hole silently; the frames can be read back; an attached connection is given the output in
  order, and without a hole as long as its reader keeps up with the ring's floor. The store refines the same log over its two segments, its records are atomic under failures and
  crashes, a removal can be resumed, and its listing is exact. What a drained feed accepted is what the
  store gives back. In every reachable state of a session its observers follow its output, a replaced
  renderer cannot detach its successor, an abandoned session was unattended (unless a displaying observer
  was adopted while its clock ran), no release of a paused pump is lost, and the backlog the pump saw at
  its last check with a renderer attached is bounded. The registry never loses a shell, issues fresh ids, and its sweep
  ends exactly the abandoned sessions. A session that lost nothing before a clean stop is restored in full
  from what its stop left on disk, and a session that runs again has its stop mark taken off. The process walk is the reachability relation of the process table, the inventory is the
  union of the sessions' snapshots, its event stream replays to it, and a session whose end was announced
  never comes back into it, whatever callbacks are late. On the control socket nothing is reached before a
  greeting with the daemon's token, an accepted command was carried out on the session it names and on no
  other while a refused one opened and ended nothing, and while commands do not overlap no two running
  sessions share a pane and every shell is accounted for. Ending a process always
  completes, whatever runs beside it: on Unix it ends exactly the shell's group, and on Windows it gives back
  every handle once, as does a start that fails at any of its calls; the environment block of a shell can be
  read back. A start that succeeded admits exactly the token it announced.

  Some theorems state what the code does where that is not what it means to do: a consumed lease can skip
  output, a pause can come late, an adopted observer keeps an old stamp, a session whose shell exited keeps
  its pane, two opens that overlap give a pane two shells, a broken lease detaches the renderer that was
  attached, a signal to a group spares the jobs in other groups, and a start that is refused the address has
  already started the shells.

  Interfaces are locales interpreted on these definitions: an output log with a floor (Log, provided by
  the ring), the sink of a feed (Sink, provided by the store), a reader and a watch of a process tree
  (ProcessTree, Watch, used by Monitor), and the process of a session (SessionProcess, provided by both
  platforms).

  \<^bold>\<open>Bounds and fuel.\<close> No definition runs on fuel. Loops over data are structural; the walk of the
  process tree, the splitting of fields and the draining of a feed have termination proofs; the search
  for a free id, which has no bound of its own, is a partial function shown to return while an id is free.

  \<^bold>\<open>Not modelled.\<close> Parsing flags, printing to the standard streams and waiting for a signal (main.go), the
  accept loop, which starts one connection after the other, and the Read and Write of a process, each one call
  into the system whose effect on a session is the list of calls it made. JSON and the contract packages are
  third-party: decoding a payload, the names of commands, paths and labels are arguments, and a record's JSON
  text is represented by the record it parses to. So are the encoding of wide strings, starting a command on a
  terminal, and the process table and the kernel queue, as text and answers. What the registry announces of a
  session is a ledger that the monitors follow, rather than a call inside each operation. The exact scheduling
  of goroutines is abstracted by interleaving critical sections. An append to a session's output and the
  removal of that session hold different locks in store.go; here each is one step, so a removal that comes
  between the calls of an append is not covered. Whether a process takes a write is one answer of the call
  (\<open>cl_proc\<close>): a write that blocks is a handler that does not return, and the theorems about handlers speak
  of those that do. On Windows the errors of the two terminate calls, which the code drops, do not occur, and
  closing a pseudo console is one step that does not block.
\<close>

end
